(* ===== verification/Exo_Prelude.thy ===== *)
theory Exo_Prelude
  imports Main "HOL-Library.Word" "HOL-Library.Sublist" "HOL-Library.Multiset"
begin

text \<open>
  Vocabulary shared by every component theory: Rust's machine integers as words of their
  width, \<open>Result\<close> as a sum type whose left side is the error, and the generic facts about
  bit sets, linear searches and lists on which the component proofs rest.

  The kernel is built with its release profile, so integer operators wrap and
  \<open>debug_assert!\<close> has no effect; both are written out where a definition depends on them.
  Atomics and locks are modelled sequentially: one operation is one state transition.
\<close>

unbundle bit_operations_syntax

named_theorems bitset_simps \<open>membership reading of the bitwise set operations\<close>
named_theorems exo_inv \<open>preservation of component invariants\<close>

section \<open>Types\<close>

type_synonym u8 = "8 word"
type_synonym u16 = "16 word"
type_synonym u32 = "32 word"
type_synonym u64 = "64 word"
type_synonym ('e, 'a) result = "'e + 'a"

abbreviation Ok :: "'a \<Rightarrow> ('e, 'a) result" where "Ok \<equiv> Inr"
abbreviation Err :: "'e \<Rightarrow> ('e, 'a) result" where "Err \<equiv> Inl"

abbreviation u64_MAX :: u64 where "u64_MAX \<equiv> - 1"
abbreviation u32_MAX :: u32 where "u32_MAX \<equiv> - 1"

definition is_ok :: "('e, 'a) result \<Rightarrow> bool" where
  "is_ok r = (case r of Inl e \<Rightarrow> False | Inr x \<Rightarrow> True)"

lemma is_ok_simps [simp]: "is_ok (Inr x)" "\<not> is_ok (Inl e)"
  by (simp_all add: is_ok_def)

section \<open>Words as bit sets\<close>

definition word_subset :: "'a::len word \<Rightarrow> 'a word \<Rightarrow> bool" where
  "word_subset a b = (a AND b = a)"

lemma word_subset_iff_bits [bitset_simps]:
  "word_subset a b \<longleftrightarrow> (\<forall>n. bit a n \<longrightarrow> bit b n)"
  unfolding word_subset_def by (auto simp: bit_eq_iff bit_simps dest: bit_imp_le_length)

lemma word_subset_refl [simp]: "word_subset a a"
  by (simp add: word_subset_iff_bits)

lemma word_subset_trans: "word_subset a b \<Longrightarrow> word_subset b c \<Longrightarrow> word_subset a c"
  by (simp add: word_subset_iff_bits)

lemma word_subset_zero [simp]: "word_subset 0 a"
  by (simp add: word_subset_def)

lemma word_subset_andI [simp]: "word_subset (a AND b) a" "word_subset (a AND b) b"
  by (simp_all add: word_subset_iff_bits bit_simps)

lemma word_subset_antisym: "word_subset a b \<Longrightarrow> word_subset b a \<Longrightarrow> a = b"
  by (auto simp: word_subset_def ac_simps)

lemma and_not_zero_iff_subset [bitset_simps]:
  fixes a b :: "'a::len word"
  shows "a AND NOT b = 0 \<longleftrightarrow> word_subset a b"
proof
  assume h: "a AND NOT b = 0"
  show "word_subset a b" unfolding word_subset_iff_bits
  proof (intro allI impI)
    fix n assume n: "bit a n"
    have "\<not> bit (a AND NOT b) n" by (simp add: h)
    then show "bit b n" using n bit_imp_le_length [OF n] by (simp add: bit_simps)
  qed
next
  assume "word_subset a b"
  then show "a AND NOT b = 0"
    by (auto simp: word_subset_iff_bits bit_eq_iff bit_simps)
qed

lemma word_eq_0_iff_bits: "(w :: 'a::len word) = 0 \<longleftrightarrow> (\<forall>n. \<not> bit w n)"
  by (auto intro: bit_eqI)

lemma word_subset_push_bit_one [bitset_simps]:
  fixes a :: "'a::len word"
  assumes "n < LENGTH('a)"
  shows "word_subset (push_bit n 1) a \<longleftrightarrow> bit a n"
  using assms unfolding word_subset_iff_bits by (auto simp: bit_exp_iff)

lemma and_eq_right_iff_subset [bitset_simps]:
  fixes a b :: "'a::len word"
  shows "a AND b = b \<longleftrightarrow> word_subset b a"
  by (simp add: word_subset_def and.commute)

text \<open>Bitmaps of 64-bit words: testing, clearing and setting one bit.\<close>

lemma and_push_bit_0_iff: "(w :: 'a::len word) AND push_bit n 1 = 0 \<longleftrightarrow> \<not> bit w n"
  by (simp only: bit_iff_and_push_bit_not_eq_0 not_not)

lemma bit_clear_one: "j < LENGTH('a) \<Longrightarrow> bit ((w :: 'a::len word) AND NOT (push_bit i 1)) j \<longleftrightarrow> bit w j \<and> j \<noteq> i"
  unfolding push_bit_of_1 by (auto simp: bit_simps bit_exp_iff)

lemma bit_set_one: "j < LENGTH('a) \<Longrightarrow> bit ((w :: 'a::len word) OR push_bit i 1) j \<longleftrightarrow> bit w j \<or> j = i"
  unfolding push_bit_of_1 by (auto simp: bit_simps bit_exp_iff)

lemma div_mod_64: "(p::nat) = q \<longleftrightarrow> p div 64 = q div 64 \<and> p mod 64 = q mod 64"
  by (metis div_mult_mod_eq)

text \<open>\<open>u64::trailing_zeros\<close>: the position of the lowest set bit, 64 when there is none.\<close>

definition trailing_zeros_u64 :: "u64 \<Rightarrow> nat" where
  "trailing_zeros_u64 w = length (takeWhile (\<lambda>i. \<not> bit w i) [0..<64])"

lemma trailing_zeros_u64_spec:
  assumes "w \<noteq> 0"
  shows "trailing_zeros_u64 w < 64 \<and> bit w (trailing_zeros_u64 w) \<and> (\<forall>i < trailing_zeros_u64 w. \<not> bit w i)"
proof -
  define tw where "tw = takeWhile (\<lambda>i. \<not> bit w i) [0..<64]"
  have z: "trailing_zeros_u64 w = length tw" by (simp add: trailing_zeros_u64_def tw_def)
  obtain n where n: "n < 64" "bit w n" using assms by (auto simp: bit_eq_iff)
  have "n \<notin> set tw" using n(2) by (auto simp: tw_def dest: set_takeWhileD)
  then have "tw \<noteq> [0..<64]" using n(1) by auto
  then have lt: "length tw < 64"
    using length_takeWhile_le [of "\<lambda>i. \<not> bit w i" "[0..<64]"]
    by (metis diff_zero length_upt nat_less_le takeWhile_eq_take take_all tw_def order_refl)
  have "bit w (length tw)"
    using nth_length_takeWhile [of "\<lambda>i. \<not> bit w i" "[0..<64]"] lt by (simp add: tw_def)
  moreover have "\<not> bit w i" if "i < length tw" for i
  proof -
    have "tw ! i = i" using that lt unfolding tw_def by (simp add: takeWhile_nth)
    then show ?thesis using nth_mem [OF that] by (auto simp: tw_def dest: set_takeWhileD)
  qed
  ultimately show ?thesis unfolding z using lt by blast
qed

section \<open>Reading words as naturals\<close>

lemma unat_less_2p: "unat (w :: 'a::len word) < 2 ^ LENGTH('a)"
  by (rule unsigned_less)

lemma unat_minus_one: "unat (- 1 :: 'a::len word) = 2 ^ LENGTH('a) - 1"
  by (simp add: unsigned_minus_1_eq_mask mask_eq_exp_minus_1)

lemma unat_ucast_up:
  assumes "LENGTH('a) \<le> LENGTH('b)"
  shows "unat (ucast (w :: 'a::len word) :: 'b::len word) = unat w"
proof -
  have "(2::nat) ^ LENGTH('a) \<le> 2 ^ LENGTH('b)" using assms by simp
  then have "unat w < 2 ^ LENGTH('b)" using unat_less_2p [of w] by linarith
  then show ?thesis by (simp add: unsigned_ucast_eq take_bit_nat_eq_self)
qed

lemma unat_add_one: "w \<noteq> - 1 \<Longrightarrow> unat (w + 1 :: 'a::len word) = Suc (unat w)"
proof -
  assume ne: "w \<noteq> - 1"
  have "unat w \<noteq> 2 ^ LENGTH('a) - 1" using ne unat_minus_one [where 'a = 'a] word_unat_eq_iff by metis
  then have "unat w + 1 < 2 ^ LENGTH('a)" using unat_less_2p [of w] by linarith
  then show ?thesis by (simp add: unat_word_ariths)
qed

section \<open>Saturating arithmetic\<close>

definition saturating_add :: "'a::len word \<Rightarrow> 'a word \<Rightarrow> 'a word" where
  "saturating_add a b = (if unat a + unat b < 2 ^ LENGTH('a) then a + b else - 1)"

definition saturating_sub :: "'a::len word \<Rightarrow> 'a word \<Rightarrow> 'a word" where
  "saturating_sub a b = (if b \<le> a then a - b else 0)"

definition saturating_mul :: "'a::len word \<Rightarrow> 'a word \<Rightarrow> 'a word" where
  "saturating_mul a b = (if unat a * unat b < 2 ^ LENGTH('a) then a * b else - 1)"

lemma unat_saturating_add: "unat (saturating_add a b :: 'a::len word) = min (unat a + unat b) (2 ^ LENGTH('a) - 1)"
  by (auto simp: saturating_add_def unat_word_ariths unat_minus_one)

lemma unat_saturating_sub: "unat (saturating_sub a b :: 'a::len word) = unat a - unat b"
  by (auto simp: saturating_sub_def unat_sub word_le_nat_alt)

lemma unat_saturating_mul: "unat (saturating_mul a b :: 'a::len word) = min (unat a * unat b) (2 ^ LENGTH('a) - 1)"
  by (auto simp: saturating_mul_def unat_word_ariths unat_minus_one)

section \<open>Little-endian byte strings\<close>

text \<open>
  \<open>to_ne_bytes\<close> and \<open>from_ne_bytes\<close> on the x86-64 target, for a word of any width.
\<close>

primrec to_le_bytes :: "nat \<Rightarrow> 'a::len word \<Rightarrow> u8 list" where
  "to_le_bytes 0 w = []"
| "to_le_bytes (Suc n) w = ucast w # to_le_bytes n (drop_bit 8 w)"

primrec from_le_bytes :: "u8 list \<Rightarrow> 'a::len word" where
  "from_le_bytes [] = 0"
| "from_le_bytes (b # bs) = ucast b OR push_bit 8 (from_le_bytes bs)"

lemma length_to_le_bytes [simp]: "length (to_le_bytes n w) = n"
  by (induction n arbitrary: w) auto

lemma from_to_le_bytes: "from_le_bytes (to_le_bytes n w) = take_bit (8 * n) (w :: 'a::len word)"
proof (induction n arbitrary: w)
  case 0
  show ?case by simp
next
  case (Suc n)
  have "ucast (ucast w :: u8) OR push_bit 8 (take_bit (8 * n) (drop_bit 8 w))
      = take_bit (8 * Suc n) w"
    by (rule bit_eqI) (auto simp: bit_simps dest: bit_imp_le_length)
  then show ?case by (simp add: Suc)
qed

lemma from_to_le_bytes_id [simp]:
  "LENGTH('a) \<le> 8 * n \<Longrightarrow> from_le_bytes (to_le_bytes n w) = (w :: 'a::len word)"
  by (simp add: from_to_le_bytes take_bit_word_eq_self)

lemma to_from_le_bytes:
  "8 * length bs \<le> LENGTH('a) \<Longrightarrow> to_le_bytes (length bs) (from_le_bytes bs :: 'a::len word) = bs"
proof (induction bs)
  case Nil
  then show ?case by simp
next
  case (Cons b bs)
  let ?w = "from_le_bytes bs :: 'a word"
  have "bit ?w n \<Longrightarrow> n < 8 * length bs" for n
  proof (induction bs arbitrary: n)
    case (Cons c cs)
    then show ?case by (force simp: bit_simps dest: bit_imp_le_length)
  qed simp
  then have "drop_bit 8 (ucast b OR push_bit 8 ?w) = ?w"
    using Cons.prems by (intro bit_eqI) (fastforce simp: bit_simps dest: bit_imp_le_length)
  moreover have "(ucast (ucast b OR push_bit 8 ?w) :: u8) = b"
    using Cons.prems by (intro bit_eqI) (auto simp: bit_simps)
  ultimately show ?case using Cons by simp
qed

section \<open>Masks on indexes\<close>

lemma mod_add_inj_nat:
  fixes s p q m :: nat
  assumes "p < m" "q < m" "(s + p) mod m = (s + q) mod m"
  shows "p = q"
proof -
  have aux: "a = b" if "a \<le> b" "b < m" "(s + b) mod m = (s + a) mod m" for a b
  proof -
    have "m dvd (s + b) - (s + a)" using that by (subst mod_eq_dvd_iff_nat [symmetric]) auto
    then have "m dvd b - a" by simp
    then show ?thesis using that by (cases "b - a = 0") (auto dest: dvd_imp_le)
  qed
  show ?thesis using aux [of p q] aux [of q p] assms by (cases "p \<le> q") auto
qed

lemma mod_add_surj_nat:
  fixes s i m :: nat
  assumes "i < m"
  shows "(s + (i + m - s mod m) mod m) mod m = i"
proof -
  have "s mod m < m" using assms by simp
  then have "s mod m + (i + m - s mod m) = i + m" by linarith
  then have "(s mod m + (i + m - s mod m)) mod m = i" using assms by simp
  then show ?thesis by (simp add: mod_add_left_eq mod_add_right_eq)
qed

lemma nat_and_mask_mod: "(n::nat) AND (2 ^ k - 1) = n mod 2 ^ k"
  by (metis mask_eq_exp_minus_1 take_bit_eq_mask take_bit_eq_mod)

section \<open>Updates of counted arrays\<close>

lemma card_upd_insert:
  assumes "finite A" "i \<in> A" "\<not> P (f i)" "P v"
  shows "card {j \<in> A. P ((f(i := v)) j)} = Suc (card {j \<in> A. P (f j)})"
proof -
  have "{j \<in> A. P ((f(i := v)) j)} = insert i {j \<in> A. P (f j)}" using assms by auto
  then show ?thesis using assms by simp
qed

lemma card_upd_remove:
  assumes "finite A" "i \<in> A" "P (f i)" "\<not> P v"
  shows "Suc (card {j \<in> A. P ((f(i := v)) j)}) = card {j \<in> A. P (f j)}"
proof -
  have "{j \<in> A. P (f j)} = insert i {j \<in> A. P ((f(i := v)) j)}" using assms by auto
  then show ?thesis using assms by simp
qed

lemma card_upd_same:
  assumes "P (f i) = P v"
  shows "card {j \<in> A. P ((f(i := v)) j)} = card {j \<in> A. P (f j)}"
proof -
  have "{j \<in> A. P ((f(i := v)) j)} = {j \<in> A. P (f j)}" using assms by auto
  then show ?thesis by simp
qed

section \<open>First hit of a linear scan\<close>

lemma find_upt_Some_iff:
  "find P [a..<b] = Some q \<longleftrightarrow> a \<le> q \<and> q < b \<and> P q \<and> (\<forall>r. a \<le> r \<and> r < q \<longrightarrow> \<not> P r)"
proof (induction "b - a" arbitrary: a)
  case 0
  then show ?case by auto
next
  case (Suc n)
  then have ab: "a < b" by simp
  have "find P [a..<b] = (if P a then Some a else find P [Suc a..<b])"
    using ab by (simp add: upt_rec)
  moreover have "find P [Suc a..<b] = Some q \<longleftrightarrow>
      Suc a \<le> q \<and> q < b \<and> P q \<and> (\<forall>r. Suc a \<le> r \<and> r < q \<longrightarrow> \<not> P r)"
    using Suc by simp
  ultimately have e: "find P [a..<b] = Some q \<longleftrightarrow> (if P a then a = q else
      Suc a \<le> q \<and> q < b \<and> P q \<and> (\<forall>r. Suc a \<le> r \<and> r < q \<longrightarrow> \<not> P r))" by simp
  show ?case
  proof (cases "P a")
    case True
    then show ?thesis using e ab by (auto simp: le_less)
  next
    case False
    then show ?thesis using e by (metis Suc_leD Suc_leI le_neq_implies_less)
  qed
qed

lemma find_upt_None_iff: "find P [a..<b] = None \<longleftrightarrow> (\<forall>r. a \<le> r \<and> r < b \<longrightarrow> \<not> P r)"
  by (auto simp: find_None_iff)

lemma option_eqI: "(\<And>j. f = Some j \<longleftrightarrow> g = Some j) \<Longrightarrow> f = g"
  by (cases f; cases g) auto

lemma option_list_induct [case_names Nil None Some]:
  assumes "P []" "\<And>xs. P xs \<Longrightarrow> P (None # xs)" "\<And>x xs. P xs \<Longrightarrow> P (Some x # xs)"
  shows "P xs"
proof (induction xs)
  case (Cons a xs)
  then show ?case using assms by (cases a) auto
qed (rule assms(1))

end
