(* ===== verification/Cap_Rights.thy ===== *)
theory Cap_Rights
  imports Exo_Prelude
begin

text \<open>
  The rights bit set of \<open>kernel/src/security/capability/rights.rs\<close>: a 32-bit mask with
  sixteen named bits.  The operations are the bitwise ones of the source; the lemmas read
  them as operations on sets of bits, which is what the capability proofs use.
\<close>

section \<open>Definitions\<close>

datatype Rights = Rights (Rights_bits: u32)

definition Rights_NONE :: Rights where "Rights_NONE = Rights 0"
definition Rights_READ :: Rights where "Rights_READ = Rights (push_bit 0 1)"
definition Rights_WRITE :: Rights where "Rights_WRITE = Rights (push_bit 1 1)"
definition Rights_EXEC :: Rights where "Rights_EXEC = Rights (push_bit 2 1)"
definition Rights_GRANT :: Rights where "Rights_GRANT = Rights (push_bit 3 1)"
definition Rights_REVOKE :: Rights where "Rights_REVOKE = Rights (push_bit 4 1)"
definition Rights_DELEGATE :: Rights where "Rights_DELEGATE = Rights (push_bit 5 1)"
definition Rights_IPC_CONNECT :: Rights where "Rights_IPC_CONNECT = Rights (push_bit 6 1)"
definition Rights_IPC_SEND :: Rights where "Rights_IPC_SEND = Rights (push_bit 7 1)"
definition Rights_IPC_RECV :: Rights where "Rights_IPC_RECV = Rights (push_bit 8 1)"
definition Rights_IPC_MANAGE :: Rights where "Rights_IPC_MANAGE = Rights (push_bit 9 1)"
definition Rights_MEM_MAP :: Rights where "Rights_MEM_MAP = Rights (push_bit 10 1)"
definition Rights_MEM_PROTECT :: Rights where "Rights_MEM_PROTECT = Rights (push_bit 11 1)"
definition Rights_MEM_UNMAP :: Rights where "Rights_MEM_UNMAP = Rights (push_bit 12 1)"
definition Rights_DEV_MMIO :: Rights where "Rights_DEV_MMIO = Rights (push_bit 13 1)"
definition Rights_DEV_DMA :: Rights where "Rights_DEV_DMA = Rights (push_bit 14 1)"
definition Rights_DEV_IRQ :: Rights where "Rights_DEV_IRQ = Rights (push_bit 15 1)"
definition Rights_READ_WRITE :: Rights where
  "Rights_READ_WRITE = Rights (Rights_bits Rights_READ OR Rights_bits Rights_WRITE)"
definition Rights_IPC_BASIC :: Rights where
  "Rights_IPC_BASIC = Rights (Rights_bits Rights_IPC_CONNECT OR Rights_bits Rights_IPC_SEND OR Rights_bits Rights_IPC_RECV)"
definition Rights_ALL :: Rights where "Rights_ALL = Rights u32_MAX"


definition Rights_from_bits_truncate :: "u32 \<Rightarrow> Rights" where
  "Rights_from_bits_truncate bs = Rights bs"

definition Rights_from_bits :: "u32 \<Rightarrow> Rights option" where
  "Rights_from_bits bs = (if bs AND NOT 0xFFFF = 0 then Some (Rights bs) else None)"

definition Rights_contains :: "Rights \<Rightarrow> Rights \<Rightarrow> bool" where
  "Rights_contains self required =
     (Rights_bits self AND Rights_bits required = Rights_bits required)"

definition Rights_contains_ct :: "Rights \<Rightarrow> Rights \<Rightarrow> bool" where
  "Rights_contains_ct self required =
     (Rights_bits self AND Rights_bits required = Rights_bits required)"

definition Rights_is_subset_of :: "Rights \<Rightarrow> Rights \<Rightarrow> bool" where
  "Rights_is_subset_of self parent = (Rights_bits self AND NOT (Rights_bits parent) = 0)"

definition Rights_intersect :: "Rights \<Rightarrow> Rights \<Rightarrow> Rights" where
  "Rights_intersect self other = Rights (Rights_bits self AND Rights_bits other)"

definition Rights_union :: "Rights \<Rightarrow> Rights \<Rightarrow> Rights" where
  "Rights_union self other = Rights (Rights_bits self OR Rights_bits other)"

definition Rights_without :: "Rights \<Rightarrow> Rights \<Rightarrow> Rights" where
  "Rights_without self removed = Rights (Rights_bits self AND NOT (Rights_bits removed))"

definition Rights_is_empty :: "Rights \<Rightarrow> bool" where
  "Rights_is_empty self = (Rights_bits self = 0)"

definition Rights_count :: "Rights \<Rightarrow> nat" where
  "Rights_count self = length (filter (bit (Rights_bits self)) [0..<32])"

definition Rights_can_delegate :: "Rights \<Rightarrow> bool" where
  "Rights_can_delegate self = (Rights_bits self AND Rights_bits Rights_DELEGATE \<noteq> 0)"

definition Rights_can_revoke :: "Rights \<Rightarrow> bool" where
  "Rights_can_revoke self = (Rights_bits self AND Rights_bits Rights_REVOKE \<noteq> 0)"

definition Rights_bitor :: "Rights \<Rightarrow> Rights \<Rightarrow> Rights" where
  "Rights_bitor self rhs = Rights (Rights_bits self OR Rights_bits rhs)"

definition Rights_bitand :: "Rights \<Rightarrow> Rights \<Rightarrow> Rights" where
  "Rights_bitand self rhs = Rights (Rights_bits self AND Rights_bits rhs)"

definition Rights_not :: "Rights \<Rightarrow> Rights" where
  "Rights_not self = Rights (NOT (Rights_bits self))"

definition Rights_sub :: "Rights \<Rightarrow> Rights \<Rightarrow> Rights" where
  "Rights_sub self rhs = Rights (Rights_bits self AND NOT (Rights_bits rhs))"

lemmas Rights_const_defs =
  Rights_NONE_def Rights_READ_def Rights_WRITE_def Rights_EXEC_def Rights_GRANT_def
  Rights_REVOKE_def Rights_DELEGATE_def Rights_IPC_CONNECT_def Rights_IPC_SEND_def
  Rights_IPC_RECV_def Rights_IPC_MANAGE_def Rights_MEM_MAP_def Rights_MEM_PROTECT_def
  Rights_MEM_UNMAP_def Rights_DEV_MMIO_def Rights_DEV_DMA_def Rights_DEV_IRQ_def
  Rights_READ_WRITE_def Rights_IPC_BASIC_def Rights_ALL_def

section \<open>The rights lattice\<close>

lemma Rights_contains_iff [bitset_simps]:
  "Rights_contains r q \<longleftrightarrow> word_subset (Rights_bits q) (Rights_bits r)"
  by (simp add: Rights_contains_def and_eq_right_iff_subset)

lemma Rights_is_subset_of_iff [bitset_simps]:
  "Rights_is_subset_of r p \<longleftrightarrow> word_subset (Rights_bits r) (Rights_bits p)"
  by (simp add: Rights_is_subset_of_def and_not_zero_iff_subset)

lemma Rights_contains_refl [simp]: "Rights_contains r r"
  by (simp add: bitset_simps)

lemma Rights_contains_trans:
  "Rights_contains a b \<Longrightarrow> Rights_contains b c \<Longrightarrow> Rights_contains a c"
  by (auto simp: bitset_simps)

lemma Rights_subset_contains: "Rights_is_subset_of q r \<longleftrightarrow> Rights_contains r q"
  by (simp add: Rights_is_subset_of_iff Rights_contains_iff)

lemma Rights_subset_trans:
  "Rights_is_subset_of a b \<Longrightarrow> Rights_is_subset_of b c \<Longrightarrow> Rights_is_subset_of a c"
  by (auto simp: bitset_simps)

lemma Rights_subset_refl [simp]: "Rights_is_subset_of r r"
  by (simp add: bitset_simps)

lemma Rights_contains_NONE [simp]: "Rights_contains r Rights_NONE"
  by (simp add: Rights_contains_iff Rights_NONE_def)

lemma Rights_contains_subset:
  "Rights_contains small q \<Longrightarrow> Rights_is_subset_of small big \<Longrightarrow> Rights_contains big q"
  by (auto simp: bitset_simps)

lemma Rights_without_subset [simp]: "Rights_is_subset_of (Rights_without r s) r"
  by (auto simp: Rights_without_def Rights_is_subset_of_iff)

lemma Rights_without_disjoint:
  "Rights_intersect (Rights_without r s) s = Rights_NONE"
  by (auto simp: Rights_without_def Rights_intersect_def Rights_NONE_def bit_eq_iff bit_simps)

lemma Rights_can_delegate_contains:
  "Rights_can_delegate r \<longleftrightarrow> Rights_contains r Rights_DELEGATE"
  using word_subset_push_bit_one [of 5 "Rights_bits r"]
  by (simp add: Rights_can_delegate_def Rights_contains_iff Rights_DELEGATE_def
      bit_iff_and_push_bit_not_eq_0 del: push_bit_of_1)

lemma Rights_intersect_NONE_iff:
  "Rights_intersect a b = Rights_NONE \<longleftrightarrow> (\<forall>n. \<not> (bit (Rights_bits a) n \<and> bit (Rights_bits b) n))"
  by (simp add: Rights_intersect_def Rights_NONE_def word_eq_0_iff_bits bit_and_iff)

lemma Rights_contains_without_iff:
  "Rights_contains (Rights_without r s) q \<longleftrightarrow> Rights_contains r q \<and> Rights_intersect q s = Rights_NONE"
  unfolding Rights_contains_iff word_subset_iff_bits Rights_intersect_NONE_iff
  by (auto simp: Rights_without_def bit_simps dest: bit_imp_le_length)

end
