(* ===== verification/Cap_Token.thy ===== *)
theory Cap_Token
  imports Cap_Rights
begin

text \<open>
  Capability tokens (\<open>kernel/src/security/capability/token.rs\<close>): the object identifier,
  the object types, the token itself with its 20-byte wire format, and the global issue and
  verification counters.  The private \<open>_pad\<close> field of the token is always 0 and is not
  represented.
\<close>

section \<open>Definitions\<close>

datatype ObjectId = ObjectId (oid_raw: u64)

definition ObjectId_INVALID :: ObjectId where "ObjectId_INVALID = ObjectId u64_MAX"

definition ObjectId_is_valid :: "ObjectId \<Rightarrow> bool" where
  "ObjectId_is_valid self = (oid_raw self \<noteq> u64_MAX)"

datatype CapObjectType = Invalid | IpcEndpoint | MemoryRegion | FileInode | Device | Thread
  | Process | Namespace | DmaChannel | IommuDomain | CryptoKey | Capability

primrec CapObjectType_as_u16 :: "CapObjectType \<Rightarrow> u16" where
  "CapObjectType_as_u16 Invalid = 0"
| "CapObjectType_as_u16 IpcEndpoint = 1"
| "CapObjectType_as_u16 MemoryRegion = 2"
| "CapObjectType_as_u16 FileInode = 3"
| "CapObjectType_as_u16 Device = 4"
| "CapObjectType_as_u16 Thread = 5"
| "CapObjectType_as_u16 Process = 6"
| "CapObjectType_as_u16 Namespace = 7"
| "CapObjectType_as_u16 DmaChannel = 8"
| "CapObjectType_as_u16 IommuDomain = 9"
| "CapObjectType_as_u16 CryptoKey = 10"
| "CapObjectType_as_u16 Capability = 11"

definition CapObjectType_from_u16 :: "u16 \<Rightarrow> CapObjectType" where
  "CapObjectType_from_u16 v =
    (if v = 1 then IpcEndpoint
     else if v = 2 then MemoryRegion
     else if v = 3 then FileInode
     else if v = 4 then Device
     else if v = 5 then Thread
     else if v = 6 then Process
     else if v = 7 then Namespace
     else if v = 8 then DmaChannel
     else if v = 9 then IommuDomain
     else if v = 10 then CryptoKey
     else if v = 11 then Capability
     else Invalid)"

record CapToken =
  tok_object_id :: ObjectId
  tok_rights :: Rights
  tok_generation :: u32
  tok_type_tag :: CapObjectType

record TokenStats =
  tokens_issued :: u64
  tokens_verified :: u64
  tokens_denied :: u64

definition TokenStats_zero :: TokenStats where
  "TokenStats_zero = \<lparr>tokens_issued = 0, tokens_verified = 0, tokens_denied = 0\<rparr>"

definition CapToken_INVALID :: CapToken where
  "CapToken_INVALID = \<lparr>tok_object_id = ObjectId_INVALID, tok_rights = Rights_NONE,
     tok_generation = u32_MAX, tok_type_tag = Invalid\<rparr>"

definition CapToken_new ::
  "TokenStats \<Rightarrow> ObjectId \<Rightarrow> Rights \<Rightarrow> u32 \<Rightarrow> CapObjectType \<Rightarrow> CapToken \<times> TokenStats" where
  "CapToken_new ts oid rights gen type_tag =
     (\<lparr>tok_object_id = oid, tok_rights = rights, tok_generation = gen, tok_type_tag = type_tag\<rparr>,
      ts\<lparr>tokens_issued := tokens_issued ts + 1\<rparr>)"

definition CapToken_has_rights :: "CapToken \<Rightarrow> Rights \<Rightarrow> bool" where
  "CapToken_has_rights self required = Rights_contains (tok_rights self) required"

definition CapToken_is_invalid :: "CapToken \<Rightarrow> bool" where
  "CapToken_is_invalid self = (tok_object_id self = ObjectId_INVALID)"

definition CapToken_to_bytes :: "CapToken \<Rightarrow> u8 list" where
  "CapToken_to_bytes self =
     to_le_bytes 8 (oid_raw (tok_object_id self))
     @ to_le_bytes 4 (Rights_bits (tok_rights self))
     @ to_le_bytes 4 (tok_generation self)
     @ to_le_bytes 2 (CapObjectType_as_u16 (tok_type_tag self))
     @ [0, 0]"

definition CapToken_from_bytes :: "u8 list \<Rightarrow> CapToken option" where
  "CapToken_from_bytes b =
    (let oid = from_le_bytes (take 8 b);
         r = from_le_bytes (take 4 (drop 8 b));
         gen = from_le_bytes (take 4 (drop 12 b));
         tt = from_le_bytes (take 2 (drop 16 b));
         obj_type = CapObjectType_from_u16 tt
     in if obj_type = Invalid then None
        else Some \<lparr>tok_object_id = ObjectId oid, tok_rights = Rights_from_bits_truncate r,
                   tok_generation = gen, tok_type_tag = obj_type\<rparr>)"

definition stat_verified :: "TokenStats \<Rightarrow> TokenStats" where
  "stat_verified ts = ts\<lparr>tokens_verified := tokens_verified ts + 1\<rparr>"

definition stat_denied :: "TokenStats \<Rightarrow> TokenStats" where
  "stat_denied ts = ts\<lparr>tokens_denied := tokens_denied ts + 1\<rparr>"

section \<open>Object types and the wire format\<close>

lemma from_u16_as_u16 [simp]: "CapObjectType_from_u16 (CapObjectType_as_u16 t) = t"
  by (cases t) (simp_all add: CapObjectType_from_u16_def)

lemma as_u16_inject [simp]: "CapObjectType_as_u16 a = CapObjectType_as_u16 b \<longleftrightarrow> a = b"
  by (metis from_u16_as_u16)

lemma as_u16_via_u32 [simp]:
  "ucast (ucast (CapObjectType_as_u16 t) :: u32) = CapObjectType_as_u16 t"
  by (simp add: ucast_down_ucast_id is_down)

lemma as_u32_inject [simp]:
  "(ucast (CapObjectType_as_u16 a) :: u32) = ucast (CapObjectType_as_u16 b) \<longleftrightarrow> a = b"
  by (metis as_u16_via_u32 as_u16_inject)

lemma length_to_bytes [simp]: "length (CapToken_to_bytes t) = 20"
  by (simp add: CapToken_to_bytes_def)

lemma as_u16_from_u16:
  "CapObjectType_from_u16 v \<noteq> Invalid \<Longrightarrow> CapObjectType_as_u16 (CapObjectType_from_u16 v) = v"
  by (simp add: CapObjectType_from_u16_def split: if_splits)

lemma slice_le_bytes:
  "length b = 20 \<Longrightarrow> i + n \<le> 20 \<Longrightarrow> 8 * n \<le> LENGTH('a) \<Longrightarrow>
     to_le_bytes n (from_le_bytes (take n (drop i b)) :: 'a::len word) = take n (drop i b)"
  using to_from_le_bytes [of "take n (drop i b)", where 'a = 'a] by simp

lemma split_20:
  assumes "length b = 20"
  shows "take 8 b @ take 4 (drop 8 b) @ take 4 (drop 12 b) @ take 2 (drop 16 b) = take 18 b"
  by (simp add: take_add [of 16 2, simplified] take_add [of 12 4, simplified] take_add [of 8 4, simplified])

section \<open>Properties\<close>

text \<open>
  C33: the wire format of a token is faithful.  Encoding gives 20 bytes that decode to the same
  token, except that a token of type \<open>Invalid\<close> is refused; and any 20 bytes that decode are,
  up to the two padding bytes, the encoding of the token they decode to.
\<close>

theorem token_wire_round_trip:
  assumes "length b = 20"
  shows "length (CapToken_to_bytes t) = 20 \<and>
    CapToken_from_bytes (CapToken_to_bytes t) = (if tok_type_tag t = Invalid then None else Some t) \<and>
    (CapToken_from_bytes b = Some t' \<longrightarrow> CapToken_to_bytes t' = take 18 b @ [0, 0])"
proof (intro conjI impI)
  show "length (CapToken_to_bytes t) = 20" by simp
  show "CapToken_from_bytes (CapToken_to_bytes t) = (if tok_type_tag t = Invalid then None else Some t)"
    by (simp add: CapToken_from_bytes_def CapToken_to_bytes_def Let_def Rights_from_bits_truncate_def)
  assume "CapToken_from_bytes b = Some t'"
  then have "CapToken_to_bytes t' =
      take 8 b @ take 4 (drop 8 b) @ take 4 (drop 12 b) @ take 2 (drop 16 b) @ [0, 0]"
    using assms slice_le_bytes [OF assms, of 0 8, where 'a = 64]
    by (auto simp: CapToken_from_bytes_def CapToken_to_bytes_def Let_def Rights_from_bits_truncate_def
        as_u16_from_u16 slice_le_bytes split: if_splits)
  then show "CapToken_to_bytes t' = take 18 b @ [0, 0]" using split_20 [OF assms] by simp
qed

theorem token_wire_round_trip_witness:
  "\<exists>t'. CapToken_from_bytes (replicate 16 1 @ [1, 0, 5, 6]) = Some t' \<and>
     CapToken_to_bytes t' = replicate 16 1 @ [1, 0, 0, 0]"
proof -
  have l: "length (replicate 16 1 @ [1, 0, 5, 6] :: u8 list) = 20" by simp
  obtain t' where t': "CapToken_from_bytes (replicate 16 1 @ [1, 0, 5, 6]) = Some t'"
    by (simp add: CapToken_from_bytes_def Let_def CapObjectType_from_u16_def)
  then have "CapToken_to_bytes t' = take 18 (replicate 16 1 @ [1, 0, 5, 6]) @ [0, 0]"
    using token_wire_round_trip [OF l, of t' t'] by simp
  then show ?thesis using t' by simp
qed

end
