(* ===== verification/Cap_Table.thy ===== *)
theory Cap_Table
  imports Cap_Token
begin

text \<open>
  The per-process capability table (\<open>kernel/src/security/capability/table.rs\<close>): 512 entries
  found by open addressing with linear probing.  The entry array is a function of the slot
  index; every index the code uses is masked to \<open>0..511\<close>.  Operations that issue a token
  also thread the global token counters of \<open>token.rs\<close>.

  The table implements a partial map from object identifiers to (rights, generation, type).
  The locale \<open>cap_store\<close> states that contract; its interpretation on the model's own
  operations discharges it under the probe invariant \<open>CapTable_wf\<close>.
\<close>

section \<open>Definitions\<close>

datatype CapError = ObjectNotFound | Revoked | InsufficientRights | InvalidToken | TableFull
  | DelegationDenied | InternalError | Denied

definition CAP_TABLE_CAPACITY :: nat where [simp]: "CAP_TABLE_CAPACITY = 512"

definition SLOT_FREE :: u64 where "SLOT_FREE = u64_MAX"

record CapEntry =
  ce_object_id :: u64
  ce_rights :: u32
  ce_generation :: u32
  ce_type_tag :: u32

definition CapEntry_new_free :: CapEntry where
  "CapEntry_new_free = \<lparr>ce_object_id = SLOT_FREE, ce_rights = 0, ce_generation = 0, ce_type_tag = 0\<rparr>"

definition CapEntry_is_free :: "CapEntry \<Rightarrow> bool" where
  "CapEntry_is_free self = (ce_object_id self = SLOT_FREE)"

record CapTableStats =
  st_grants :: u64
  st_revocations :: u64
  st_lookups :: u64
  st_misses :: u64

record CapTable =
  ct_entries :: "nat \<Rightarrow> CapEntry"
  ct_count :: u32
  ct_stats :: CapTableStats

record CapTableSnapshot =
  snap_grants :: u64
  snap_revocations :: u64
  snap_lookups :: u64
  snap_misses :: u64
  snap_count :: u32

record CapEntryView =
  ev_rights :: Rights
  ev_generation :: u32
  ev_type_tag :: CapObjectType

definition CapTable_new :: CapTable where
  "CapTable_new = \<lparr>ct_entries = (\<lambda>i. CapEntry_new_free), ct_count = 0,
     ct_stats = \<lparr>st_grants = 0, st_revocations = 0, st_lookups = 0, st_misses = 0\<rparr>\<rparr>"

definition CapTable_inherit_from :: "CapTable \<Rightarrow> CapTable" where
  "CapTable_inherit_from parent =
    (let child = CapTable_new in
     child\<lparr>ct_entries := (\<lambda>i. if i < CAP_TABLE_CAPACITY
                              \<and> ce_object_id (ct_entries parent i) \<noteq> u64_MAX
                            then \<lparr>ce_object_id = ce_object_id (ct_entries parent i),
                                  ce_rights = ce_rights (ct_entries parent i),
                                  ce_generation = ce_generation (ct_entries parent i),
                                  ce_type_tag = ce_type_tag (ct_entries parent i)\<rparr>
                            else ct_entries child i),
           ct_count := of_nat (length (filter
              (\<lambda>i. ce_object_id (ct_entries parent i) \<noteq> u64_MAX) [0..<CAP_TABLE_CAPACITY]))\<rparr>)"

definition CapTable_inherit_from_masked ::
  "CapTable \<Rightarrow> Rights \<Rightarrow> CapObjectType \<Rightarrow> CapTable" where
  "CapTable_inherit_from_masked parent strip_rights strip_type =
    (let child = CapTable_new;
         strip = Rights_bits strip_rights;
         strip_tt = (ucast (CapObjectType_as_u16 strip_type) :: u32) in
     child\<lparr>ct_entries := (\<lambda>i. if i < CAP_TABLE_CAPACITY
                              \<and> ce_object_id (ct_entries parent i) \<noteq> u64_MAX
                            then let tt = ce_type_tag (ct_entries parent i);
                                     r = ce_rights (ct_entries parent i);
                                     r' = (if tt = strip_tt then r AND NOT strip else r)
                                 in \<lparr>ce_object_id = ce_object_id (ct_entries parent i),
                                     ce_rights = r',
                                     ce_generation = ce_generation (ct_entries parent i),
                                     ce_type_tag = tt\<rparr>
                            else ct_entries child i),
           ct_count := of_nat (length (filter
              (\<lambda>i. ce_object_id (ct_entries parent i) \<noteq> u64_MAX) [0..<CAP_TABLE_CAPACITY]))\<rparr>)"

definition hash_index :: "ObjectId \<Rightarrow> nat" where
  "hash_index oid =
    (let h = oid_raw oid * 0x9e3779b97f4a7c15;
         h = h XOR drop_bit 30 h
     in unat (h AND of_nat (CAP_TABLE_CAPACITY - 1)))"

definition probe_index :: "nat \<Rightarrow> nat \<Rightarrow> nat" where
  "probe_index start probe = (start + probe) AND (CAP_TABLE_CAPACITY - 1)"

function find_slot_loop :: "(nat \<Rightarrow> CapEntry) \<Rightarrow> u64 \<Rightarrow> nat \<Rightarrow> nat \<Rightarrow> nat option" where
  "find_slot_loop es oid start probe =
    (if probe < CAP_TABLE_CAPACITY then
       let idx = probe_index start probe; stored = ce_object_id (es idx) in
       if stored = oid then Some idx
       else if stored = SLOT_FREE then None
       else find_slot_loop es oid start (probe + 1)
     else None)"
  by pat_completeness auto
termination by (relation "measure (\<lambda>(es, oid, start, probe). CAP_TABLE_CAPACITY - probe)") auto

definition find_slot :: "CapTable \<Rightarrow> ObjectId \<Rightarrow> nat option" where
  "find_slot self oid = find_slot_loop (ct_entries self) (oid_raw oid) (hash_index oid) 0"

function find_free_slot_loop :: "(nat \<Rightarrow> CapEntry) \<Rightarrow> u64 \<Rightarrow> nat \<Rightarrow> nat \<Rightarrow> nat option" where
  "find_free_slot_loop es oid start probe =
    (if probe < CAP_TABLE_CAPACITY then
       let idx = probe_index start probe in
       if CapEntry_is_free (es idx) then Some idx
       else if ce_object_id (es idx) = oid then Some idx
       else find_free_slot_loop es oid start (probe + 1)
     else None)"
  by pat_completeness auto
termination by (relation "measure (\<lambda>(es, oid, start, probe). CAP_TABLE_CAPACITY - probe)") auto

definition find_free_slot :: "CapTable \<Rightarrow> ObjectId \<Rightarrow> nat option" where
  "find_free_slot self oid =
     find_free_slot_loop (ct_entries self) (oid_raw oid) (hash_index oid) 0"

declare find_slot_loop.simps [simp del] find_free_slot_loop.simps [simp del]

abbreviation ct_set_entry :: "CapTable \<Rightarrow> nat \<Rightarrow> CapEntry \<Rightarrow> CapTable" where
  "ct_set_entry t i e \<equiv> t\<lparr>ct_entries := (ct_entries t)(i := e)\<rparr>"

abbreviation ct_upd_stats :: "(CapTableStats \<Rightarrow> CapTableStats) \<Rightarrow> CapTable \<Rightarrow> CapTable" where
  "ct_upd_stats f t \<equiv> t\<lparr>ct_stats := f (ct_stats t)\<rparr>"

definition CapTable_grant ::
  "TokenStats \<Rightarrow> CapTable \<Rightarrow> ObjectId \<Rightarrow> Rights \<Rightarrow> CapObjectType
   \<Rightarrow> (CapError, CapToken) result \<times> TokenStats \<times> CapTable" where
  "CapTable_grant ts self oid rights type_tag =
    (case find_free_slot self oid of
       None \<Rightarrow> (Err TableFull, ts, self)
     | Some idx \<Rightarrow>
         let entry = ct_entries self idx;
             (gen, t) =
               (if CapEntry_is_free entry
                then (0, (ct_set_entry self idx
                           \<lparr>ce_object_id = oid_raw oid, ce_rights = Rights_bits rights,
                            ce_generation = 0,
                            ce_type_tag = ucast (CapObjectType_as_u16 type_tag)\<rparr>)
                         \<lparr>ct_count := ct_count self + 1\<rparr>)
                else (ce_generation entry,
                      ct_set_entry self idx
                        (entry\<lparr>ce_rights := Rights_bits rights,
                               ce_type_tag := ucast (CapObjectType_as_u16 type_tag)\<rparr>)));
             t = ct_upd_stats (\<lambda>s. s\<lparr>st_grants := st_grants s + 1\<rparr>) t;
             (token, ts) = CapToken_new ts oid rights gen type_tag
         in (Ok token, ts, t))"

definition CapTable_revoke :: "CapTable \<Rightarrow> ObjectId \<Rightarrow> (CapError, unit) result \<times> CapTable" where
  "CapTable_revoke self oid =
    (case find_slot self oid of
       Some idx \<Rightarrow>
         let e = ct_entries self idx;
             t = ct_set_entry self idx (e\<lparr>ce_generation := ce_generation e + 1\<rparr>)
         in (Ok (), ct_upd_stats (\<lambda>s. s\<lparr>st_revocations := st_revocations s + 1\<rparr>) t)
     | None \<Rightarrow> (Err ObjectNotFound, self))"

definition CapTable_remove :: "CapTable \<Rightarrow> ObjectId \<Rightarrow> (CapError, unit) result \<times> CapTable" where
  "CapTable_remove self oid =
    (case find_slot self oid of
       Some idx \<Rightarrow>
         let e = ct_entries self idx
         in (Ok (), (ct_set_entry self idx
                      (e\<lparr>ce_generation := ce_generation e + 1, ce_object_id := SLOT_FREE,
                         ce_rights := 0\<rparr>))\<lparr>ct_count := ct_count self - 1\<rparr>)
     | None \<Rightarrow> (Err ObjectNotFound, self))"

definition CapTable_increment_generation :: "CapTable \<Rightarrow> ObjectId \<Rightarrow> CapTable" where
  "CapTable_increment_generation self oid =
    (case find_slot self oid of
       Some idx \<Rightarrow>
         let e = ct_entries self idx
         in ct_set_entry self idx (e\<lparr>ce_generation := ce_generation e + 1\<rparr>)
     | None \<Rightarrow> self)"

definition CapTable_get :: "CapTable \<Rightarrow> ObjectId \<Rightarrow> CapEntryView option \<times> CapTable" where
  "CapTable_get self oid =
    (let t = ct_upd_stats (\<lambda>s. s\<lparr>st_lookups := st_lookups s + 1\<rparr>) self in
     case find_slot t oid of
       Some idx \<Rightarrow>
         let entry = ct_entries t idx
         in (Some \<lparr>ev_rights = Rights_from_bits_truncate (ce_rights entry),
                   ev_generation = ce_generation entry,
                   ev_type_tag = CapObjectType_from_u16 (ucast (ce_type_tag entry))\<rparr>, t)
     | None \<Rightarrow> (None, ct_upd_stats (\<lambda>s. s\<lparr>st_misses := st_misses s + 1\<rparr>) t))"

definition CapTable_contains :: "CapTable \<Rightarrow> ObjectId \<Rightarrow> bool" where
  "CapTable_contains self oid = (find_slot self oid \<noteq> None)"

definition CapTable_check_object ::
  "CapTable \<Rightarrow> ObjectId \<Rightarrow> Rights \<Rightarrow> CapObjectType \<Rightarrow> bool \<times> CapTable" where
  "CapTable_check_object self oid required ty =
    (let (v, t) = CapTable_get self oid in
     (case v of Some v \<Rightarrow> ev_type_tag v = ty \<and> Rights_contains (ev_rights v) required
      | None \<Rightarrow> False, t))"

definition CapTable_stats :: "CapTable \<Rightarrow> CapTableSnapshot" where
  "CapTable_stats self =
     \<lparr>snap_grants = st_grants (ct_stats self), snap_revocations = st_revocations (ct_stats self),
      snap_lookups = st_lookups (ct_stats self), snap_misses = st_misses (ct_stats self),
      snap_count = ct_count self\<rparr>"

definition CapTable_len :: "CapTable \<Rightarrow> nat" where
  "CapTable_len self = unat (ct_count self)"

definition CapTable_is_empty :: "CapTable \<Rightarrow> bool" where
  "CapTable_is_empty self = (CapTable_len self = 0)"

section \<open>Linear probing\<close>

lemma probe_index_mod: "probe_index s p = (s + p) mod 512"
  using nat_and_mask_mod [of "s + p" 9] by (simp add: probe_index_def)

lemma probe_index_less [simp]: "probe_index s p < 512"
  by (simp add: probe_index_mod)

lemma hash_index_less: "hash_index oid < 512"
proof -
  have "unat (w AND 511) < 512" for w :: u64
  proof -
    have "w AND 511 \<le> 511" by (rule word_and_le1)
    then have "unat (w AND 511) \<le> unat (511 :: u64)" by (simp only: word_le_nat_alt)
    then show ?thesis by simp
  qed
  then show ?thesis by (simp add: hash_index_def Let_def)
qed

lemma probe_index_inj:
  assumes "p < 512" "q < 512" "probe_index s p = probe_index s q"
  shows "p = q"
  using assms unfolding probe_index_mod by (rule mod_add_inj_nat)

lemma probe_index_surj:
  assumes "i < 512"
  obtains p where "p < 512" "probe_index s p = i"
proof
  let ?p = "(i + 512 - s mod 512) mod 512"
  show "?p < 512" by simp
  show "probe_index s ?p = i" using assms unfolding probe_index_mod by (rule mod_add_surj_nat)
qed

text \<open>
  Both searches stop at the same probe: the first slot that is free or holds the identifier.
\<close>

definition probe_hit :: "(nat \<Rightarrow> CapEntry) \<Rightarrow> u64 \<Rightarrow> nat \<Rightarrow> nat \<Rightarrow> bool" where
  "probe_hit es oid s p \<longleftrightarrow>
     ce_object_id (es (probe_index s p)) = oid \<or> ce_object_id (es (probe_index s p)) = SLOT_FREE"

lemma find_slot_loop_find:
  "find_slot_loop es oid s p =
    (case find (probe_hit es oid s) [p..<512] of
       None \<Rightarrow> None
     | Some q \<Rightarrow> if ce_object_id (es (probe_index s q)) = oid then Some (probe_index s q) else None)"
proof (induction es oid s p rule: find_slot_loop.induct)
  case (1 es oid s p)
  show ?case
  proof (cases "p < 512")
    case True
    then show ?thesis using 1
      by (subst find_slot_loop.simps) (auto simp: upt_rec [of p] probe_hit_def [of es oid s p] Let_def)
  next
    case False
    then show ?thesis by (subst find_slot_loop.simps) simp
  qed
qed

lemma find_free_slot_loop_find:
  "find_free_slot_loop es oid s p =
     map_option (probe_index s) (find (probe_hit es oid s) [p..<512])"
proof (induction es oid s p rule: find_free_slot_loop.induct)
  case (1 es oid s p)
  show ?case
  proof (cases "p < 512")
    case True
    then show ?thesis using 1
      by (subst find_free_slot_loop.simps)
        (auto simp: upt_rec [of p] probe_hit_def [of es oid s p] Let_def CapEntry_is_free_def)
  next
    case False
    then show ?thesis by (subst find_free_slot_loop.simps) simp
  qed
qed

lemma find_slot_Some_iff:
  "find_slot t oid = Some i \<longleftrightarrow>
    (\<exists>q<512. probe_index (hash_index oid) q = i \<and> ce_object_id (ct_entries t i) = oid_raw oid \<and>
       (\<forall>r<q. \<not> probe_hit (ct_entries t) (oid_raw oid) (hash_index oid) r))"
  (is "?L \<longleftrightarrow> ?R")
proof
  assume ?L
  then show ?R
    by (auto simp: find_slot_def find_slot_loop_find find_upt_Some_iff split: option.splits if_splits)
next
  assume ?R
  then obtain q where q: "q < 512" "probe_index (hash_index oid) q = i"
    "ce_object_id (ct_entries t i) = oid_raw oid"
    "\<forall>r<q. \<not> probe_hit (ct_entries t) (oid_raw oid) (hash_index oid) r" by blast
  then have "find (probe_hit (ct_entries t) (oid_raw oid) (hash_index oid)) [0..<512] = Some q"
    by (auto simp: find_upt_Some_iff probe_hit_def)
  then show ?L using q by (simp add: find_slot_def find_slot_loop_find)
qed

lemma find_free_slot_Some_iff:
  "find_free_slot t oid = Some i \<longleftrightarrow>
    (\<exists>q<512. probe_index (hash_index oid) q = i \<and>
       probe_hit (ct_entries t) (oid_raw oid) (hash_index oid) q \<and>
       (\<forall>r<q. \<not> probe_hit (ct_entries t) (oid_raw oid) (hash_index oid) r))"
  by (auto simp: find_free_slot_def find_free_slot_loop_find find_upt_Some_iff)

lemma find_free_slot_None_iff:
  "find_free_slot t oid = None \<longleftrightarrow>
    (\<forall>i<512. ce_object_id (ct_entries t i) \<noteq> SLOT_FREE \<and> ce_object_id (ct_entries t i) \<noteq> oid_raw oid)"
  (is "?L \<longleftrightarrow> ?R")
proof
  assume ?L
  then have h: "\<not> probe_hit (ct_entries t) (oid_raw oid) (hash_index oid) r" if "r < 512" for r
    using that by (auto simp: find_free_slot_def find_free_slot_loop_find find_upt_None_iff)
  show ?R
  proof (intro allI impI)
    fix i :: nat assume "i < 512"
    then obtain p where "p < 512" "probe_index (hash_index oid) p = i" by (rule probe_index_surj)
    with h [of p] show "ce_object_id (ct_entries t i) \<noteq> SLOT_FREE
        \<and> ce_object_id (ct_entries t i) \<noteq> oid_raw oid"
      by (auto simp: probe_hit_def)
  qed
next
  assume ?R
  then show ?L by (auto simp: find_free_slot_def find_free_slot_loop_find find_upt_None_iff probe_hit_def)
qed

lemma find_slot_less: "find_slot t oid = Some i \<Longrightarrow> i < 512"
  by (auto simp: find_slot_Some_iff)

lemma find_free_slot_less: "find_free_slot t oid = Some i \<Longrightarrow> i < 512"
  by (auto simp: find_free_slot_Some_iff)

lemma find_slot_stored: "find_slot t oid = Some i \<Longrightarrow> ce_object_id (ct_entries t i) = oid_raw oid"
  by (auto simp: find_slot_Some_iff)

lemma find_slot_cong:
  assumes "\<And>i. i < 512 \<Longrightarrow> ce_object_id (ct_entries t i) = ce_object_id (ct_entries t' i)"
  shows "find_slot t oid = find_slot t' oid"
proof -
  have h: "probe_hit (ct_entries t) = probe_hit (ct_entries t')"
    by (intro ext) (simp add: probe_hit_def assms)
  show ?thesis using assms
    by (auto simp: find_slot_def find_slot_loop_find h split: option.splits)
qed

section \<open>The table as a partial map\<close>

type_synonym cap_map = "ObjectId \<Rightarrow> CapEntryView option"
type_synonym cap_state = "TokenStats \<times> CapTable"

text \<open>
  The abstract contract: a grant binds the identifier to the given rights and type and keeps
  the generation of an existing binding (0 for a new one); a revocation increments it.
\<close>

definition spec_generation :: "cap_map \<Rightarrow> ObjectId \<Rightarrow> u32" where
  "spec_generation m oid = (case m oid of None \<Rightarrow> 0 | Some v \<Rightarrow> ev_generation v)"

definition spec_grant :: "cap_map \<Rightarrow> ObjectId \<Rightarrow> Rights \<Rightarrow> CapObjectType \<Rightarrow> cap_map" where
  "spec_grant m oid r ty =
     m(oid \<mapsto> \<lparr>ev_rights = r, ev_generation = spec_generation m oid, ev_type_tag = ty\<rparr>)"

definition spec_revoke :: "cap_map \<Rightarrow> ObjectId \<Rightarrow> cap_map" where
  "spec_revoke m oid =
     (case m oid of None \<Rightarrow> m | Some v \<Rightarrow> m(oid \<mapsto> v\<lparr>ev_generation := ev_generation v + 1\<rparr>))"

definition entry_view :: "CapEntry \<Rightarrow> CapEntryView" where
  "entry_view e = \<lparr>ev_rights = Rights (ce_rights e), ev_generation = ce_generation e,
     ev_type_tag = CapObjectType_from_u16 (ucast (ce_type_tag e))\<rparr>"

definition CapTable_abs :: "CapTable \<Rightarrow> cap_map" where
  "CapTable_abs t oid = (if ObjectId_is_valid oid then fst (CapTable_get t oid) else None)"

definition entry_tag_ok :: "CapEntry \<Rightarrow> bool" where
  "entry_tag_ok e = (ce_type_tag e = ucast (CapObjectType_as_u16
     (CapObjectType_from_u16 (ucast (ce_type_tag e)))))"

definition used_slots :: "CapTable \<Rightarrow> nat set" where
  "used_slots t = {i \<in> {..<512}. ce_object_id (ct_entries t i) \<noteq> SLOT_FREE}"

text \<open>
  Probe invariant: the entry stored in a slot is the one a search for its identifier finds
  (so no identifier occurs twice and no probe chain is interrupted), stored type tags are
  valid, and \<open>count\<close> is the number of used slots.
\<close>

definition CapTable_wf :: "CapTable \<Rightarrow> bool" where
  "CapTable_wf t \<longleftrightarrow>
     (\<forall>i<512. ce_object_id (ct_entries t i) \<noteq> SLOT_FREE \<longrightarrow>
        find_slot t (ObjectId (ce_object_id (ct_entries t i))) = Some i) \<and>
     (\<forall>i<512. entry_tag_ok (ct_entries t i)) \<and>
     ct_count t = of_nat (card (used_slots t))"

definition cap_grant :: "cap_state \<Rightarrow> ObjectId \<Rightarrow> Rights \<Rightarrow> CapObjectType
    \<Rightarrow> (CapError, CapToken) result \<times> cap_state" where
  "cap_grant st oid r ty = CapTable_grant (fst st) (snd st) oid r ty"

definition cap_revoke :: "cap_state \<Rightarrow> ObjectId \<Rightarrow> (CapError, unit) result \<times> cap_state" where
  "cap_revoke st oid = (let (r, t) = CapTable_revoke (snd st) oid in (r, fst st, t))"

text \<open>Sequences of operations on one table.\<close>

datatype cap_op = OpGrant (op_oid: ObjectId) Rights CapObjectType | OpRevoke (op_oid: ObjectId)

primrec cap_step ::
  "('s \<Rightarrow> ObjectId \<Rightarrow> Rights \<Rightarrow> CapObjectType \<Rightarrow> (CapError, CapToken) result \<times> 's)
   \<Rightarrow> ('s \<Rightarrow> ObjectId \<Rightarrow> (CapError, unit) result \<times> 's) \<Rightarrow> 's \<Rightarrow> cap_op \<Rightarrow> 's" where
  "cap_step gr rv s (OpGrant oid r ty) = snd (gr s oid r ty)"
| "cap_step gr rv s (OpRevoke oid) = snd (rv s oid)"

definition access_spec :: "cap_map \<Rightarrow> CapToken \<Rightarrow> Rights \<Rightarrow> bool" where
  "access_spec m tok required \<longleftrightarrow>
     (\<exists>v. m (tok_object_id tok) = Some v \<and> ev_generation v = tok_generation tok
        \<and> Rights_contains (ev_rights v) required)"

section \<open>The contract and its consequences\<close>

locale cap_store =
  fixes inv :: "'s \<Rightarrow> bool"
    and abs :: "'s \<Rightarrow> cap_map"
    and grant :: "'s \<Rightarrow> ObjectId \<Rightarrow> Rights \<Rightarrow> CapObjectType \<Rightarrow> (CapError, CapToken) result \<times> 's"
    and revoke :: "'s \<Rightarrow> ObjectId \<Rightarrow> (CapError, unit) result \<times> 's"
  assumes grant_inv: "inv s \<Longrightarrow> ObjectId_is_valid oid \<Longrightarrow> inv (snd (grant s oid r ty))"
    and grant_ok: "inv s \<Longrightarrow> ObjectId_is_valid oid \<Longrightarrow> fst (grant s oid r ty) = Ok tok \<Longrightarrow>
      abs (snd (grant s oid r ty)) = spec_grant (abs s) oid r ty \<and>
      tok = \<lparr>tok_object_id = oid, tok_rights = r,
             tok_generation = spec_generation (abs s) oid, tok_type_tag = ty\<rparr>"
    and grant_err: "fst (grant s oid r ty) = Err e \<Longrightarrow>
      e = TableFull \<and> abs (snd (grant s oid r ty)) = abs s"
    and revoke_inv: "inv s \<Longrightarrow> ObjectId_is_valid oid \<Longrightarrow> inv (snd (revoke s oid))"
    and revoke_abs: "inv s \<Longrightarrow> ObjectId_is_valid oid \<Longrightarrow>
      abs (snd (revoke s oid)) = spec_revoke (abs s) oid"
    and revoke_result: "ObjectId_is_valid oid \<Longrightarrow>
      fst (revoke s oid) = (if abs s oid = None then Err ObjectNotFound else Ok ())"
begin

lemma grant_abs:
  assumes "inv s" "ObjectId_is_valid oid"
  shows "abs (snd (grant s oid r ty)) =
    (if is_ok (fst (grant s oid r ty)) then spec_grant (abs s) oid r ty else abs s)"
  using grant_ok [OF assms] grant_err by (cases "fst (grant s oid r ty)") auto

lemma step_inv:
  assumes "inv s" "ObjectId_is_valid (op_oid op)"
  shows "inv (cap_step grant revoke s op)"
  using assms grant_inv revoke_inv by (cases op) auto

lemma step_generation:
  assumes "inv s" "ObjectId_is_valid (op_oid op)" "abs s oid = Some v"
  shows "\<exists>v'. abs (cap_step grant revoke s op) oid = Some v' \<and>
    ev_generation v' = ev_generation v + (if op = OpRevoke oid then 1 else 0)"
proof (cases op)
  case (OpGrant o2 r ty)
  then show ?thesis using assms grant_abs [of s o2 r ty]
    by (auto simp: spec_grant_def spec_generation_def)
next
  case (OpRevoke o2)
  then show ?thesis using assms revoke_abs [of s o2]
    by (auto simp: spec_revoke_def split: option.splits)
qed

lemma run_inv:
  assumes "inv s" "\<forall>op \<in> set ops. ObjectId_is_valid (op_oid op)"
  shows "inv (foldl (cap_step grant revoke) s ops)"
  using assms by (induction ops arbitrary: s) (auto simp: step_inv)

text \<open>The generation of a bound identifier counts its revocations.\<close>

lemma run_generation:
  assumes "inv s" "\<forall>op \<in> set ops. ObjectId_is_valid (op_oid op)" "abs s oid = Some v"
  shows "\<exists>v'. abs (foldl (cap_step grant revoke) s ops) oid = Some v' \<and>
    ev_generation v' = ev_generation v + of_nat (count_list ops (OpRevoke oid))"
  using assms
proof (induction ops arbitrary: s v)
  case Nil
  then show ?case by simp
next
  case (Cons op ops)
  then obtain v1 where v1: "abs (cap_step grant revoke s op) oid = Some v1"
    "ev_generation v1 = ev_generation v + (if op = OpRevoke oid then 1 else 0)"
    using step_generation [of s op oid v] by auto
  have "\<exists>v'. abs (foldl (cap_step grant revoke) (cap_step grant revoke s op) ops) oid = Some v' \<and>
      ev_generation v' = ev_generation v1 + of_nat (count_list ops (OpRevoke oid))"
    using Cons.prems v1 by (intro Cons.IH) (auto simp: step_inv)
  then show ?case using v1 by (auto simp: algebra_simps)
qed

text \<open>Rights and type of a binding come from a grant of the sequence or from the start.\<close>

lemma run_granted:
  assumes "inv s" "\<forall>op \<in> set ops. ObjectId_is_valid (op_oid op)"
    and "abs (foldl (cap_step grant revoke) s ops) oid = Some v"
  shows "(\<exists>v0. abs s oid = Some v0 \<and> ev_rights v0 = ev_rights v \<and> ev_type_tag v0 = ev_type_tag v)
    \<or> OpGrant oid (ev_rights v) (ev_type_tag v) \<in> set ops"
  using assms(2,3)
proof (induction ops arbitrary: v rule: rev_induct)
  case Nil
  then show ?case by simp
next
  case (snoc op ops)
  let ?s = "foldl (cap_step grant revoke) s ops"
  have i: "inv ?s" using snoc.prems assms(1) by (intro run_inv) auto
  show ?case
  proof (cases op)
    case (OpGrant o2 r ty)
    then show ?thesis using snoc grant_abs [OF i, of o2 r ty]
      by (auto simp: spec_grant_def split: if_splits)
  next
    case (OpRevoke o2)
    then obtain v1 where "abs ?s oid = Some v1" "ev_rights v1 = ev_rights v" "ev_type_tag v1 = ev_type_tag v"
      using snoc.prems revoke_abs [OF i, of o2]
      by (auto simp: spec_revoke_def split: option.splits if_splits)
    then show ?thesis using snoc.IH [of v1] snoc.prems by auto
  qed
qed

text \<open>
  A token that carried the current generation when its object was revoked is refused after
  every sequence of operations with fewer than \<open>2^32 - 1\<close> further revocations.
\<close>

lemma revoked_forever:
  assumes "inv s" "ObjectId_is_valid oid" "tok_object_id tok = oid"
    and "abs s oid = Some v" "tok_generation tok = ev_generation v"
    and ops: "\<forall>op \<in> set ops. ObjectId_is_valid (op_oid op)"
    and len: "count_list ops (OpRevoke oid) < 2 ^ 32 - 1"
  shows "\<not> access_spec (abs (foldl (cap_step grant revoke) (snd (revoke s oid)) ops)) tok req"
proof -
  let ?k = "count_list ops (OpRevoke oid)"
  have "abs (snd (revoke s oid)) oid = Some (v\<lparr>ev_generation := ev_generation v + 1\<rparr>)"
    using assms revoke_abs by (simp add: spec_revoke_def)
  then obtain v' where v': "abs (foldl (cap_step grant revoke) (snd (revoke s oid)) ops) oid = Some v'"
    "ev_generation v' = ev_generation v + 1 + of_nat ?k"
    using run_generation [OF revoke_inv [OF assms(1,2)] ops] by fastforce
  have "(of_nat (Suc ?k) :: u32) \<noteq> 0"
  proof
    assume "(of_nat (Suc ?k) :: u32) = 0"
    then have "(2::nat) ^ 32 dvd Suc ?k" by (simp add: word_of_nat_eq_0_iff del: of_nat_Suc)
    then show False using len by (auto dest!: dvd_imp_le)
  qed
  then have "ev_generation v' \<noteq> tok_generation tok" using v' assms(5) by (simp add: ac_simps)
  then show ?thesis using v' assms(3) by (auto simp: access_spec_def)
qed

end

section \<open>The table keeps the contract\<close>

lemma get_fst: "fst (CapTable_get t oid) = map_option (\<lambda>i. entry_view (ct_entries t i)) (find_slot t oid)"
  by (auto simp: CapTable_get_def find_slot_def entry_view_def Let_def Rights_from_bits_truncate_def
      split: option.splits)

lemma get_entries [simp]: "ct_entries (snd (CapTable_get t oid)) = ct_entries t"
  by (auto simp: CapTable_get_def Let_def split: option.splits)

lemma get_count [simp]: "ct_count (snd (CapTable_get t oid)) = ct_count t"
  by (auto simp: CapTable_get_def Let_def split: option.splits)

lemma abs_eq:
  "CapTable_abs t oid = (if ObjectId_is_valid oid
     then map_option (\<lambda>i. entry_view (ct_entries t i)) (find_slot t oid) else None)"
  by (simp add: CapTable_abs_def get_fst)

lemma valid_raw: "ObjectId_is_valid oid \<longleftrightarrow> oid_raw oid \<noteq> SLOT_FREE"
  by (simp add: ObjectId_is_valid_def SLOT_FREE_def)

lemma wf_find:
  assumes "CapTable_wf t" "i < 512" "ce_object_id (ct_entries t i) = oid_raw oid" "ObjectId_is_valid oid"
  shows "find_slot t oid = Some i"
  using assms unfolding CapTable_wf_def by (cases oid) (auto simp: valid_raw)

lemma find_slot_upd_new:
  assumes wf: "CapTable_wf t" and oid: "ObjectId_is_valid oid" "ObjectId_is_valid oid'"
    and i: "find_free_slot t oid = Some i" "CapEntry_is_free (ct_entries t i)"
    and t': "ct_entries t' = (ct_entries t)(i := e)" "ce_object_id e = oid_raw oid"
  shows "find_slot t' oid' = (if oid' = oid then Some i else find_slot t oid')"
proof (cases "oid' = oid")
  case True
  from i obtain q where q: "q < 512" "probe_index (hash_index oid) q = i"
    "\<forall>r<q. \<not> probe_hit (ct_entries t) (oid_raw oid) (hash_index oid) r"
    by (auto simp: find_free_slot_Some_iff)
  have "\<not> probe_hit (ct_entries t') (oid_raw oid) (hash_index oid) r" if "r < q" for r
  proof -
    have "probe_index (hash_index oid) r \<noteq> i"
      using probe_index_inj [of r q] q that by auto
    then show ?thesis using q(3) that by (simp add: probe_hit_def t')
  qed
  then show ?thesis using True q t' by (auto simp: find_slot_Some_iff)
next
  case False
  then have ne: "oid_raw oid' \<noteq> oid_raw oid" by (metis ObjectId.expand)
  have "find_slot t' oid' = find_slot t oid'"
  proof (rule option_eqI, rule iffI)
    fix j assume j: "find_slot t' oid' = Some j"
    have "ce_object_id (ct_entries t j) = oid_raw oid'"
      using find_slot_stored [OF j] ne t' by (auto split: if_splits)
    then show "find_slot t oid' = Some j" using wf find_slot_less [OF j] oid by (intro wf_find)
  next
    fix j assume "find_slot t oid' = Some j"
    then obtain q where q: "q < 512" "probe_index (hash_index oid') q = j"
      "ce_object_id (ct_entries t j) = oid_raw oid'"
      "\<forall>r<q. \<not> probe_hit (ct_entries t) (oid_raw oid') (hash_index oid') r"
      by (auto simp: find_slot_Some_iff)
    have free: "ce_object_id (ct_entries t i) = SLOT_FREE" using i by (simp add: CapEntry_is_free_def)
    have "\<not> probe_hit (ct_entries t') (oid_raw oid') (hash_index oid') r" if "r < q" for r
      using q(4) that free by (auto simp: probe_hit_def t')
    moreover have "j \<noteq> i" using q(3) free oid by (auto simp: valid_raw)
    ultimately show "find_slot t' oid' = Some j"
      unfolding find_slot_Some_iff using q(1-3) by (intro exI [of _ q]) (auto simp: t')
  qed
  then show ?thesis using False by simp
qed

lemma find_free_slot_existing:
  assumes "find_free_slot t oid = Some i" "\<not> CapEntry_is_free (ct_entries t i)"
  shows "find_slot t oid = Some i" "ce_object_id (ct_entries t i) = oid_raw oid"
  using assms unfolding find_free_slot_Some_iff find_slot_Some_iff
  by (auto simp: probe_hit_def CapEntry_is_free_def)

lemma find_free_slot_new:
  assumes "find_free_slot t oid = Some i" "CapEntry_is_free (ct_entries t i)" "ObjectId_is_valid oid"
  shows "find_slot t oid = None"
proof (rule ccontr)
  assume "find_slot t oid \<noteq> None"
  then obtain j where "find_slot t oid = Some j" by auto
  then have "find_free_slot t oid = Some j"
    unfolding find_free_slot_Some_iff find_slot_Some_iff by (auto simp: probe_hit_def)
  then show False using assms \<open>find_slot t oid = Some j\<close> find_slot_stored
    by (auto simp: CapEntry_is_free_def valid_raw)
qed

text \<open>What a grant writes.\<close>

definition granted_entry :: "CapTable \<Rightarrow> nat \<Rightarrow> ObjectId \<Rightarrow> Rights \<Rightarrow> CapObjectType \<Rightarrow> CapEntry" where
  "granted_entry t i oid r ty =
     \<lparr>ce_object_id = oid_raw oid, ce_rights = Rights_bits r,
      ce_generation = (if CapEntry_is_free (ct_entries t i) then 0 else ce_generation (ct_entries t i)),
      ce_type_tag = ucast (CapObjectType_as_u16 ty)\<rparr>"

lemma grant_None:
  "find_free_slot t oid = None \<Longrightarrow> CapTable_grant ts t oid r ty = (Err TableFull, ts, t)"
  by (simp add: CapTable_grant_def)

lemma grant_Some:
  assumes "find_free_slot t oid = Some i"
  shows "ct_entries (snd (snd (CapTable_grant ts t oid r ty)))
      = (ct_entries t)(i := granted_entry t i oid r ty)"
    and "ct_count (snd (snd (CapTable_grant ts t oid r ty)))
      = (if CapEntry_is_free (ct_entries t i) then ct_count t + 1 else ct_count t)"
    and "fst (CapTable_grant ts t oid r ty) =
      Ok \<lparr>tok_object_id = oid, tok_rights = r,
          tok_generation = ce_generation (granted_entry t i oid r ty), tok_type_tag = ty\<rparr>"
  using assms find_free_slot_existing(2) [OF assms(1)]
  by (auto simp: CapTable_grant_def granted_entry_def CapToken_new_def Let_def split: prod.splits)

lemma grant_find_slot:
  assumes "CapTable_wf t" "ObjectId_is_valid oid" "ObjectId_is_valid oid'"
    and "find_free_slot t oid = Some i"
  shows "find_slot (snd (snd (CapTable_grant ts t oid r ty))) oid'
      = (if oid' = oid then Some i else find_slot t oid')"
proof (cases "CapEntry_is_free (ct_entries t i)")
  case True
  show ?thesis
    by (rule find_slot_upd_new [OF assms True grant_Some(1) [OF assms(4)]])
      (simp add: granted_entry_def)
next
  case False
  note e = find_free_slot_existing [OF assms(4) False]
  have "find_slot (snd (snd (CapTable_grant ts t oid r ty))) oid' = find_slot t oid'"
    using e by (intro find_slot_cong) (auto simp: grant_Some(1) [OF assms(4)] granted_entry_def)
  then show ?thesis using e by simp
qed

lemma entry_tag_ok_as_u16: "ce_type_tag e = ucast (CapObjectType_as_u16 ty) \<Longrightarrow> entry_tag_ok e"
  by (simp add: entry_tag_ok_def)

lemma CapTable_wfI:
  assumes "\<And>i. i < 512 \<Longrightarrow> ce_object_id (ct_entries t i) \<noteq> SLOT_FREE \<Longrightarrow>
      find_slot t (ObjectId (ce_object_id (ct_entries t i))) = Some i"
    and "\<And>i. i < 512 \<Longrightarrow> entry_tag_ok (ct_entries t i)"
    and "ct_count t = of_nat (card (used_slots t))"
  shows "CapTable_wf t"
  using assms by (simp add: CapTable_wf_def)

lemma wf_tag: "CapTable_wf t \<Longrightarrow> i < 512 \<Longrightarrow> entry_tag_ok (ct_entries t i)"
  and wf_count: "CapTable_wf t \<Longrightarrow> ct_count t = of_nat (card (used_slots t))"
  by (auto simp: CapTable_wf_def)

lemma grant_used_slots:
  assumes "find_free_slot t oid = Some i" "ObjectId_is_valid oid"
  shows "card (used_slots (snd (snd (CapTable_grant ts t oid r ty))))
      = (if CapEntry_is_free (ct_entries t i) then Suc (card (used_slots t)) else card (used_slots t))"
  using assms find_free_slot_less [OF assms(1)]
    card_upd_insert [of "{..<512}" i "\<lambda>e. ce_object_id e \<noteq> SLOT_FREE" "ct_entries t"
      "granted_entry t i oid r ty"]
    card_upd_same [of "\<lambda>e. ce_object_id e \<noteq> SLOT_FREE" "ct_entries t" i
      "granted_entry t i oid r ty" "{..<512}"]
  by (auto simp: used_slots_def grant_Some(1) valid_raw CapEntry_is_free_def granted_entry_def)

lemma grant_wf [exo_inv]:
  assumes "CapTable_wf t" "ObjectId_is_valid oid"
  shows "CapTable_wf (snd (snd (CapTable_grant ts t oid r ty)))"
proof (cases "find_free_slot t oid")
  case None
  then show ?thesis using assms by (simp add: grant_None)
next
  case (Some i)
  let ?t' = "snd (snd (CapTable_grant ts t oid r ty))"
  note e = grant_Some(1) [OF Some, of ts r ty]
  show ?thesis
  proof (rule CapTable_wfI)
    fix j assume j: "j < 512" "ce_object_id (ct_entries ?t' j) \<noteq> SLOT_FREE"
    let ?o = "ObjectId (ce_object_id (ct_entries ?t' j))"
    have f: "find_slot ?t' ?o = (if ?o = oid then Some i else find_slot t ?o)"
      using assms Some j by (intro grant_find_slot) (simp_all add: valid_raw)
    show "find_slot ?t' ?o = Some j"
    proof (cases "j = i")
      case True
      then have "?o = oid" by (simp add: e granted_entry_def)
      then show ?thesis using f True by simp
    next
      case False
      then have o: "find_slot t ?o = Some j"
        using assms j by (intro wf_find) (auto simp: e valid_raw)
      have "?o \<noteq> oid"
      proof
        assume eq: "?o = oid"
        then have "find_slot t oid = Some j" using o by simp
        moreover have "\<not> CapEntry_is_free (ct_entries t i)"
          using find_free_slot_new [OF Some _ assms(2)] calculation by auto
        ultimately show False using find_free_slot_existing(1) [OF Some] False by simp
      qed
      then show ?thesis using f o by simp
    qed
  next
    fix j :: nat assume "j < 512"
    then show "entry_tag_ok (ct_entries ?t' j)"
      using wf_tag [OF assms(1)]
      by (auto simp: e granted_entry_def intro: entry_tag_ok_as_u16)
  next
    show "ct_count ?t' = of_nat (card (used_slots ?t'))"
      using wf_count [OF assms(1)]
      by (simp add: grant_used_slots [OF Some assms(2)] grant_Some(2) [OF Some])
  qed
qed

lemma bump_find_slot:
  "find_slot (t\<lparr>ct_entries := (ct_entries t)(i := ct_entries t i\<lparr>ce_generation := g\<rparr>)\<rparr>) oid
     = find_slot t oid"
  by (rule find_slot_cong) auto

lemma revoke_entries:
  "ct_entries (snd (CapTable_revoke t oid)) =
    (case find_slot t oid of None \<Rightarrow> ct_entries t
     | Some i \<Rightarrow> (ct_entries t)(i := ct_entries t i\<lparr>ce_generation := ce_generation (ct_entries t i) + 1\<rparr>))"
  by (simp add: CapTable_revoke_def Let_def split: option.splits)

lemma revoke_ids [simp]:
  "ce_object_id (ct_entries (snd (CapTable_revoke t oid)) i) = ce_object_id (ct_entries t i)"
  "ce_rights (ct_entries (snd (CapTable_revoke t oid)) i) = ce_rights (ct_entries t i)"
  "ce_type_tag (ct_entries (snd (CapTable_revoke t oid)) i) = ce_type_tag (ct_entries t i)"
  by (auto simp: revoke_entries split: option.splits)

lemma revoke_count [simp]: "ct_count (snd (CapTable_revoke t oid)) = ct_count t"
  by (simp add: CapTable_revoke_def Let_def split: option.splits)

lemma revoke_find_slot [simp]: "find_slot (snd (CapTable_revoke t oid)) oid' = find_slot t oid'"
  by (rule find_slot_cong) simp

lemma revoke_wf [exo_inv]: "CapTable_wf t \<Longrightarrow> CapTable_wf (snd (CapTable_revoke t oid))"
  by (simp add: CapTable_wf_def entry_tag_ok_def used_slots_def)

lemma revoke_generation:
  assumes "find_slot t oid = Some i"
  shows "ce_generation (ct_entries (snd (CapTable_revoke t oid)) j)
      = (if j = i then ce_generation (ct_entries t j) + 1 else ce_generation (ct_entries t j))"
  using assms by (simp add: revoke_entries)

lemma entry_view_bump:
  "entry_view (e\<lparr>ce_generation := g\<rparr>) = (entry_view e)\<lparr>ev_generation := g\<rparr>"
  by (simp add: entry_view_def)

lemma revoke_abs_eq:
  assumes "CapTable_wf t" "ObjectId_is_valid oid"
  shows "CapTable_abs (snd (CapTable_revoke t oid)) = spec_revoke (CapTable_abs t) oid"
proof (cases "find_slot t oid")
  case None
  then have "snd (CapTable_revoke t oid) = t" by (simp add: CapTable_revoke_def)
  then show ?thesis using None by (simp add: spec_revoke_def abs_eq)
next
  case (Some i)
  have ne: "find_slot t o2 = Some j \<Longrightarrow> o2 \<noteq> oid \<Longrightarrow> j \<noteq> i" for o2 j
    using find_slot_stored [of t] Some by (metis ObjectId.expand)
  have e: "ct_entries (snd (CapTable_revoke t oid)) =
      (ct_entries t)(i := ct_entries t i\<lparr>ce_generation := ce_generation (ct_entries t i) + 1\<rparr>)"
    using Some by (simp add: revoke_entries)
  have g: "ev_generation (entry_view x) = ce_generation x" for x by (simp add: entry_view_def)
  show ?thesis
  proof
    fix o2
    show "CapTable_abs (snd (CapTable_revoke t oid)) o2 = spec_revoke (CapTable_abs t) oid o2"
      using assms Some ne [of o2]
      by (cases "o2 = oid"; cases "find_slot t o2")
        (auto simp: abs_eq spec_revoke_def e entry_view_bump g)
  qed
qed

lemma granted_entry_view:
  assumes "find_free_slot t oid = Some i" "ObjectId_is_valid oid"
  shows "entry_view (granted_entry t i oid r ty) =
    \<lparr>ev_rights = r, ev_generation = spec_generation (CapTable_abs t) oid, ev_type_tag = ty\<rparr>"
proof (cases "CapEntry_is_free (ct_entries t i)")
  case True
  then show ?thesis using find_free_slot_new [OF assms(1) True assms(2)]
    by (simp add: entry_view_def granted_entry_def spec_generation_def abs_eq)
next
  case False
  then show ?thesis using find_free_slot_existing(1) [OF assms(1) False] assms(2)
    by (simp add: entry_view_def granted_entry_def spec_generation_def abs_eq)
qed

lemma grant_abs_eq:
  assumes "CapTable_wf t" "ObjectId_is_valid oid" "find_free_slot t oid = Some i"
  shows "CapTable_abs (snd (snd (CapTable_grant ts t oid r ty))) = spec_grant (CapTable_abs t) oid r ty"
proof
  fix o2
  let ?t' = "snd (snd (CapTable_grant ts t oid r ty))"
  note f = grant_find_slot [OF assms(1,2) _ assms(3), of o2 ts r ty]
  show "CapTable_abs ?t' o2 = spec_grant (CapTable_abs t) oid r ty o2"
  proof (cases "o2 = oid")
    case True
    then show ?thesis using f assms(2) granted_entry_view [OF assms(3,2), of r ty]
      by (simp add: abs_eq spec_grant_def grant_Some(1) [OF assms(3)])
  next
    case False
    show ?thesis
    proof (cases "ObjectId_is_valid o2")
      case True
      have "j \<noteq> i" if "find_slot t o2 = Some j" for j
      proof
        assume "j = i"
        then have s: "ce_object_id (ct_entries t i) = oid_raw o2" using find_slot_stored [OF that] by simp
        then have "\<not> CapEntry_is_free (ct_entries t i)" using True by (simp add: CapEntry_is_free_def valid_raw)
        then show False using find_free_slot_existing(2) [OF assms(3)] s False by (metis ObjectId.expand)
      qed
      then show ?thesis using True False f
        by (cases "find_slot t o2") (auto simp: abs_eq spec_grant_def grant_Some(1) [OF assms(3)])
    next
      case invalid: False
      then show ?thesis using False by (simp add: abs_eq spec_grant_def)
    qed
  qed
qed

interpretation ct: cap_store "\<lambda>st. CapTable_wf (snd st)" "\<lambda>st. CapTable_abs (snd st)"
  cap_grant cap_revoke
proof
  fix s :: cap_state and oid r ty tok e
  show "CapTable_wf (snd s) \<Longrightarrow> ObjectId_is_valid oid \<Longrightarrow> CapTable_wf (snd (snd (cap_grant s oid r ty)))"
    by (simp add: cap_grant_def grant_wf)
  show "CapTable_abs (snd (snd (cap_grant s oid r ty))) = spec_grant (CapTable_abs (snd s)) oid r ty \<and>
      tok = \<lparr>tok_object_id = oid, tok_rights = r,
             tok_generation = spec_generation (CapTable_abs (snd s)) oid, tok_type_tag = ty\<rparr>"
    if "CapTable_wf (snd s)" "ObjectId_is_valid oid" "fst (cap_grant s oid r ty) = Ok tok"
  proof (cases "find_free_slot (snd s) oid")
    case None
    then show ?thesis using that by (simp add: cap_grant_def grant_None)
  next
    case (Some i)
    have "ev_generation (entry_view (granted_entry (snd s) i oid r ty))
        = spec_generation (CapTable_abs (snd s)) oid"
      by (simp add: granted_entry_view [OF Some that(2)])
    then show ?thesis using that Some
      by (simp add: cap_grant_def grant_abs_eq grant_Some(3) entry_view_def)
  qed
  show "e = TableFull \<and> CapTable_abs (snd (snd (cap_grant s oid r ty))) = CapTable_abs (snd s)"
    if "fst (cap_grant s oid r ty) = Err e"
    using that by (cases "find_free_slot (snd s) oid") (auto simp: cap_grant_def grant_None grant_Some(3))
  show "CapTable_wf (snd s) \<Longrightarrow> ObjectId_is_valid oid \<Longrightarrow> CapTable_wf (snd (snd (cap_revoke s oid)))"
    by (simp add: cap_revoke_def revoke_wf case_prod_unfold Let_def)
  show "CapTable_wf (snd s) \<Longrightarrow> ObjectId_is_valid oid \<Longrightarrow>
      CapTable_abs (snd (snd (cap_revoke s oid))) = spec_revoke (CapTable_abs (snd s)) oid"
    by (simp add: cap_revoke_def revoke_abs_eq case_prod_unfold Let_def)
  show "ObjectId_is_valid oid \<Longrightarrow> fst (cap_revoke s oid) =
      (if CapTable_abs (snd s) oid = None then Err ObjectNotFound else Ok ())"
    by (auto simp: cap_revoke_def CapTable_revoke_def abs_eq Let_def split: option.splits)
qed

section \<open>Creation and inheritance\<close>

lemma new_find_slot: "ObjectId_is_valid oid \<Longrightarrow> find_slot CapTable_new oid = None"
  by (simp add: find_slot_def find_slot_loop.simps CapTable_new_def CapEntry_new_free_def valid_raw Let_def)

lemma new_wf [exo_inv]: "CapTable_wf CapTable_new"
  by (rule CapTable_wfI)
    (simp_all add: CapTable_new_def CapEntry_new_free_def used_slots_def entry_tag_ok_def
      CapObjectType_from_u16_def)

lemma new_abs: "CapTable_abs CapTable_new = Map.empty"
  by (auto simp: abs_eq new_find_slot)

lemma length_filter_used:
  "length (filter (\<lambda>i. ce_object_id (ct_entries t i) \<noteq> u64_MAX) [0..<512]) = card (used_slots t)"
proof -
  have "length (filter (\<lambda>i. ce_object_id (ct_entries t i) \<noteq> u64_MAX) [0..<512])
      = card (set (filter (\<lambda>i. ce_object_id (ct_entries t i) \<noteq> u64_MAX) [0..<512]))"
    by (simp add: distinct_card del: set_filter)
  also have "set (filter (\<lambda>i. ce_object_id (ct_entries t i) \<noteq> u64_MAX) [0..<512]) = used_slots t"
    by (auto simp: used_slots_def SLOT_FREE_def)
  finally show ?thesis .
qed

definition masked_view :: "Rights \<Rightarrow> CapObjectType \<Rightarrow> CapEntryView \<Rightarrow> CapEntryView" where
  "masked_view strip ty v =
     (if ev_type_tag v = ty then v\<lparr>ev_rights := Rights_without (ev_rights v) strip\<rparr> else v)"

lemma masked_entries:
  assumes "i < 512"
  shows "ce_object_id (ct_entries (CapTable_inherit_from_masked p sr st) i) = ce_object_id (ct_entries p i)"
    and "ce_object_id (ct_entries p i) \<noteq> SLOT_FREE \<Longrightarrow>
      ct_entries (CapTable_inherit_from_masked p sr st) i =
        (ct_entries p i)\<lparr>ce_rights :=
          (if ce_type_tag (ct_entries p i) = ucast (CapObjectType_as_u16 st)
           then ce_rights (ct_entries p i) AND NOT (Rights_bits sr) else ce_rights (ct_entries p i))\<rparr>"
  using assms
  by (auto simp: CapTable_inherit_from_masked_def CapTable_new_def CapEntry_new_free_def Let_def SLOT_FREE_def)

lemma masked_tag:
  "i < 512 \<Longrightarrow> ce_type_tag (ct_entries (CapTable_inherit_from_masked p sr st) i) =
     (if ce_object_id (ct_entries p i) = SLOT_FREE then 0 else ce_type_tag (ct_entries p i))"
  by (simp add: CapTable_inherit_from_masked_def CapTable_new_def CapEntry_new_free_def Let_def SLOT_FREE_def)

lemma masked_find_slot [simp]:
  "find_slot (CapTable_inherit_from_masked p sr st) oid = find_slot p oid"
  by (rule find_slot_cong) (simp add: masked_entries)

lemma masked_wf [exo_inv]:
  assumes "CapTable_wf p"
  shows "CapTable_wf (CapTable_inherit_from_masked p sr st)"
proof (rule CapTable_wfI)
  fix i :: nat assume i: "i < 512"
  show "entry_tag_ok (ct_entries (CapTable_inherit_from_masked p sr st) i)"
    using wf_tag [OF assms i] i by (simp add: entry_tag_ok_def masked_tag CapObjectType_from_u16_def)
next
  have "used_slots (CapTable_inherit_from_masked p sr st) = used_slots p"
    by (auto simp: used_slots_def masked_entries)
  then show "ct_count (CapTable_inherit_from_masked p sr st)
      = of_nat (card (used_slots (CapTable_inherit_from_masked p sr st)))"
    using length_filter_used [of p] by (simp add: CapTable_inherit_from_masked_def Let_def)
qed (use assms in \<open>auto simp: masked_entries CapTable_wf_def\<close>)

lemma masked_abs:
  assumes "CapTable_wf p"
  shows "CapTable_abs (CapTable_inherit_from_masked p sr st) oid
    = map_option (masked_view sr st) (CapTable_abs p oid)"
proof (cases "ObjectId_is_valid oid \<and> find_slot p oid \<noteq> None")
  case True
  then obtain i where i: "find_slot p oid = Some i" "ObjectId_is_valid oid" by auto
  note less = find_slot_less [OF i(1)]
  have nf: "ce_object_id (ct_entries p i) \<noteq> SLOT_FREE" using find_slot_stored [OF i(1)] i(2) by (simp add: valid_raw)
  obtain ty where ty: "ce_type_tag (ct_entries p i) = ucast (CapObjectType_as_u16 ty)"
    using wf_tag [OF assms less] by (auto simp: entry_tag_ok_def)
  show ?thesis using i nf less ty
    by (simp add: abs_eq masked_entries(2) entry_view_def masked_view_def Rights_without_def)
qed (auto simp: abs_eq)

lemma inherit_is_masked_none: "CapTable_inherit_from p = CapTable_inherit_from_masked p Rights_NONE Invalid"
  by (simp add: CapTable_inherit_from_def CapTable_inherit_from_masked_def Let_def Rights_NONE_def
      cong: if_cong)

lemma new_find_free_slot: "find_free_slot CapTable_new oid = Some (hash_index oid)"
  using hash_index_less [of oid]
  by (simp add: find_free_slot_def find_free_slot_loop.simps CapTable_new_def CapEntry_new_free_def
      CapEntry_is_free_def probe_index_mod Let_def)

text \<open>The first grant in an empty table.\<close>

lemma new_grant:
  assumes "ObjectId_is_valid oid"
  obtains ts' t' where
    "CapTable_grant ts CapTable_new oid r ty =
      (Ok \<lparr>tok_object_id = oid, tok_rights = r, tok_generation = 0, tok_type_tag = ty\<rparr>, ts', t')"
    "CapTable_wf t'"
    "CapTable_abs t' = [oid \<mapsto> \<lparr>ev_rights = r, ev_generation = 0, ev_type_tag = ty\<rparr>]"
proof -
  obtain ts' t' where g: "CapTable_grant ts CapTable_new oid r ty =
      (Ok \<lparr>tok_object_id = oid, tok_rights = r, tok_generation = 0, tok_type_tag = ty\<rparr>, ts', t')"
    using grant_Some(3) [OF new_find_free_slot, of ts oid r ty]
    by (cases "CapTable_grant ts CapTable_new oid r ty")
      (auto simp: granted_entry_def CapTable_new_def CapEntry_new_free_def CapEntry_is_free_def)
  moreover have "CapTable_wf t'" using grant_wf [OF new_wf assms, of ts r ty] g by simp
  moreover have "CapTable_abs t' = [oid \<mapsto> \<lparr>ev_rights = r, ev_generation = 0, ev_type_tag = ty\<rparr>]"
    using grant_abs_eq [OF new_wf assms new_find_free_slot, of ts r ty] g
    by (simp add: spec_grant_def spec_generation_def new_abs)
  ultimately show ?thesis using that by blast
qed

section \<open>Removal\<close>

lemma find_slot_upd_self:
  assumes "find_free_slot t oid = Some i"
    and "ct_entries t' = (ct_entries t)(i := e)" "ce_object_id e = oid_raw oid"
  shows "find_slot t' oid = Some i"
proof -
  from assms(1) obtain q where q: "q < 512" "probe_index (hash_index oid) q = i"
    "\<forall>r<q. \<not> probe_hit (ct_entries t) (oid_raw oid) (hash_index oid) r"
    by (auto simp: find_free_slot_Some_iff)
  have "probe_index (hash_index oid) r \<noteq> i" if "r < q" for r
    using probe_index_inj [of r q] q that by auto
  then show ?thesis using q assms(2,3)
    unfolding find_slot_Some_iff by (intro exI [of _ q]) (auto simp: probe_hit_def)
qed

lemma remove_entries:
  assumes "find_slot t oid = Some i"
  shows "ct_entries (snd (CapTable_remove t oid)) = (ct_entries t)(i := ct_entries t i
    \<lparr>ce_generation := ce_generation (ct_entries t i) + 1, ce_object_id := SLOT_FREE, ce_rights := 0\<rparr>)"
  using assms by (simp add: CapTable_remove_def Let_def)

lemma remove_find_free_slot:
  assumes "find_slot t oid = Some i"
  shows "find_free_slot (snd (CapTable_remove t oid)) oid = Some i"
proof -
  from assms obtain q where q: "q < 512" "probe_index (hash_index oid) q = i"
    "\<forall>r<q. \<not> probe_hit (ct_entries t) (oid_raw oid) (hash_index oid) r"
    by (auto simp: find_slot_Some_iff)
  have "probe_index (hash_index oid) r \<noteq> i" if "r < q" for r
    using probe_index_inj [of r q] q that by auto
  then show ?thesis using q
    unfolding find_free_slot_Some_iff remove_entries [OF assms]
    by (intro exI [of _ q]) (auto simp: probe_hit_def)
qed

lemma hash_index_1: "hash_index (ObjectId 1) = 240"
  and hash_index_615: "hash_index (ObjectId 615) = 240"
  by code_simp+

end
