(* ===== verification/Cap_Verify.thy ===== *)
theory Cap_Verify
  imports Cap_Table
begin

text \<open>
  Verification, revocation, delegation and the access-control entry point
  (\<open>verify.rs\<close>, \<open>revocation.rs\<close>, \<open>delegation.rs\<close> under
  \<open>kernel/src/security/capability/\<close>, and \<open>kernel/src/security/access_control/checker.rs\<close>).
  \<open>verify\<close> is proved equal to the specification \<open>access_spec\<close> over the table's abstract map,
  and the other entry points are characterised through it.
\<close>

section \<open>Definitions\<close>

definition verify :: "TokenStats \<Rightarrow> CapTable \<Rightarrow> CapToken \<Rightarrow> Rights
    \<Rightarrow> (CapError, unit) result \<times> TokenStats \<times> CapTable" where
  "verify ts table token required_rights =
    (let token_invalid = CapToken_is_invalid token;
         (entry_opt, table) = CapTable_get table (tok_object_id token);
         stored_gen = (case entry_opt of None \<Rightarrow> u32_MAX | Some e \<Rightarrow> ev_generation e);
         stored_rights = (case entry_opt of None \<Rightarrow> Rights_NONE | Some e \<Rightarrow> ev_rights e);
         entry_found = (entry_opt \<noteq> None);
         gen_ok = (stored_gen = tok_generation token);
         rights_ok = Rights_contains_ct stored_rights required_rights;
         access_ok = (entry_found \<and> gen_ok \<and> rights_ok)
     in if token_invalid \<or> \<not> access_ok then (Err Denied, stat_denied ts, table)
        else (Ok (), stat_verified ts, table))"

definition verify_and_get_rights :: "TokenStats \<Rightarrow> CapTable \<Rightarrow> CapToken \<Rightarrow> Rights
    \<Rightarrow> (CapError, Rights) result \<times> TokenStats \<times> CapTable" where
  "verify_and_get_rights ts table token required_rights =
    (let (r, ts, table) = verify ts table token required_rights in
     case r of Inl e \<Rightarrow> (Err e, ts, table)
     | Inr _ \<Rightarrow>
         let (entry, table) = CapTable_get table (tok_object_id token) in
         (case entry of None \<Rightarrow> (Err ObjectNotFound, ts, table)
          | Some entry \<Rightarrow> (Ok (ev_rights entry), ts, table)))"

definition verify_typed :: "TokenStats \<Rightarrow> CapTable \<Rightarrow> CapToken \<Rightarrow> Rights \<Rightarrow> CapObjectType
    \<Rightarrow> (CapError, unit) result \<times> TokenStats \<times> CapTable" where
  "verify_typed ts table token required expected_type =
    (let (r, ts, table) = verify ts table token required in
     case r of Inl e \<Rightarrow> (Err e, ts, table)
     | Inr _ \<Rightarrow>
         let (entry, table) = CapTable_get table (tok_object_id token) in
         (case entry of None \<Rightarrow> (Err InternalError, ts, table)
          | Some entry \<Rightarrow>
              if ev_type_tag entry \<noteq> expected_type then (Err InsufficientRights, stat_denied ts, table)
              else (Ok (), ts, table)))"

definition verify_read where
  "verify_read ts table token = verify ts table token Rights_READ"

definition verify_read_write where
  "verify_read_write ts table token = verify ts table token Rights_READ_WRITE"

definition verify_ipc_send where
  "verify_ipc_send ts table token = verify ts table token Rights_IPC_SEND"

definition verify_ipc_recv where
  "verify_ipc_recv ts table token = verify ts table token Rights_IPC_RECV"

definition revoke :: "CapTable \<Rightarrow> ObjectId \<Rightarrow> CapTable" where
  "revoke table oid = CapTable_increment_generation table oid"

definition revoke_token :: "CapTable \<Rightarrow> CapToken \<Rightarrow> CapTable" where
  "revoke_token table token = revoke table (tok_object_id token)"

text \<open>
  Delegation reads one table and grants in another; the source table only sees its lookup
  counters move.  The two tables are distinct objects here.
\<close>

definition delegate :: "TokenStats \<Rightarrow> CapTable \<Rightarrow> CapToken \<Rightarrow> CapTable \<Rightarrow> Rights
    \<Rightarrow> (CapError, CapToken) result \<times> TokenStats \<times> CapTable \<times> CapTable" where
  "delegate ts source source_token target delegated_rights =
    (let (r, ts, source) = verify ts source source_token Rights_DELEGATE in
     case r of Inl e \<Rightarrow> (Err e, ts, source, target)
     | Inr _ \<Rightarrow>
       if \<not> Rights_is_subset_of delegated_rights (tok_rights source_token)
       then (Err InsufficientRights, ts, source, target)
       else if Rights_contains delegated_rights Rights_GRANT
               \<and> \<not> CapToken_has_rights source_token Rights_GRANT
       then (Err InsufficientRights, ts, source, target)
       else let (r, ts, target) = CapTable_grant ts target (tok_object_id source_token)
                                    delegated_rights (tok_type_tag source_token)
            in (r, ts, source, target))"

definition delegate_all where
  "delegate_all ts source source_token target =
    (let delegated = Rights_sub (tok_rights source_token) Rights_REVOKE
     in delegate ts source source_token target delegated)"

definition delegate_read_only :: "TokenStats \<Rightarrow> CapTable \<Rightarrow> CapToken \<Rightarrow> CapTable
    \<Rightarrow> (CapError, CapToken) result \<times> TokenStats \<times> CapTable \<times> CapTable" where
  "delegate_read_only ts source source_token target =
    (let read_only = Rights_bitand Rights_READ (tok_rights source_token)
     in if Rights_is_empty read_only then (Err InsufficientRights, ts, source, target)
        else delegate ts source source_token target read_only)"

definition can_delegate :: "TokenStats \<Rightarrow> CapTable \<Rightarrow> CapToken \<Rightarrow> Rights
    \<Rightarrow> bool \<times> TokenStats \<times> CapTable" where
  "can_delegate ts source source_token delegated_rights =
    (if CapToken_is_invalid source_token then (False, ts, source)
     else if \<not> CapToken_has_rights source_token Rights_DELEGATE then (False, ts, source)
     else if \<not> Rights_is_subset_of delegated_rights (tok_rights source_token) then (False, ts, source)
     else let (r, ts, source) = verify ts source source_token Rights_DELEGATE
          in (is_ok r, ts, source))"

record DelegationEntry =
  de_object_id :: ObjectId
  de_rights :: Rights
  de_depth :: u8

record DelegationChain =
  dc_entries :: "DelegationEntry option list"
  dc_len :: nat

definition DelegationChain_MAX_DEPTH :: nat where "DelegationChain_MAX_DEPTH = 8"

definition DelegationChain_new :: DelegationChain where
  "DelegationChain_new = \<lparr>dc_entries = replicate 8 None, dc_len = 0\<rparr>"

definition DelegationChain_push ::
  "DelegationChain \<Rightarrow> DelegationEntry \<Rightarrow> (CapError, unit) result \<times> DelegationChain" where
  "DelegationChain_push self entry =
    (if dc_len self \<ge> DelegationChain_MAX_DEPTH then (Err DelegationDenied, self)
     else (Ok (), self\<lparr>dc_entries := (dc_entries self)[dc_len self := Some entry],
                       dc_len := dc_len self + 1\<rparr>))"

definition DelegationChain_iter :: "DelegationChain \<Rightarrow> DelegationEntry list" where
  "DelegationChain_iter self = List.map_filter (\<lambda>e. e) (take (dc_len self) (dc_entries self))"

datatype ObjectKind = IpcChannelK | IpcEndpointK | ShmRegionK | FileK | DirectoryK | ProcessK | CryptoKeyK

primrec ObjectKind_typical_rights :: "ObjectKind \<Rightarrow> Rights" where
  "ObjectKind_typical_rights IpcChannelK = Rights_IPC_BASIC"
| "ObjectKind_typical_rights IpcEndpointK = Rights_EXEC"
| "ObjectKind_typical_rights ShmRegionK = Rights_READ_WRITE"
| "ObjectKind_typical_rights FileK = Rights_READ"
| "ObjectKind_typical_rights DirectoryK = Rights_READ"
| "ObjectKind_typical_rights ProcessK = Rights_WRITE"
| "ObjectKind_typical_rights CryptoKeyK = Rights_EXEC"

datatype AccessError =
    CapabilityDenied (ae_reason: CapError) (ae_object: ObjectKind) (ae_module: string)
  | AccessObjectNotFound ObjectKind
  | AccessInsufficientRights (ae_had: Rights) (ae_needed: Rights)

text \<open>The audit records written by \<open>check_access\<close>, as an output of the call.\<close>

datatype audit_record = AuditAllow | AuditSecurityViolation | AuditCapabilityDeny u32

definition check_access :: "TokenStats \<Rightarrow> CapTable \<Rightarrow> CapToken \<Rightarrow> ObjectKind \<Rightarrow> Rights \<Rightarrow> string
    \<Rightarrow> (AccessError, unit) result \<times> audit_record \<times> TokenStats \<times> CapTable" where
  "check_access ts table token object required caller =
    (let (r, ts, table) = verify ts table token required in
     case r of
       Inr _ \<Rightarrow> (Ok (), AuditAllow, ts, table)
     | Inl e \<Rightarrow>
         if e = ObjectNotFound
         then (Err (AccessObjectNotFound object), AuditSecurityViolation, ts, table)
         else if e = InsufficientRights
         then (Err (AccessInsufficientRights Rights_NONE required),
               AuditCapabilityDeny (Rights_bits required), ts, table)
         else (Err (CapabilityDenied e object caller),
               AuditCapabilityDeny (Rights_bits required), ts, table))"

section \<open>Verification decides the access specification\<close>

lemma access_spec_get:
  "access_spec (CapTable_abs t) tok req \<longleftrightarrow> \<not> CapToken_is_invalid tok \<and>
     (case fst (CapTable_get t (tok_object_id tok)) of None \<Rightarrow> False
      | Some e \<Rightarrow> ev_generation e = tok_generation tok \<and> Rights_contains (ev_rights e) req)"
proof -
  have "ObjectId_is_valid (tok_object_id tok) \<longleftrightarrow> \<not> CapToken_is_invalid tok"
    by (cases "tok_object_id tok")
      (simp add: ObjectId_is_valid_def CapToken_is_invalid_def ObjectId_INVALID_def)
  then show ?thesis by (auto simp: access_spec_def CapTable_abs_def split: option.splits)
qed

lemma verify_eq:
  "verify ts t tok req =
    (if access_spec (CapTable_abs t) tok req
     then (Ok (), stat_verified ts, snd (CapTable_get t (tok_object_id tok)))
     else (Err Denied, stat_denied ts, snd (CapTable_get t (tok_object_id tok))))"
  unfolding access_spec_get
  by (auto simp: verify_def Let_def Rights_contains_ct_def Rights_contains_def
      split: prod.splits option.splits)

lemma verify_result: "fst (verify ts t tok req) = (if access_spec (CapTable_abs t) tok req then Ok () else Err Denied)"
  by (simp add: verify_eq)

lemma verify_table [simp]:
  "ct_entries (snd (snd (verify ts t tok req))) = ct_entries t"
  "ct_count (snd (snd (verify ts t tok req))) = ct_count t"
  by (simp_all add: verify_eq)

lemma abs_cong: "ct_entries t = ct_entries t' \<Longrightarrow> CapTable_abs t = CapTable_abs t'"
  by (rule ext) (simp add: abs_eq find_slot_def)

lemma wf_cong: "ct_entries t = ct_entries t' \<Longrightarrow> ct_count t = ct_count t' \<Longrightarrow> CapTable_wf t = CapTable_wf t'"
  by (simp add: CapTable_wf_def find_slot_def used_slots_def)

lemma get_abs [simp]: "CapTable_abs (snd (CapTable_get t oid)) = CapTable_abs t"
  by (rule abs_cong) simp

lemma get_wf [simp]: "CapTable_wf (snd (CapTable_get t oid)) = CapTable_wf t"
  by (rule wf_cong) simp_all

lemma verify_abs [simp]: "CapTable_abs (snd (snd (verify ts t tok req))) = CapTable_abs t"
  by (rule abs_cong) simp

lemma increment_generation_revoke:
  "ct_entries (CapTable_increment_generation t oid) = ct_entries (snd (CapTable_revoke t oid))"
  "ct_count (CapTable_increment_generation t oid) = ct_count t"
  by (auto simp: CapTable_increment_generation_def CapTable_revoke_def Let_def split: option.splits)

lemma revoke_abs_spec:
  "CapTable_wf t \<Longrightarrow> ObjectId_is_valid oid \<Longrightarrow> CapTable_abs (revoke t oid) = spec_revoke (CapTable_abs t) oid"
  using revoke_abs_eq [of t oid] abs_cong [OF increment_generation_revoke(1), of t oid]
  by (simp add: revoke_def)

lemma revoke_wf_spec [exo_inv]: "CapTable_wf t \<Longrightarrow> CapTable_wf (revoke t oid)"
  using revoke_wf [of t oid] wf_cong [OF increment_generation_revoke(1), of t oid]
  by (simp add: revoke_def increment_generation_revoke)

lemma delegate_ok_iff:
  "fst (delegate ts s tok t r) = Ok tok' \<longleftrightarrow>
    access_spec (CapTable_abs s) tok Rights_DELEGATE \<and> Rights_is_subset_of r (tok_rights tok) \<and>
    fst (CapTable_grant (stat_verified ts) t (tok_object_id tok) r (tok_type_tag tok)) = Ok tok'"
proof -
  have "Rights_contains r Rights_GRANT \<Longrightarrow> Rights_is_subset_of r (tok_rights tok) \<Longrightarrow>
      CapToken_has_rights tok Rights_GRANT"
    by (simp add: CapToken_has_rights_def Rights_contains_subset)
  then show ?thesis
    by (auto simp: delegate_def verify_eq Let_def split: prod.splits)
qed

lemma delegate_source:
  "fst (snd (snd (delegate ts s tok t r))) = snd (CapTable_get s (tok_object_id tok))"
  by (simp add: delegate_def verify_eq Let_def case_prod_unfold)

lemma delegate_ok_target:
  assumes "fst (delegate ts s tok t r) = Ok tok'"
  shows "snd (snd (snd (delegate ts s tok t r))) =
    snd (snd (CapTable_grant (stat_verified ts) t (tok_object_id tok) r (tok_type_tag tok)))"
proof -
  have "Rights_contains r Rights_GRANT \<Longrightarrow> CapToken_has_rights tok Rights_GRANT"
    using assms by (auto simp: delegate_ok_iff CapToken_has_rights_def intro: Rights_contains_subset)
  then show ?thesis using assms
    by (auto simp: delegate_ok_iff) (auto simp: delegate_def verify_eq Let_def split: prod.splits)
qed

section \<open>Properties\<close>

text \<open>
  C6: \<open>verify\<close> accepts a token exactly when it is not the invalid token, its object is found
  in the table, the stored generation is the token's, and the stored rights contain the
  required ones; every refusal is the uniform error \<open>Denied\<close>, and neither the entries nor the
  entry count of the table change.
\<close>

theorem verify_decides:
  "(fst (verify ts t tok req) = Ok () \<longleftrightarrow>
     \<not> CapToken_is_invalid tok \<and>
     (\<exists>i. find_slot t (tok_object_id tok) = Some i \<and>
        ce_object_id (ct_entries t i) = oid_raw (tok_object_id tok) \<and>
        ce_generation (ct_entries t i) = tok_generation tok \<and>
        Rights_contains (Rights (ce_rights (ct_entries t i))) req)) \<and>
   fst (verify ts t tok req) \<in> {Ok (), Err Denied} \<and>
   ct_entries (snd (snd (verify ts t tok req))) = ct_entries t \<and>
   ct_count (snd (snd (verify ts t tok req))) = ct_count t"
  by (auto simp: verify_result access_spec_get get_fst entry_view_def find_slot_stored
      split: option.splits)

text \<open>
  C9: on a table satisfying the probe invariant, a successful grant yields a token that
  verifies for every subset of the granted rights, and the verdict on every token of another
  object stays what it was before the grant.
\<close>

theorem grant_then_verify:
  assumes "CapTable_wf t" "ObjectId_is_valid oid" "CapTable_grant ts t oid r ty = (Ok tok, ts', t')"
  shows "(Rights_is_subset_of req r \<longrightarrow> fst (verify ts' t' tok req) = Ok ()) \<and>
    (tok_object_id other \<noteq> oid \<longrightarrow> fst (verify ts' t' other q) = fst (verify ts t other q))"
proof -
  have "CapTable_abs t' = spec_grant (CapTable_abs t) oid r ty \<and>
      tok = \<lparr>tok_object_id = oid, tok_rights = r,
             tok_generation = spec_generation (CapTable_abs t) oid, tok_type_tag = ty\<rparr>"
    using ct.grant_ok [of "(ts, t)" oid r ty tok] assms by (simp add: cap_grant_def)
  then show ?thesis
    by (auto simp: verify_result access_spec_def spec_grant_def Rights_subset_contains)
qed

theorem grant_then_verify_witness:
  "\<exists>tok ts' t'. CapTable_grant TokenStats_zero CapTable_new (ObjectId 7) Rights_READ_WRITE FileInode = (Ok tok, ts', t') \<and>
    fst (verify ts' t' tok Rights_READ) = Ok () \<and>
    fst (verify ts' t' (tok\<lparr>tok_object_id := ObjectId 8\<rparr>) Rights_READ) = Err Denied"
proof -
  have v: "ObjectId_is_valid (ObjectId 7)" by (simp add: ObjectId_is_valid_def)
  obtain tok ts' t' where g: "CapTable_grant TokenStats_zero CapTable_new (ObjectId 7) Rights_READ_WRITE FileInode
      = (Ok tok, ts', t')"
    using new_grant [OF v] by metis
  have "fst (verify ts' t' tok Rights_READ) = Ok ()"
    using grant_then_verify [OF new_wf v g] by (simp add: Rights_is_subset_of_def Rights_const_defs)
  moreover have "fst (verify ts' t' (tok\<lparr>tok_object_id := ObjectId 8\<rparr>) Rights_READ)
      = fst (verify TokenStats_zero CapTable_new (tok\<lparr>tok_object_id := ObjectId 8\<rparr>) Rights_READ)"
    using grant_then_verify [OF new_wf v g] by simp
  ultimately show ?thesis using g by (auto simp: verify_result new_abs access_spec_def)
qed

text \<open>
  C7: revocation is permanent.  If a token carries the current generation of an object and
  the object is revoked, then after any further sequence of grants and revocations with fewer
  than \<open>2^32 - 1\<close> revocations of that object, \<open>verify\<close> still refuses the token, whatever
  rights are asked.
\<close>

theorem revocation_permanent:
  assumes "CapTable_wf t" "ObjectId_is_valid (tok_object_id tok)"
    and "fst (verify ts t tok Rights_NONE) = Ok ()"
    and "\<forall>op \<in> set ops. ObjectId_is_valid (op_oid op)"
    and "count_list ops (OpRevoke (tok_object_id tok)) < 2 ^ 32 - 1"
  shows "fst (verify ts' (snd (foldl (cap_step cap_grant cap_revoke)
      (ts, snd (CapTable_revoke t (tok_object_id tok))) ops)) tok req) = Err Denied"
proof -
  obtain v where "CapTable_abs t (tok_object_id tok) = Some v" "ev_generation v = tok_generation tok"
    using assms(3) by (auto simp: verify_result access_spec_def split: if_splits)
  then have "\<not> access_spec (CapTable_abs (snd (foldl (cap_step cap_grant cap_revoke)
      (snd (cap_revoke (ts, t) (tok_object_id tok))) ops))) tok req"
    using assms ct.revoked_forever [of "(ts, t)" "tok_object_id tok" tok v ops req] by simp
  then show ?thesis by (simp add: verify_result cap_revoke_def Let_def case_prod_unfold)
qed

theorem revocation_permanent_witness:
  "\<exists>tok t. tok_object_id tok = ObjectId 7 \<and> fst (verify TokenStats_zero t tok Rights_NONE) = Ok () \<and>
    fst (verify TokenStats_zero (snd (foldl (cap_step cap_grant cap_revoke)
      (TokenStats_zero, snd (CapTable_revoke t (ObjectId 7)))
      [OpGrant (ObjectId 7) Rights_ALL Device, OpRevoke (ObjectId 7), OpGrant (ObjectId 9) Rights_READ Device]))
      tok Rights_READ) = Err Denied"
proof -
  let ?tok = "\<lparr>tok_object_id = ObjectId 7, tok_rights = Rights_READ, tok_generation = 0, tok_type_tag = Device\<rparr>"
  have v: "ObjectId_is_valid (ObjectId 7)" by (simp add: ObjectId_is_valid_def)
  obtain ts t where t: "CapTable_wf t"
    "CapTable_abs t = [ObjectId 7 \<mapsto> \<lparr>ev_rights = Rights_READ, ev_generation = 0, ev_type_tag = Device\<rparr>]"
    using new_grant [OF v] by metis
  then have ok: "fst (verify TokenStats_zero t ?tok Rights_NONE) = Ok ()"
    by (simp add: verify_result access_spec_def)
  show ?thesis
    using revocation_permanent [OF t(1) _ ok, of "[OpGrant (ObjectId 7) Rights_ALL Device,
        OpRevoke (ObjectId 7), OpGrant (ObjectId 9) Rights_READ Device]" TokenStats_zero Rights_READ] ok
    by (intro exI [of _ ?tok] exI [of _ t]) (simp add: ObjectId_is_valid_def)
qed

text \<open>
  C8: no rights out of thin air.  Starting from an empty table, whatever sequence of grants
  and revocations has run, \<open>verify\<close> accepts a token for some rights only if the sequence
  contains a grant of that very object whose rights contain them.
\<close>

theorem verified_rights_were_granted:
  assumes "\<forall>op \<in> set ops. ObjectId_is_valid (op_oid op)"
    and "fst (verify ts' (snd (foldl (cap_step cap_grant cap_revoke) (ts, CapTable_new) ops)) tok req) = Ok ()"
  shows "\<exists>r ty. OpGrant (tok_object_id tok) r ty \<in> set ops \<and> Rights_contains r req"
proof -
  obtain v where v: "CapTable_abs (snd (foldl (cap_step cap_grant cap_revoke) (ts, CapTable_new) ops))
      (tok_object_id tok) = Some v" "Rights_contains (ev_rights v) req"
    using assms(2) by (auto simp: verify_result access_spec_def split: if_splits)
  then show ?thesis
    using ct.run_granted [of "(ts, CapTable_new)" ops "tok_object_id tok" v] assms(1)
    by (auto simp: new_wf new_abs)
qed

theorem verified_rights_were_granted_witness:
  "\<exists>r ty. OpGrant (ObjectId 7) r ty \<in> set [OpGrant (ObjectId 7) Rights_READ Device] \<and> Rights_contains r Rights_READ"
proof -
  let ?tok = "\<lparr>tok_object_id = ObjectId 7, tok_rights = Rights_READ, tok_generation = 0, tok_type_tag = Device\<rparr>"
  have v: "ObjectId_is_valid (ObjectId 7)" by (simp add: ObjectId_is_valid_def)
  obtain ts t where t: "CapTable_grant TokenStats_zero CapTable_new (ObjectId 7) Rights_READ Device = (Ok ?tok, ts, t)"
    "CapTable_abs t = [ObjectId 7 \<mapsto> \<lparr>ev_rights = Rights_READ, ev_generation = 0, ev_type_tag = Device\<rparr>]"
    using new_grant [OF v] by metis
  then have "fst (verify TokenStats_zero (snd (foldl (cap_step cap_grant cap_revoke) (TokenStats_zero, CapTable_new)
      [OpGrant (ObjectId 7) Rights_READ Device])) ?tok Rights_READ) = Ok ()"
    by (simp add: verify_result access_spec_def cap_grant_def)
  from verified_rights_were_granted [OF _ this] show ?thesis by (simp add: v)
qed

text \<open>
  C34: removing an object forgets its generation.  After \<open>remove\<close> and a new grant of the same
  identifier, every old token of generation 0 verifies again for the newly granted rights,
  even if the object had been revoked any number of times before.
\<close>

theorem remove_regrant_resurrects:
  assumes "ObjectId_is_valid oid" "find_slot t oid \<noteq> None"
    and "CapTable_grant ts (snd (CapTable_remove t oid)) oid r ty = (g, ts', t')"
    and "tok_object_id tok = oid" "tok_generation tok = 0" "Rights_contains r req"
  shows "is_ok g \<and> fst (verify ts' t' tok req) = Ok ()"
proof -
  obtain i where i: "find_slot t oid = Some i" using assms(2) by auto
  let ?t1 = "snd (CapTable_remove t oid)"
  note f = remove_find_free_slot [OF i]
  have free: "CapEntry_is_free (ct_entries ?t1 i)" by (simp add: remove_entries [OF i] CapEntry_is_free_def)
  have e: "ct_entries t' = (ct_entries ?t1)(i := granted_entry ?t1 i oid r ty)"
    using grant_Some(1) [OF f, of ts r ty] assms(3) by simp
  have "find_slot t' oid = Some i"
    by (rule find_slot_upd_self [OF f e]) (simp add: granted_entry_def)
  then have "CapTable_abs t' oid = Some \<lparr>ev_rights = r, ev_generation = 0, ev_type_tag = ty\<rparr>"
    using free assms(1) by (simp add: abs_eq e granted_entry_def entry_view_def)
  then show ?thesis
    using grant_Some(3) [OF f, of ts r ty] assms by (simp add: verify_result access_spec_def)
qed

theorem remove_regrant_resurrects_witness:
  "\<exists>tok t1 t2 g ts' t3.
     CapTable_grant TokenStats_zero CapTable_new (ObjectId 7) Rights_READ Device = (Ok tok, ts', t1) \<and>
     t2 = snd (CapTable_revoke t1 (ObjectId 7)) \<and>
     fst (verify TokenStats_zero t2 tok Rights_READ) = Err Denied \<and>
     CapTable_grant TokenStats_zero (snd (CapTable_remove t2 (ObjectId 7))) (ObjectId 7) Rights_ALL Device = (g, ts', t3) \<and>
     fst (verify ts' t3 tok Rights_READ_WRITE) = Ok ()"
proof -
  let ?tok = "\<lparr>tok_object_id = ObjectId 7, tok_rights = Rights_READ, tok_generation = 0, tok_type_tag = Device\<rparr>"
  have v: "ObjectId_is_valid (ObjectId 7)" by (simp add: ObjectId_is_valid_def)
  obtain ts t1 where t1: "CapTable_grant TokenStats_zero CapTable_new (ObjectId 7) Rights_READ Device = (Ok ?tok, ts, t1)"
    "CapTable_wf t1"
    "CapTable_abs t1 = [ObjectId 7 \<mapsto> \<lparr>ev_rights = Rights_READ, ev_generation = 0, ev_type_tag = Device\<rparr>]"
    using new_grant [OF v] by metis
  let ?t2 = "snd (CapTable_revoke t1 (ObjectId 7))"
  have d: "fst (verify TokenStats_zero ?t2 ?tok Rights_READ) = Err Denied"
    using t1 v by (simp add: verify_result access_spec_def revoke_abs_eq spec_revoke_def)
  have f: "find_slot ?t2 (ObjectId 7) \<noteq> None" using t1(3) v by (auto simp: abs_eq fun_eq_iff split: if_splits)
  obtain g ts' t3 where g: "CapTable_grant TokenStats_zero (snd (CapTable_remove ?t2 (ObjectId 7))) (ObjectId 7)
      Rights_ALL Device = (g, ts', t3)" by (metis prod_cases3)
  have "fst (verify ts' t3 ?tok Rights_READ_WRITE) = Ok ()"
    using remove_regrant_resurrects [OF v f g, of ?tok Rights_READ_WRITE]
    by (simp add: Rights_contains_def Rights_ALL_def)
  moreover obtain i where i: "find_slot ?t2 (ObjectId 7) = Some i" using f by auto
  have "ts' = ts"
    using g t1(1) new_find_free_slot [of "ObjectId 7"] remove_find_free_slot [OF i]
    by (auto simp: CapTable_grant_def CapToken_new_def Let_def split: prod.splits if_splits)
  ultimately show ?thesis using t1(1) d g by blast
qed


text \<open>
  C10: delegation does not amplify rights held by an up-to-date token.  If the source token's
  declared rights are those stored for its object, a successful delegation issues a token for
  the same object whose rights are a subset of the stored ones, binds exactly that token in
  the target table, and leaves the entries of the source table alone.
\<close>

theorem delegation_no_amplification:
  assumes "CapTable_wf t" "CapTable_abs s (tok_object_id tok) = Some v" "tok_rights tok = ev_rights v"
    and "delegate ts s tok t r = (Ok tok', ts', s', t')"
  shows "Rights_contains (ev_rights v) Rights_DELEGATE \<and> Rights_is_subset_of r (ev_rights v) \<and>
    tok_object_id tok' = tok_object_id tok \<and> tok_rights tok' = r \<and>
    ct_entries s' = ct_entries s \<and>
    CapTable_abs t' = spec_grant (CapTable_abs t) (tok_object_id tok) r (tok_type_tag tok) \<and>
    (fst (verify ts' t' tok' req) = Ok () \<longleftrightarrow> Rights_contains r req)"
proof -
  have ok: "fst (delegate ts s tok t r) = Ok tok'" using assms(4) by simp
  note d = ok [unfolded delegate_ok_iff]
  have v: "ObjectId_is_valid (tok_object_id tok)" using assms(2) by (auto simp: abs_eq split: if_splits)
  have t': "t' = snd (snd (CapTable_grant (stat_verified ts) t (tok_object_id tok) r (tok_type_tag tok)))"
    using delegate_ok_target [OF ok] assms(4) by simp
  have a: "CapTable_abs t' = spec_grant (CapTable_abs t) (tok_object_id tok) r (tok_type_tag tok)"
    and tk: "tok' = \<lparr>tok_object_id = tok_object_id tok, tok_rights = r,
      tok_generation = spec_generation (CapTable_abs t) (tok_object_id tok), tok_type_tag = tok_type_tag tok\<rparr>"
    using ct.grant_ok [of "(stat_verified ts, t)" "tok_object_id tok" r "tok_type_tag tok" tok'] assms(1) v d
    by (simp_all add: cap_grant_def t')
  have "s' = snd (CapTable_get s (tok_object_id tok))"
    using delegate_source [of ts s tok t r] assms(4) by simp
  moreover have "Rights_contains (ev_rights v) Rights_DELEGATE"
    using d assms(2) by (auto simp: access_spec_def)
  moreover have "fst (verify ts' t' tok' req) = Ok () \<longleftrightarrow> Rights_contains r req"
    using a tk by (simp add: verify_result access_spec_def spec_grant_def)
  ultimately show ?thesis using d a tk assms(3) by simp
qed

theorem delegation_no_amplification_witness:
  "\<exists>s tok ts' s' t' tok'. delegate TokenStats_zero s tok CapTable_new Rights_READ = (Ok tok', ts', s', t') \<and>
     fst (verify ts' t' tok' Rights_READ) = Ok () \<and> fst (verify ts' t' tok' Rights_WRITE) \<noteq> Ok ()"
proof -
  let ?r = "Rights_union Rights_READ Rights_DELEGATE"
  let ?tok = "\<lparr>tok_object_id = ObjectId 7, tok_rights = ?r, tok_generation = 0, tok_type_tag = Device\<rparr>"
  have v: "ObjectId_is_valid (ObjectId 7)" by (simp add: ObjectId_is_valid_def)
  obtain ts s where s: "CapTable_wf s" "CapTable_abs s = [ObjectId 7 \<mapsto> \<lparr>ev_rights = ?r, ev_generation = 0, ev_type_tag = Device\<rparr>]"
    using new_grant [OF v] by metis
  obtain ts2 t2 where g: "CapTable_grant (stat_verified TokenStats_zero) CapTable_new (ObjectId 7) Rights_READ Device =
      (Ok \<lparr>tok_object_id = ObjectId 7, tok_rights = Rights_READ, tok_generation = 0, tok_type_tag = Device\<rparr>, ts2, t2)"
    using new_grant [OF v] by metis
  have r: "Rights_contains ?r Rights_DELEGATE" "Rights_is_subset_of Rights_READ ?r"
    by (simp_all add: Rights_contains_def Rights_is_subset_of_def Rights_union_def Rights_const_defs)
  obtain tok' where "fst (delegate TokenStats_zero s ?tok CapTable_new Rights_READ) = Ok tok'"
    using g r s(2) by (simp add: delegate_ok_iff access_spec_def)
  then obtain ts' s' t' where d: "delegate TokenStats_zero s ?tok CapTable_new Rights_READ = (Ok tok', ts', s', t')"
    by (cases "delegate TokenStats_zero s ?tok CapTable_new Rights_READ") auto
  have sv: "CapTable_abs s (tok_object_id ?tok) = Some \<lparr>ev_rights = ?r, ev_generation = 0, ev_type_tag = Device\<rparr>"
    using s(2) by simp
  note dl = delegation_no_amplification [OF new_wf sv _ d]
  have "\<not> Rights_contains Rights_READ Rights_WRITE" by (simp add: Rights_contains_def Rights_const_defs)
  then have "fst (verify ts' t' tok' Rights_READ) = Ok ()" "fst (verify ts' t' tok' Rights_WRITE) \<noteq> Ok ()"
    using dl [of Rights_READ] dl [of Rights_WRITE] by simp_all
  then show ?thesis using d by blast
qed

text \<open>
  delegation trusts the rights written in the token, not the stored ones.  After an object
  granted with all rights is granted again with only \<open>DELEGATE\<close>, its first token still verifies
  for delegation and hands \<open>WRITE\<close> to another table, although the source table itself refuses
  \<open>WRITE\<close> to that token.
\<close>

theorem delegate_exceeds_stored_rights:
  "let (g1, ts1, t1) = CapTable_grant ts CapTable_new (ObjectId 7) Rights_ALL FileInode;
       t2 = snd (snd (CapTable_grant ts1 t1 (ObjectId 7) Rights_DELEGATE FileInode));
       tok = projr g1;
       (g3, ts3, s3, t3) = delegate ts1 t2 tok CapTable_new Rights_WRITE
   in fst (verify ts1 t2 tok Rights_WRITE) = Err Denied \<and> is_ok g3 \<and>
      fst (verify ts3 t3 (projr g3) Rights_WRITE) = Ok ()"
proof -
  let ?tok = "\<lparr>tok_object_id = ObjectId 7, tok_rights = Rights_ALL, tok_generation = 0, tok_type_tag = FileInode\<rparr>"
  have v: "ObjectId_is_valid (ObjectId 7)" by (simp add: ObjectId_is_valid_def)
  obtain ts1 t1 where g1: "CapTable_grant ts CapTable_new (ObjectId 7) Rights_ALL FileInode = (Ok ?tok, ts1, t1)"
    and t1: "CapTable_wf t1" "CapTable_abs t1 = [ObjectId 7 \<mapsto> \<lparr>ev_rights = Rights_ALL, ev_generation = 0, ev_type_tag = FileInode\<rparr>]"
    by (rule new_grant [OF v, of ts Rights_ALL FileInode])
  let ?t2 = "snd (snd (CapTable_grant ts1 t1 (ObjectId 7) Rights_DELEGATE FileInode))"
  obtain i where "find_slot t1 (ObjectId 7) = Some i"
    using t1(2) v by (auto simp: abs_eq fun_eq_iff split: if_splits)
  then have ne: "find_free_slot t1 (ObjectId 7) \<noteq> None"
    unfolding find_free_slot_None_iff using find_slot_less find_slot_stored by blast
  then have a2: "CapTable_abs ?t2 = [ObjectId 7 \<mapsto> \<lparr>ev_rights = Rights_DELEGATE, ev_generation = 0, ev_type_tag = FileInode\<rparr>]"
    using grant_abs_eq [OF t1(1) v] t1(2) by (auto simp: spec_grant_def spec_generation_def)
  have r: "\<not> Rights_contains Rights_DELEGATE Rights_WRITE" "Rights_is_subset_of Rights_WRITE Rights_ALL"
    "\<not> Rights_contains Rights_WRITE Rights_GRANT"
    by (simp_all add: Rights_contains_def Rights_is_subset_of_def Rights_const_defs)
  have w: "fst (verify ts1 ?t2 ?tok Rights_WRITE) = Err Denied"
    by (simp add: verify_result access_spec_def a2 r)
  obtain ts4 t4 where g4: "CapTable_grant (stat_verified ts1) CapTable_new (ObjectId 7) Rights_WRITE FileInode =
      (Ok \<lparr>tok_object_id = ObjectId 7, tok_rights = Rights_WRITE, tok_generation = 0, tok_type_tag = FileInode\<rparr>, ts4, t4)"
    and t4: "CapTable_abs t4 = [ObjectId 7 \<mapsto> \<lparr>ev_rights = Rights_WRITE, ev_generation = 0, ev_type_tag = FileInode\<rparr>]"
    by (rule new_grant [OF v, of "stat_verified ts1" Rights_WRITE FileInode])
  have "delegate ts1 ?t2 ?tok CapTable_new Rights_WRITE =
      (Ok \<lparr>tok_object_id = ObjectId 7, tok_rights = Rights_WRITE, tok_generation = 0, tok_type_tag = FileInode\<rparr>,
       ts4, snd (CapTable_get ?t2 (ObjectId 7)), t4)"
    using g4 r by (simp add: delegate_def verify_eq access_spec_def a2)
  then show ?thesis using g1 w t4 by (simp add: verify_result access_spec_def)
qed

text \<open>
  C27: fork-time inheritance.  The child table of \<open>inherit_from_masked\<close> satisfies the invariant
  and accepts a token exactly when the parent does and the request avoids the stripped rights
  on objects of the stripped type; \<open>inherit_from\<close> gives the parent's verdicts unchanged.
\<close>

theorem inherited_verdicts:
  assumes "CapTable_wf p"
  shows "CapTable_wf (CapTable_inherit_from_masked p sr st) \<and> CapTable_wf (CapTable_inherit_from p) \<and>
    (fst (verify ts (CapTable_inherit_from_masked p sr st) tok req) = Ok () \<longleftrightarrow>
       fst (verify ts p tok req) = Ok () \<and>
       (\<forall>v. CapTable_abs p (tok_object_id tok) = Some v \<and> ev_type_tag v = st \<longrightarrow>
          Rights_intersect req sr = Rights_NONE)) \<and>
    fst (verify ts (CapTable_inherit_from p) tok req) = fst (verify ts p tok req)"
proof -
  have none: "masked_view Rights_NONE Invalid v = v" for v
    by (simp add: masked_view_def Rights_without_def Rights_NONE_def)
  have inh: "CapTable_abs (CapTable_inherit_from p) oid = CapTable_abs p oid" for oid
    by (cases "CapTable_abs p oid") (simp_all add: inherit_is_masked_none masked_abs [OF assms] none)
  show ?thesis
    by (cases "CapTable_abs p (tok_object_id tok)")
      (auto simp: inherit_is_masked_none [symmetric] masked_wf assms verify_result access_spec_def
        masked_abs [OF assms] masked_view_def inh Rights_contains_without_iff
        masked_wf [OF assms, of Rights_NONE Invalid, folded inherit_is_masked_none])
qed

theorem inherited_verdicts_witness:
  "\<exists>p tok. fst (verify TokenStats_zero p tok Rights_WRITE) = Ok () \<and>
     fst (verify TokenStats_zero (CapTable_inherit_from_masked p Rights_WRITE Device) tok Rights_READ) = Ok () \<and>
     fst (verify TokenStats_zero (CapTable_inherit_from_masked p Rights_WRITE Device) tok Rights_WRITE) \<noteq> Ok ()"
proof -
  let ?tok = "\<lparr>tok_object_id = ObjectId 7, tok_rights = Rights_ALL, tok_generation = 0, tok_type_tag = Device\<rparr>"
  let ?v = "\<lparr>ev_rights = Rights_ALL, ev_generation = 0, ev_type_tag = Device\<rparr>"
  have v: "ObjectId_is_valid (ObjectId 7)" by (simp add: ObjectId_is_valid_def)
  obtain p where p: "CapTable_wf p" "CapTable_abs p = [ObjectId 7 \<mapsto> ?v]"
    using new_grant [OF v, of _ Rights_ALL Device] by metis
  have r: "Rights_contains Rights_ALL q" for q by (simp add: Rights_contains_def Rights_ALL_def)
  have ok: "fst (verify TokenStats_zero p ?tok q) = Ok ()" for q
    by (simp add: verify_result access_spec_def p r)
  have i: "Rights_intersect Rights_READ Rights_WRITE = Rights_NONE"
    "Rights_intersect Rights_WRITE Rights_WRITE \<noteq> Rights_NONE"
    by (simp_all add: Rights_intersect_def Rights_const_defs)
  have "fst (verify TokenStats_zero (CapTable_inherit_from_masked p Rights_WRITE Device) ?tok Rights_READ) = Ok ()"
    using inherited_verdicts [OF p(1), of Rights_WRITE Device TokenStats_zero ?tok Rights_READ] ok i(1) by simp
  moreover have "fst (verify TokenStats_zero (CapTable_inherit_from_masked p Rights_WRITE Device) ?tok Rights_WRITE) \<noteq> Ok ()"
    using inherited_verdicts [OF p(1), of Rights_WRITE Device TokenStats_zero ?tok Rights_WRITE] p(2) i(2) by auto
  ultimately show ?thesis using ok [of Rights_WRITE] by blast
qed

text \<open>
  C28: a grant fails only when it must.  It returns \<open>TableFull\<close>, with the table and the token
  counters unchanged, exactly when all 512 slots are used and none holds the object; otherwise
  it succeeds.
\<close>

theorem grant_fails_iff_full:
  "CapTable_grant ts t oid r ty = (Err TableFull, ts, t) \<and>
     used_slots t = {..<512} \<and> oid_raw oid \<notin> (\<lambda>i. ce_object_id (ct_entries t i)) ` {..<512}
   \<or> is_ok (fst (CapTable_grant ts t oid r ty)) \<and>
     (used_slots t \<subset> {..<512} \<or> oid_raw oid \<in> (\<lambda>i. ce_object_id (ct_entries t i)) ` {..<512})"
proof (cases "find_free_slot t oid")
  case None
  then show ?thesis using None [unfolded find_free_slot_None_iff]
    by (auto simp: grant_None used_slots_def)
next
  case (Some i)
  then obtain j where j: "j < 512"
    "ce_object_id (ct_entries t j) = SLOT_FREE \<or> ce_object_id (ct_entries t j) = oid_raw oid"
    using find_free_slot_None_iff [of t oid] by auto
  have "j \<notin> used_slots t" if "ce_object_id (ct_entries t j) = SLOT_FREE" using that by (simp add: used_slots_def)
  moreover have "used_slots t \<subseteq> {..<512}" by (auto simp: used_slots_def)
  ultimately have "used_slots t \<subset> {..<512} \<or> oid_raw oid \<in> (\<lambda>i. ce_object_id (ct_entries t i)) ` {..<512}"
    using j by (metis imageI lessThan_iff psubsetI)
  then show ?thesis using grant_Some(3) [OF Some] by simp
qed

end
