(* ===== verification/Ipc_Policy.thy ===== *)
theory Ipc_Policy
  imports Exo_Prelude
begin

text \<open>
  The direct-IPC policy between Ring 1 services (\<open>kernel/src/security/ipc_policy.rs\<close>) and the
  trusted-pid mask it maintains (\<open>kernel/src/security/zero_trust/verify.rs\<close>).  The registry is
  the source's array of sixteen optional entries; the service token checked by
  \<open>register_service\<close> is the one of \<open>libs/exo_types/src/cap.rs\<close>.
\<close>

section \<open>Definitions\<close>

type_synonym pid = u32

datatype IpcPolicyResult = Allowed | PolicyDenied | UnknownService

datatype ServiceClass = InitServer | IpcBroker | MemoryServer | VfsServer | CryptoServer
  | DeviceServer | NetworkServer | SchedulerServer | InputServer | TtyServer | FbServer
  | Ps2Driver | VirtioDriver | ExoShield | Exosh | Unknown

record ServiceEntry =
  se_pid :: pid
  se_class :: ServiceClass

record policy_state =
  service_registry :: "ServiceEntry option list"
  ring1_trusted_mask :: u64

definition INIT_SERVER_PID :: pid where [simp]: "INIT_SERVER_PID = 1"
definition IPC_BROKER_PID :: pid where [simp]: "IPC_BROKER_PID = 2"
definition MAX_REGISTERED_SERVICES :: nat where "MAX_REGISTERED_SERVICES = 16"

definition policy_boot :: policy_state where
  "policy_boot = \<lparr>service_registry = replicate MAX_REGISTERED_SERVICES None,
     ring1_trusted_mask = push_bit 1 1 OR push_bit 2 1\<rparr>"

definition POLICY :: "(ServiceClass \<times> ServiceClass) list" where
  "POLICY =
    [(InitServer, MemoryServer),
     (MemoryServer, InitServer),
     (InitServer, VfsServer),
     (VfsServer, InitServer),
     (InitServer, CryptoServer),
     (CryptoServer, InitServer),
     (InitServer, DeviceServer),
     (DeviceServer, InitServer),
     (InitServer, SchedulerServer),
     (SchedulerServer, InitServer),
     (InitServer, ExoShield),
     (ExoShield, InitServer),
     (VfsServer, CryptoServer),
     (CryptoServer, VfsServer),
     (VfsServer, NetworkServer),
     (NetworkServer, VfsServer),
     (DeviceServer, VirtioDriver),
     (VirtioDriver, DeviceServer),
     (DeviceServer, InputServer),
     (InputServer, DeviceServer),
     (DeviceServer, Ps2Driver),
     (Ps2Driver, DeviceServer),
     (Ps2Driver, InputServer),
     (InputServer, Ps2Driver),
     (InputServer, TtyServer),
     (TtyServer, InputServer),
     (TtyServer, FbServer),
     (FbServer, TtyServer),
     (DeviceServer, FbServer),
     (FbServer, DeviceServer),
     (TtyServer, VfsServer),
     (VfsServer, TtyServer),
     (ExoShield, CryptoServer),
     (CryptoServer, ExoShield),
     (ExoShield, InputServer),
     (InputServer, ExoShield),
     (ExoShield, TtyServer),
     (TtyServer, ExoShield),
     (Exosh, IpcBroker),
     (Exosh, CryptoServer),
     (CryptoServer, Exosh),
     (Exosh, InputServer),
     (InputServer, Exosh),
     (Exosh, TtyServer),
     (TtyServer, Exosh),
     (Exosh, ExoShield),
     (ExoShield, Exosh),
     (NetworkServer, DeviceServer),
     (DeviceServer, NetworkServer),
     (NetworkServer, VirtioDriver),
     (VirtioDriver, NetworkServer)]"

definition ring1_bit :: "pid \<Rightarrow> u64 option" where
  "ring1_bit p = (if p < 64 then Some (push_bit (unat p) 1) else None)"

definition register_ring1_pid :: "pid \<Rightarrow> u64 \<Rightarrow> u64" where
  "register_ring1_pid p m = (case ring1_bit p of Some b \<Rightarrow> m OR b | None \<Rightarrow> m)"

definition unregister_ring1_pid :: "pid \<Rightarrow> u64 \<Rightarrow> u64" where
  "unregister_ring1_pid p m = (case ring1_bit p of Some b \<Rightarrow> m AND NOT b | None \<Rightarrow> m)"

definition ring1_pair_trusted :: "policy_state \<Rightarrow> pid \<Rightarrow> pid \<Rightarrow> bool" where
  "ring1_pair_trusted st sender receiver =
    (case ring1_bit sender of None \<Rightarrow> False
     | Some sb \<Rightarrow> (case ring1_bit receiver of None \<Rightarrow> False
        | Some rb \<Rightarrow> ring1_trusted_mask st AND sb \<noteq> 0 \<and> ring1_trusted_mask st AND rb \<noteq> 0))"

primrec is_ring1_trusted_class :: "ServiceClass \<Rightarrow> bool" where
  "is_ring1_trusted_class InitServer = True"
| "is_ring1_trusted_class IpcBroker = True"
| "is_ring1_trusted_class MemoryServer = True"
| "is_ring1_trusted_class VfsServer = True"
| "is_ring1_trusted_class CryptoServer = True"
| "is_ring1_trusted_class DeviceServer = True"
| "is_ring1_trusted_class NetworkServer = True"
| "is_ring1_trusted_class SchedulerServer = True"
| "is_ring1_trusted_class InputServer = True"
| "is_ring1_trusted_class TtyServer = True"
| "is_ring1_trusted_class FbServer = True"
| "is_ring1_trusted_class Ps2Driver = True"
| "is_ring1_trusted_class VirtioDriver = True"
| "is_ring1_trusted_class ExoShield = True"
| "is_ring1_trusted_class Exosh = False"
| "is_ring1_trusted_class Unknown = False"

text \<open>The first pass of the registration: reclassify the first entry of the pid.\<close>

fun reclass :: "pid \<Rightarrow> ServiceClass \<Rightarrow> ServiceEntry option list
    \<Rightarrow> (ServiceClass \<times> ServiceEntry option list) option" where
  "reclass p c [] = None"
| "reclass p c (slot # reg) =
    (case slot of
       Some e \<Rightarrow>
         if se_pid e = p then Some (se_class e, Some (e\<lparr>se_class := c\<rparr>) # reg)
         else map_option (\<lambda>(old, reg'). (old, slot # reg')) (reclass p c reg)
     | None \<Rightarrow> map_option (\<lambda>(old, reg'). (old, slot # reg')) (reclass p c reg))"

text \<open>The second pass: fill the first empty slot.\<close>

fun fill_slot :: "ServiceEntry \<Rightarrow> ServiceEntry option list \<Rightarrow> ServiceEntry option list option" where
  "fill_slot e [] = None"
| "fill_slot e (slot # reg) =
    (if slot = None then Some (Some e # reg) else map_option (\<lambda>reg'. slot # reg') (fill_slot e reg))"

definition register_service_class :: "policy_state \<Rightarrow> pid \<Rightarrow> ServiceClass \<Rightarrow> bool \<times> policy_state" where
  "register_service_class st p c =
    (if p = INIT_SERVER_PID \<or> p = IPC_BROKER_PID \<or> c = InitServer \<or> c = IpcBroker \<or> c = Unknown
     then (False, st)
     else case reclass p c (service_registry st) of
       Some (old, reg) \<Rightarrow>
         let m = ring1_trusted_mask st;
             m = (if is_ring1_trusted_class old \<and> \<not> is_ring1_trusted_class c
                  then unregister_ring1_pid p m else m);
             m = (if is_ring1_trusted_class c then register_ring1_pid p m else m)
         in (True, st\<lparr>service_registry := reg, ring1_trusted_mask := m\<rparr>)
     | None \<Rightarrow>
        (case fill_slot \<lparr>se_pid = p, se_class = c\<rparr> (service_registry st) of
           Some reg \<Rightarrow>
             (True, st\<lparr>service_registry := reg,
                ring1_trusted_mask := (if is_ring1_trusted_class c
                  then register_ring1_pid p (ring1_trusted_mask st) else ring1_trusted_mask st)\<rparr>)
         | None \<Rightarrow> (False, st)))"

fun take_slot :: "pid \<Rightarrow> ServiceEntry option list \<Rightarrow> (ServiceClass \<times> ServiceEntry option list) option" where
  "take_slot p [] = None"
| "take_slot p (slot # reg) =
    (case slot of
       Some e \<Rightarrow>
         if se_pid e \<noteq> p then map_option (\<lambda>(c, reg'). (c, slot # reg')) (take_slot p reg)
         else Some (se_class e, None # reg)
     | None \<Rightarrow> map_option (\<lambda>(c, reg'). (c, slot # reg')) (take_slot p reg))"

definition unregister_service :: "policy_state \<Rightarrow> pid \<Rightarrow> bool \<times> policy_state" where
  "unregister_service st p =
    (case take_slot p (service_registry st) of
       Some (c, reg) \<Rightarrow>
         (True, st\<lparr>service_registry := reg,
            ring1_trusted_mask := (if is_ring1_trusted_class c
              then unregister_ring1_pid p (ring1_trusted_mask st) else ring1_trusted_mask st)\<rparr>)
     | None \<Rightarrow> (False, st))"

definition registered_class :: "policy_state \<Rightarrow> pid \<Rightarrow> ServiceClass option" where
  "registered_class st p =
     map_option se_class (find (\<lambda>e. se_pid e = p) (List.map_filter (\<lambda>s. s) (service_registry st)))"

definition class_of :: "policy_state \<Rightarrow> pid \<Rightarrow> ServiceClass" where
  "class_of st p =
    (if p = INIT_SERVER_PID then InitServer
     else if p = IPC_BROKER_PID then IpcBroker
     else (case registered_class st p of Some c \<Rightarrow> c | None \<Rightarrow> Unknown))"

definition can_inject_src_pid :: "policy_state \<Rightarrow> pid \<Rightarrow> bool" where
  "can_inject_src_pid st p = is_ring1_trusted_class (class_of st p)"

definition check_direct_ipc :: "policy_state \<Rightarrow> pid \<Rightarrow> pid \<Rightarrow> IpcPolicyResult" where
  "check_direct_ipc st src dst =
    (let src_class = class_of st src; dst_class = class_of st dst in
     if src_class = Unknown \<or> dst_class = Unknown then UnknownService
     else if src_class = IpcBroker then Allowed
     else if list_ex (\<lambda>(a, b). a = src_class \<and> b = dst_class) POLICY then Allowed
     else PolicyDenied)"

text \<open>Service tokens of the ABI crate and registration by token.\<close>

datatype CapabilityType = IpcBrokerCap | MemoryServerCap | DriverPci | SysDeviceAdmin | ExoFsAccess
  | CryptoServerCap | ExoPhoenix | VfsServerCap | SchedulerServerCap

record AbiCapToken =
  abi_generation :: u64
  abi_object_id :: "u8 list"
  abi_rights :: u32
  abi_type_id :: u16
  abi_pad :: "u8 list"

definition ZERO_BLOB_ID_4K :: "u8 list" where
  "ZERO_BLOB_ID_4K =
    [0xaf, 0x13, 0x49, 0xb9, 0xf5, 0xf9, 0xa1, 0xa6, 0xa0, 0x40, 0x4d, 0xea, 0x36, 0xdb, 0xc9, 0xab,
     0x14, 0x46, 0x34, 0x66, 0x0a, 0x71, 0x38, 0x5f, 0x02, 0x28, 0xe7, 0xd7, 0x0b, 0xce, 0xe1, 0x07]"

definition AbiObjectId_is_valid :: "u8 list \<Rightarrow> bool" where
  "AbiObjectId_is_valid b =
    (if b = replicate 32 0 then False
     else if b = ZERO_BLOB_ID_4K then True
     else list_all (\<lambda>x. x = 0) (drop 8 b))"

definition CapabilityType_from_u16 :: "u16 \<Rightarrow> CapabilityType option" where
  "CapabilityType_from_u16 v =
    (if v = 1 then Some IpcBrokerCap
     else if v = 2 then Some MemoryServerCap
     else if v = 3 then Some DriverPci
     else if v = 4 then Some SysDeviceAdmin
     else if v = 5 then Some ExoFsAccess
     else if v = 6 then Some CryptoServerCap
     else if v = 7 then Some ExoPhoenix
     else if v = 8 then Some VfsServerCap
     else if v = 9 then Some SchedulerServerCap
     else None)"

primrec class_from_capability :: "CapabilityType \<Rightarrow> ServiceClass" where
  "class_from_capability IpcBrokerCap = IpcBroker"
| "class_from_capability MemoryServerCap = MemoryServer"
| "class_from_capability DriverPci = VirtioDriver"
| "class_from_capability SysDeviceAdmin = DeviceServer"
| "class_from_capability ExoFsAccess = VfsServer"
| "class_from_capability VfsServerCap = VfsServer"
| "class_from_capability CryptoServerCap = CryptoServer"
| "class_from_capability ExoPhoenix = ExoShield"
| "class_from_capability SchedulerServerCap = SchedulerServer"

definition register_service :: "policy_state \<Rightarrow> pid \<Rightarrow> AbiCapToken \<Rightarrow> bool \<times> policy_state" where
  "register_service st p cap =
    (if abi_generation cap = 0 \<or> abi_pad cap \<noteq> [0, 0] \<or> \<not> AbiObjectId_is_valid (abi_object_id cap)
        \<or> abi_rights cap = 0 \<or> abi_rights cap AND NOT 0x1F \<noteq> 0
     then (False, st)
     else case CapabilityType_from_u16 (abi_type_id cap) of
       None \<Rightarrow> (False, st)
     | Some ty \<Rightarrow> register_service_class st p (class_from_capability ty))"

inductive policy_reachable :: "policy_state \<Rightarrow> bool" where
  boot: "policy_reachable policy_boot"
| register: "policy_reachable st \<Longrightarrow> policy_reachable (snd (register_service_class st p c))"
| register_token: "policy_reachable st \<Longrightarrow> policy_reachable (snd (register_service st p cap))"
| unregister: "policy_reachable st \<Longrightarrow> policy_reachable (snd (unregister_service st p))"

section \<open>The registry as a map\<close>

definition reg_pids :: "ServiceEntry option list \<Rightarrow> pid list" where
  "reg_pids reg = map se_pid (List.map_filter (\<lambda>s. s) reg)"

definition reg_lookup :: "ServiceEntry option list \<Rightarrow> pid \<Rightarrow> ServiceClass option" where
  "reg_lookup reg p = map_option se_class (find (\<lambda>e. se_pid e = p) (List.map_filter (\<lambda>s. s) reg))"

lemma reg_pids_simps [simp]:
  "reg_pids [] = []"
  "reg_pids (None # reg) = reg_pids reg"
  "reg_pids (Some e # reg) = se_pid e # reg_pids reg"
  by (simp_all add: reg_pids_def List.map_filter_simps)

lemma reg_lookup_simps [simp]:
  "reg_lookup [] p = None"
  "reg_lookup (None # reg) p = reg_lookup reg p"
  "reg_lookup (Some e # reg) p = (if se_pid e = p then Some (se_class e) else reg_lookup reg p)"
  by (simp_all add: reg_lookup_def List.map_filter_simps)

lemma reg_lookup_None_iff: "reg_lookup reg p = None \<longleftrightarrow> p \<notin> set (reg_pids reg)"
  by (induction reg rule: option_list_induct) auto

lemma reclass_None: "reclass p c reg = None \<Longrightarrow> reg_lookup reg p = None"
  by (induction reg rule: option_list_induct) (auto split: option.splits if_splits)

lemma reclass_Some:
  assumes "reclass p c reg = Some (old, reg')"
  shows "reg_lookup reg p = Some old" "reg_pids reg' = reg_pids reg"
    "reg_lookup reg' q = (if q = p then Some c else reg_lookup reg q)"
proof -
  have "reg_lookup reg p = Some old \<and> reg_pids reg' = reg_pids reg \<and>
      reg_lookup reg' q = (if q = p then Some c else reg_lookup reg q)"
    using assms
  proof (induction reg arbitrary: reg' rule: option_list_induct)
    case (None reg)
    then obtain r where r: "reclass p c reg = Some (old, r)" "reg' = None # r" by auto
    show ?case using None.IH [OF r(1)] r(2) by simp
  next
    case (Some e reg)
    show ?case
    proof (cases "se_pid e = p")
      case True
      then show ?thesis using Some.prems by auto
    next
      case False
      then obtain r where r: "reclass p c reg = Some (old, r)" "reg' = Some e # r"
        using Some.prems by auto
      show ?thesis using Some.IH [OF r(1)] r(2) False by auto
    qed
  qed simp
  then show "reg_lookup reg p = Some old" "reg_pids reg' = reg_pids reg"
    "reg_lookup reg' q = (if q = p then Some c else reg_lookup reg q)" by auto
qed

lemma fill_slot_Some:
  assumes "fill_slot e reg = Some reg'" "se_pid e \<notin> set (reg_pids reg)"
  shows "set (reg_pids reg') = insert (se_pid e) (set (reg_pids reg))"
    "distinct (reg_pids reg) \<Longrightarrow> distinct (reg_pids reg')"
    "reg_lookup reg' q = (if q = se_pid e then Some (se_class e) else reg_lookup reg q)"
proof -
  have "set (reg_pids reg') = insert (se_pid e) (set (reg_pids reg)) \<and>
      (distinct (reg_pids reg) \<longrightarrow> distinct (reg_pids reg')) \<and>
      reg_lookup reg' q = (if q = se_pid e then Some (se_class e) else reg_lookup reg q)"
    using assms
  proof (induction reg arbitrary: reg' rule: option_list_induct)
    case (None reg)
    show ?case using None.prems by auto
  next
    case (Some x reg)
    then obtain r where r: "fill_slot e reg = Some r" "reg' = Some x # r" by auto
    show ?case using Some.IH [OF r(1)] Some.prems r(2) by auto
  qed simp
  then show "set (reg_pids reg') = insert (se_pid e) (set (reg_pids reg))"
    "distinct (reg_pids reg) \<Longrightarrow> distinct (reg_pids reg')"
    "reg_lookup reg' q = (if q = se_pid e then Some (se_class e) else reg_lookup reg q)" by auto
qed

lemma take_slot_Some:
  assumes "take_slot p reg = Some (c, reg')" "distinct (reg_pids reg)"
  shows "reg_lookup reg p = Some c" "set (reg_pids reg') = set (reg_pids reg) - {p}"
    "distinct (reg_pids reg')" "reg_lookup reg' q = (if q = p then None else reg_lookup reg q)"
proof -
  have "reg_lookup reg p = Some c \<and> set (reg_pids reg') = set (reg_pids reg) - {p} \<and>
      distinct (reg_pids reg') \<and> reg_lookup reg' q = (if q = p then None else reg_lookup reg q)"
    using assms
  proof (induction reg arbitrary: reg' rule: option_list_induct)
    case (None reg)
    then obtain r where r: "take_slot p reg = Some (c, r)" "reg' = None # r" by auto
    show ?case using None.IH [OF r(1)] None.prems(2) r(2) by simp
  next
    case (Some x reg)
    show ?case
    proof (cases "se_pid x = p")
      case True
      then have "reg_lookup reg p = None" using Some.prems(2) by (auto simp: reg_lookup_None_iff)
      then show ?thesis using True Some.prems by auto
    next
      case False
      then obtain r where r: "take_slot p reg = Some (c, r)" "reg' = Some x # r"
        using Some.prems(1) by auto
      have ih: "reg_lookup reg p = Some c" "set (reg_pids r) = set (reg_pids reg) - {p}"
        "distinct (reg_pids r)" "reg_lookup r q = (if q = p then None else reg_lookup reg q)"
        using Some.IH [OF r(1)] Some.prems(2) by simp_all
      then have "se_pid x \<notin> set (reg_pids r)" using Some.prems(2) by simp
      moreover have "set (reg_pids reg') = set (reg_pids (Some x # reg)) - {p}"
        unfolding r(2) reg_pids_simps list.set ih(2) using False by blast
      ultimately show ?thesis using r(2) False ih(1,3,4) by (cases "q = p") simp_all
    qed
  qed simp
  then show "reg_lookup reg p = Some c" "set (reg_pids reg') = set (reg_pids reg) - {p}"
    "distinct (reg_pids reg')" "reg_lookup reg' q = (if q = p then None else reg_lookup reg q)" by auto
qed

lemma take_slot_None: "take_slot p reg = None \<Longrightarrow> reg_lookup reg p = None"
  by (induction reg rule: option_list_induct) (auto split: if_splits)

section \<open>The registry invariant\<close>

lemma registered_class_eq: "registered_class st p = reg_lookup (service_registry st) p"
  by (simp add: registered_class_def reg_lookup_def)

definition mask_agrees :: "policy_state \<Rightarrow> bool" where
  "mask_agrees st \<longleftrightarrow> (\<forall>p<64. bit (ring1_trusted_mask st) (unat p) \<longleftrightarrow> can_inject_src_pid st p)"

definition policy_wf :: "policy_state \<Rightarrow> bool" where
  "policy_wf st \<longleftrightarrow> distinct (reg_pids (service_registry st)) \<and>
     set (reg_pids (service_registry st)) \<inter> {1, 2} = {} \<and> mask_agrees st"

lemma ring1_bits:
  assumes "p < 64" "q < 64"
  shows "bit (register_ring1_pid p m) (unat q) \<longleftrightarrow> q = p \<or> bit m (unat q)"
    and "bit (unregister_ring1_pid p m) (unat q) \<longleftrightarrow> q \<noteq> p \<and> bit m (unat q)"
proof -
  have lt: "unat p < 64" "unat q < 64" using assms by (simp_all add: word_less_nat_alt)
  have eq: "unat q = unat p \<longleftrightarrow> q = p" by (simp add: word_unat_eq_iff)
  show "bit (register_ring1_pid p m) (unat q) \<longleftrightarrow> q = p \<or> bit m (unat q)"
    using assms lt eq by (auto simp: register_ring1_pid_def ring1_bit_def bit_or_iff bit_exp_iff)
  show "bit (unregister_ring1_pid p m) (unat q) \<longleftrightarrow> q \<noteq> p \<and> bit m (unat q)"
    using assms lt eq
    by (auto simp: unregister_ring1_pid_def ring1_bit_def bit_and_iff bit_not_iff bit_exp_iff)
qed

lemma ring1_big:
  assumes "\<not> p < 64"
  shows "register_ring1_pid p m = m" "unregister_ring1_pid p m = m"
  using assms by (simp_all add: register_ring1_pid_def unregister_ring1_pid_def ring1_bit_def)

lemma register_mask:
  "q < 64 \<Longrightarrow> bit (register_ring1_pid p m) (unat q) \<longleftrightarrow> q = p \<or> bit m (unat q)"
  using ring1_bits(1) ring1_big(1) by (cases "p < 64") auto

lemma unregister_mask:
  "q < 64 \<Longrightarrow> bit (unregister_ring1_pid p m) (unat q) \<longleftrightarrow> q \<noteq> p \<and> bit m (unat q)"
  using ring1_bits(2) ring1_big(2) by (cases "p < 64") auto

text \<open>Every operation changes the class of at most one pid and sets its mask bit to match.\<close>

lemma mask_agreesI:
  assumes "mask_agrees st"
    and "\<And>q. q \<noteq> p \<Longrightarrow> class_of st' q = class_of st q"
    and "\<And>q. q < 64 \<Longrightarrow> bit (ring1_trusted_mask st') (unat q) \<longleftrightarrow>
      (if q = p then is_ring1_trusted_class (class_of st' p) else bit (ring1_trusted_mask st) (unat q))"
  shows "mask_agrees st'"
  using assms by (auto simp: mask_agrees_def can_inject_src_pid_def)

lemma mask_agreesD:
  "mask_agrees st \<Longrightarrow> q < 64 \<Longrightarrow> bit (ring1_trusted_mask st) (unat q) \<longleftrightarrow> is_ring1_trusted_class (class_of st q)"
  by (simp add: mask_agrees_def can_inject_src_pid_def)

lemma policy_wf_boot: "policy_wf policy_boot"
proof -
  have r: "reg_pids (replicate n None) = []" "reg_lookup (replicate n None) p = None" for n p
    by (induction n) simp_all
  have m: "bit (push_bit 1 1 OR push_bit 2 1 :: u64) (unat p) \<longleftrightarrow> p = 1 \<or> p = 2" if "p < 64" for p :: u32
  proof -
    have e: "unat p = Suc 0 \<longleftrightarrow> p = 1" "unat p = 2 \<longleftrightarrow> p = 2"
      by (simp_all add: word_unat_eq_iff [of p 1] word_unat_eq_iff [of p 2])
    have "(p = 1 \<or> p = 2) \<longleftrightarrow> unat p = 1 \<or> unat p = 2" using e by simp
    then show ?thesis unfolding bit_or_iff push_bit_of_1 bit_exp_iff by auto
  qed
  show ?thesis
    using m by (auto simp: policy_wf_def policy_boot_def r mask_agrees_def can_inject_src_pid_def
        class_of_def registered_class_eq)
qed

lemma register_wf [exo_inv]:
  assumes wf: "policy_wf st"
  shows "policy_wf (snd (register_service_class st p c))"
proof (cases "p = 1 \<or> p = 2 \<or> c = InitServer \<or> c = IpcBroker \<or> c = Unknown")
  case True
  then show ?thesis using wf by (auto simp: register_service_class_def)
next
  case False
  let ?st' = "snd (register_service_class st p c)"
  have agree: "mask_agrees st" and dist: "distinct (reg_pids (service_registry st))"
    and no12: "set (reg_pids (service_registry st)) \<inter> {1, 2} = {}" using wf by (auto simp: policy_wf_def)
  consider old reg where "reclass p c (service_registry st) = Some (old, reg)"
    | reg where "reclass p c (service_registry st) = None"
        "fill_slot \<lparr>se_pid = p, se_class = c\<rparr> (service_registry st) = Some reg"
    | "reclass p c (service_registry st) = None"
        "fill_slot \<lparr>se_pid = p, se_class = c\<rparr> (service_registry st) = None"
    by (metis option.exhaust surj_pair)
  then show ?thesis
  proof cases
    case 1
    note r = reclass_Some [OF 1]
    have cls: "class_of ?st' q = (if q = p then c else class_of st q)" for q
      using False 1 r(3) [of q]
      by (auto simp: register_service_class_def class_of_def registered_class_eq Let_def)
    have "class_of st p = old" using r(1) False by (simp add: class_of_def registered_class_eq)
    then have "mask_agrees ?st'"
      using cls False 1 mask_agreesD [OF agree]
      by (intro mask_agreesI [OF agree, of p])
        (auto simp: register_service_class_def Let_def register_mask unregister_mask)
    then show ?thesis using False 1 dist no12 r(2)
      by (simp add: policy_wf_def register_service_class_def Let_def)
  next
    case 2
    have np: "se_pid \<lparr>se_pid = p, se_class = c\<rparr> \<notin> set (reg_pids (service_registry st))"
      using reclass_None [OF 2(1)] by (simp add: reg_lookup_None_iff)
    note r = fill_slot_Some [OF 2(2) np]
    have cls: "class_of ?st' q = (if q = p then c else class_of st q)" for q
      using False 2 r(3) [of q]
      by (auto simp: register_service_class_def class_of_def registered_class_eq)
    have "class_of st p = Unknown"
      using reclass_None [OF 2(1)] False by (simp add: class_of_def registered_class_eq)
    then have "mask_agrees ?st'"
      using cls False 2 mask_agreesD [OF agree]
      by (intro mask_agreesI [OF agree, of p]) (auto simp: register_service_class_def register_mask)
    then show ?thesis using False 2 dist no12 r(1,2)
      by (simp add: policy_wf_def register_service_class_def)
  next
    case 3
    then show ?thesis using wf by (simp add: register_service_class_def)
  qed
qed

lemma register_token_wf [exo_inv]: "policy_wf st \<Longrightarrow> policy_wf (snd (register_service st p cap))"
  by (simp add: register_service_def register_wf split: option.splits)

lemma unregister_wf [exo_inv]:
  assumes wf: "policy_wf st"
  shows "policy_wf (snd (unregister_service st p))"
proof (cases "take_slot p (service_registry st)")
  case None
  then show ?thesis using wf by (simp add: unregister_service_def)
next
  case (Some x)
  then obtain c reg where x: "take_slot p (service_registry st) = Some (c, reg)" by (cases x) auto
  let ?st' = "snd (unregister_service st p)"
  have agree: "mask_agrees st" and dist: "distinct (reg_pids (service_registry st))"
    and no12: "set (reg_pids (service_registry st)) \<inter> {1, 2} = {}" using wf by (auto simp: policy_wf_def)
  note r = take_slot_Some [OF x dist]
  have p12: "p \<noteq> 1" "p \<noteq> 2" using r(1) no12 reg_lookup_None_iff [of "service_registry st" p] by auto
  have cls: "class_of ?st' q = (if q = p then Unknown else class_of st q)" for q
    using x r(4) [of q] p12 by (auto simp: unregister_service_def class_of_def registered_class_eq)
  have "class_of st p = c" using r(1) p12 by (simp add: class_of_def registered_class_eq)
  then have "mask_agrees ?st'"
    using cls x mask_agreesD [OF agree]
    by (intro mask_agreesI [OF agree, of p]) (auto simp: unregister_service_def unregister_mask)
  then show ?thesis using x r(2,3) no12 by (auto simp: policy_wf_def unregister_service_def)
qed

lemma policy_reachable_wf: "policy_reachable st \<Longrightarrow> policy_wf st"
  by (induction rule: policy_reachable.induct) (simp_all add: policy_wf_boot exo_inv)

section \<open>Properties\<close>

text \<open>
  C29: the fast-path mask is the registry.  In every state reachable by registrations and
  unregistrations, two processes are a trusted Ring 1 pair exactly when both pids are below 64
  and both belong to a trusted service class; no pid is registered twice, and the reserved pids
  of init and of the broker never enter the registry.
\<close>

theorem ring1_mask_is_registry:
  assumes "policy_reachable st"
  shows "(ring1_pair_trusted st a b \<longleftrightarrow>
      a < 64 \<and> b < 64 \<and> can_inject_src_pid st a \<and> can_inject_src_pid st b) \<and>
    distinct (reg_pids (service_registry st)) \<and> {1, 2} \<inter> set (reg_pids (service_registry st)) = {}"
proof -
  have "policy_wf st" using assms by (rule policy_reachable_wf)
  then have "mask_agrees st" "distinct (reg_pids (service_registry st))"
    "{1, 2} \<inter> set (reg_pids (service_registry st)) = {}" by (auto simp: policy_wf_def)
  then show ?thesis using bit_iff_and_push_bit_not_eq_0 [of "ring1_trusted_mask st"]
    by (auto simp: ring1_pair_trusted_def ring1_bit_def mask_agrees_def simp del: push_bit_of_1)
qed

theorem ring1_mask_is_registry_witness:
  "ring1_pair_trusted (snd (register_service_class policy_boot 7 VfsServer)) 1 7 \<and>
   \<not> ring1_pair_trusted (snd (register_service_class policy_boot 7 Exosh)) 1 7"
proof -
  have "can_inject_src_pid (snd (register_service_class policy_boot 7 VfsServer)) 7"
    "can_inject_src_pid (snd (register_service_class policy_boot 7 VfsServer)) 1"
    "\<not> can_inject_src_pid (snd (register_service_class policy_boot 7 Exosh)) 7"
    by code_simp+
  then show ?thesis
    using ring1_mask_is_registry [OF policy_reachable.register [OF policy_reachable.boot], of 7 VfsServer 1 7]
      ring1_mask_is_registry [OF policy_reachable.register [OF policy_reachable.boot], of 7 Exosh 1 7]
    by simp
qed

text \<open>
  C30: direct IPC is default-deny and answers can come back.  A pid that is neither reserved nor
  registered never gets a route in either direction, and outside the broker every allowed route
  has its reverse allowed.
\<close>

theorem direct_ipc_policy:
  assumes "check_direct_ipc st a b = Allowed"
  shows "class_of st a \<noteq> Unknown \<and> class_of st b \<noteq> Unknown \<and>
    (class_of st a \<noteq> IpcBroker \<and> class_of st b \<noteq> IpcBroker \<longrightarrow> check_direct_ipc st b a = Allowed)"
proof -
  have sym: "\<forall>(x, y) \<in> set POLICY. y = IpcBroker \<or> (y, x) \<in> set POLICY" by code_simp
  have "list_ex (\<lambda>(a, b). a = x \<and> b = y) POLICY \<longleftrightarrow> (x, y) \<in> set POLICY" for x y
    by (auto simp: list_ex_iff)
  then show ?thesis using assms sym
    by (auto simp: check_direct_ipc_def Let_def split: if_splits)
qed

theorem direct_ipc_policy_witness:
  "check_direct_ipc (snd (register_service_class policy_boot 7 VfsServer)) 1 7 = Allowed \<and>
   check_direct_ipc (snd (register_service_class policy_boot 7 VfsServer)) 7 1 = Allowed"
proof -
  have a: "check_direct_ipc (snd (register_service_class policy_boot 7 VfsServer)) 1 7 = Allowed"
    "class_of (snd (register_service_class policy_boot 7 VfsServer)) 1 = InitServer"
    "class_of (snd (register_service_class policy_boot 7 VfsServer)) 7 = VfsServer"
    by code_simp+
  show ?thesis using direct_ipc_policy [OF a(1)] a by simp
qed

end
