(* ===== verification/Cap_Service.thy ===== *)
theory Cap_Service
  imports Cap_Verify Ipc_Policy
begin

text \<open>
  The two clients of the capability table inside the capability module: namespaces
  (\<open>kernel/src/security/capability/namespace.rs\<close>) and the kernel-wide service capabilities
  behind the capability system calls (\<open>kernel/src/security/capability/mod.rs\<close>).  The service
  state gathers the module's statics; the time-to-live registration of the temporal
  capability subsystem is recorded as a log of its calls.
\<close>

section \<open>Namespaces\<close>

datatype NamespaceId = NamespaceId (nsid_raw: u32)

record CapNamespace =
  ns_id :: NamespaceId
  ns_table :: CapTable
  ns_id_counter :: u64
  ns_refcount :: u32

definition NamespaceId_is_kernel :: "NamespaceId \<Rightarrow> bool" where
  "NamespaceId_is_kernel self = (nsid_raw self = 0)"

definition alloc_namespace_id :: "u32 \<Rightarrow> NamespaceId \<times> u32" where
  "alloc_namespace_id ns_counter = (NamespaceId ns_counter, ns_counter + 1)"

definition CapNamespace_new :: "NamespaceId \<Rightarrow> CapNamespace" where
  "CapNamespace_new i = \<lparr>ns_id = i, ns_table = CapTable_new, ns_id_counter = 1, ns_refcount = 1\<rparr>"

definition CapNamespace_alloc_object_id :: "CapNamespace \<Rightarrow> ObjectId \<times> CapNamespace" where
  "CapNamespace_alloc_object_id self =
    (let local = ns_id_counter self;
         oid = push_bit 48 (ucast (nsid_raw (ns_id self))) OR (local AND 0x0000FFFFFFFFFFFF)
     in (ObjectId oid, self\<lparr>ns_id_counter := local + 1\<rparr>))"

definition namespace_of :: "ObjectId \<Rightarrow> NamespaceId" where
  "namespace_of oid = NamespaceId (ucast (drop_bit 48 (oid_raw oid)))"

definition CapNamespace_owns :: "CapNamespace \<Rightarrow> ObjectId \<Rightarrow> bool" where
  "CapNamespace_owns self oid = (namespace_of oid = ns_id self)"

definition CapNamespace_grant :: "TokenStats \<Rightarrow> CapNamespace \<Rightarrow> Rights \<Rightarrow> CapObjectType
    \<Rightarrow> (CapError, ObjectId \<times> CapToken) result \<times> TokenStats \<times> CapNamespace" where
  "CapNamespace_grant ts self rights obj_type =
    (let (oid, self) = CapNamespace_alloc_object_id self;
         (r, ts, table) = CapTable_grant ts (ns_table self) oid rights obj_type;
         self = self\<lparr>ns_table := table\<rparr>
     in case r of Inl e \<Rightarrow> (Err e, ts, self) | Inr token \<Rightarrow> (Ok (oid, token), ts, self))"

definition CapNamespace_revoke :: "CapNamespace \<Rightarrow> ObjectId \<Rightarrow> (CapError, unit) result \<times> CapNamespace" where
  "CapNamespace_revoke self oid =
    (if \<not> CapNamespace_owns self oid then (Err ObjectNotFound, self)
     else (Ok (), self\<lparr>ns_table := revoke (ns_table self) oid\<rparr>))"

definition CapNamespace_verify :: "TokenStats \<Rightarrow> CapNamespace \<Rightarrow> CapToken \<Rightarrow> Rights
    \<Rightarrow> (CapError, unit) result \<times> TokenStats \<times> CapNamespace" where
  "CapNamespace_verify ts self token required =
    (if \<not> CapNamespace_owns self (tok_object_id token) then (Err ObjectNotFound, ts, self)
     else let (r, ts, table) = verify ts (ns_table self) token required
          in (r, ts, self\<lparr>ns_table := table\<rparr>))"

definition CapNamespace_acquire :: "CapNamespace \<Rightarrow> CapNamespace" where
  "CapNamespace_acquire self = self\<lparr>ns_refcount := ns_refcount self + 1\<rparr>"

definition CapNamespace_release :: "CapNamespace \<Rightarrow> bool \<times> CapNamespace" where
  "CapNamespace_release self = (ns_refcount self = 1, self\<lparr>ns_refcount := ns_refcount self - 1\<rparr>)"

definition cross_namespace_verify :: "TokenStats \<Rightarrow> CapNamespace \<Rightarrow> CapNamespace \<Rightarrow> CapToken \<Rightarrow> Rights
    \<Rightarrow> (CapError, unit) result \<times> TokenStats \<times> CapNamespace" where
  "cross_namespace_verify ts ns_a ns_b token required =
    (if ns_id ns_a \<noteq> ns_id ns_b then (Err ObjectNotFound, ts, ns_a)
     else CapNamespace_verify ts ns_a token required)"

section \<open>Service capabilities\<close>

definition SERVICE_CAP_META_CAPACITY :: nat where "SERVICE_CAP_META_CAPACITY = 128"

record ServiceCapMeta =
  sm_object_id :: ObjectId
  sm_owner_pid :: u32
  sm_target_pid :: u32
  sm_type_tag :: CapObjectType

definition ServiceCapMeta_empty :: ServiceCapMeta where
  "ServiceCapMeta_empty = \<lparr>sm_object_id = ObjectId_INVALID, sm_owner_pid = 0, sm_target_pid = 0,
     sm_type_tag = Invalid\<rparr>"

definition ServiceCapMeta_is_free :: "ServiceCapMeta \<Rightarrow> bool" where
  "ServiceCapMeta_is_free self = (sm_object_id self = ObjectId_INVALID)"

datatype KernelCapError = NotFound | PermissionDenied | InvalidArg | NotSupported

primrec to_kernel_errno :: "KernelCapError \<Rightarrow> int" where
  "to_kernel_errno NotFound = -2"
| "to_kernel_errno PermissionDenied = -1"
| "to_kernel_errno InvalidArg = -22"
| "to_kernel_errno NotSupported = -38"

record cap_system =
  cs_init_done :: bool
  cs_table :: "CapTable option"
  cs_meta :: "ServiceCapMeta list"
  cs_obj_id_counter :: u64
  cs_tokens :: TokenStats
  cs_ttl_log :: "(ObjectId \<times> Rights) list"

definition cap_system_boot :: cap_system where
  "cap_system_boot = \<lparr>cs_init_done = False, cs_table = None,
     cs_meta = replicate SERVICE_CAP_META_CAPACITY ServiceCapMeta_empty,
     cs_obj_id_counter = 1, cs_tokens = TokenStats_zero, cs_ttl_log = []\<rparr>"

definition init_capability_subsystem :: "cap_system \<Rightarrow> cap_system" where
  "init_capability_subsystem s =
    (if cs_init_done s then s
     else s\<lparr>cs_init_done := True, cs_table := Some CapTable_new\<rparr>)"

definition alloc_object_id :: "cap_system \<Rightarrow> ObjectId \<times> cap_system" where
  "alloc_object_id s = (ObjectId (cs_obj_id_counter s), s\<lparr>cs_obj_id_counter := cs_obj_id_counter s + 1\<rparr>)"

fun insert_meta :: "ServiceCapMeta \<Rightarrow> ServiceCapMeta list \<Rightarrow> ServiceCapMeta list option" where
  "insert_meta m [] = None"
| "insert_meta m (slot # metas) =
    (if ServiceCapMeta_is_free slot then Some (m # metas)
     else map_option (\<lambda>ms. slot # ms) (insert_meta m metas))"

definition insert_service_cap_meta :: "cap_system \<Rightarrow> ObjectId \<Rightarrow> u32 \<Rightarrow> u32 \<Rightarrow> CapObjectType
    \<Rightarrow> (KernelCapError, unit) result \<times> cap_system" where
  "insert_service_cap_meta s oid owner_pid target_pid type_tag =
    (case insert_meta \<lparr>sm_object_id = oid, sm_owner_pid = owner_pid, sm_target_pid = target_pid,
                       sm_type_tag = type_tag\<rparr> (cs_meta s) of
       Some ms \<Rightarrow> (Ok (), s\<lparr>cs_meta := ms\<rparr>)
     | None \<Rightarrow> (Err InvalidArg, s))"

definition lookup_service_cap_meta :: "cap_system \<Rightarrow> ObjectId \<Rightarrow> ServiceCapMeta option" where
  "lookup_service_cap_meta s oid = find (\<lambda>m. sm_object_id m = oid) (cs_meta s)"

fun remove_meta :: "ObjectId \<Rightarrow> ServiceCapMeta list \<Rightarrow> ServiceCapMeta list" where
  "remove_meta oid [] = []"
| "remove_meta oid (slot # metas) =
    (if sm_object_id slot = oid then ServiceCapMeta_empty # metas else slot # remove_meta oid metas)"

definition remove_service_cap_meta :: "cap_system \<Rightarrow> ObjectId \<Rightarrow> cap_system" where
  "remove_service_cap_meta s oid = s\<lparr>cs_meta := remove_meta oid (cs_meta s)\<rparr>"

text \<open>Granting in the kernel table and recording the metadata: the tail of \<open>create\<close>.\<close>

definition create_granted :: "cap_system \<Rightarrow> Rights \<Rightarrow> CapObjectType \<Rightarrow> u32 \<Rightarrow> u32
    \<Rightarrow> (KernelCapError, CapToken) result \<times> cap_system" where
  "create_granted s rights_val obj_type owner_pid target_pid =
    (let (oid, s) = alloc_object_id s in
     case cs_table s of
       None \<Rightarrow> (Err NotSupported, s)
     | Some table \<Rightarrow>
         let (g, ts, table) = CapTable_grant (cs_tokens s) table oid rights_val obj_type;
             s = s\<lparr>cs_table := Some table, cs_tokens := ts\<rparr>
         in case g of
              Inl _ \<Rightarrow> (Err InvalidArg, s)
            | Inr token \<Rightarrow>
                let (r, s') = insert_service_cap_meta s oid owner_pid target_pid obj_type in
                (case r of
                   Inl err \<Rightarrow> (Err err, s'\<lparr>cs_table := Some (revoke table oid)\<rparr>)
                 | Inr _ \<Rightarrow> (Ok token, s'\<lparr>cs_ttl_log := cs_ttl_log s' @ [(oid, rights_val)]\<rparr>)))"

definition create :: "policy_state \<Rightarrow> cap_system \<Rightarrow> u32 \<Rightarrow> u32 \<Rightarrow> u32 \<Rightarrow> u32
    \<Rightarrow> (KernelCapError, CapToken) result \<times> cap_system" where
  "create pol s cap_type rights target_pid owner_pid =
    (if \<not> cs_init_done s then (Err NotSupported, s)
     else if owner_pid = 0 \<or> target_pid = 0 then (Err InvalidArg, s)
     else case Rights_from_bits rights of
       None \<Rightarrow> (Err InvalidArg, s)
     | Some rights_val \<Rightarrow>
         if cap_type > 0xFFFF then (Err InvalidArg, s)
         else let obj_type = CapObjectType_from_u16 (ucast cap_type) in
           if obj_type = Invalid then (Err InvalidArg, s)
           else if obj_type \<noteq> IpcEndpoint then (Err NotSupported, s)
           else if \<not> Rights_contains rights_val Rights_IPC_SEND then (Err InvalidArg, s)
           else if check_direct_ipc pol owner_pid target_pid \<noteq> Allowed then (Err PermissionDenied, s)
           else create_granted s rights_val obj_type owner_pid target_pid)"

definition check_token :: "cap_system \<Rightarrow> CapToken \<Rightarrow> u32 \<Rightarrow> u32 \<Rightarrow> u32
    \<Rightarrow> (KernelCapError, ObjectId) result \<times> cap_system" where
  "check_token s token required_rights expected_target_pid expected_type =
    (if \<not> cs_init_done s then (Err NotSupported, s)
     else if expected_target_pid = 0 \<or> expected_type > 0xFFFF then (Err InvalidArg, s)
     else case Rights_from_bits required_rights of
       None \<Rightarrow> (Err InvalidArg, s)
     | Some rights \<Rightarrow>
         let ty = CapObjectType_from_u16 (ucast expected_type) in
         if ty = Invalid then (Err InvalidArg, s)
         else case cs_table s of
           None \<Rightarrow> (Err NotSupported, s)
         | Some table \<Rightarrow>
             let (v, ts, table) = verify_typed (cs_tokens s) table token rights ty;
                 s = s\<lparr>cs_table := Some table, cs_tokens := ts\<rparr>
             in case v of
                  Inl _ \<Rightarrow> (Err PermissionDenied, s)
                | Inr _ \<Rightarrow>
                    (case lookup_service_cap_meta s (tok_object_id token) of
                       None \<Rightarrow> (Err NotFound, s)
                     | Some meta \<Rightarrow>
                         if sm_target_pid meta \<noteq> expected_target_pid \<or> sm_type_tag meta \<noteq> ty
                         then (Err PermissionDenied, s)
                         else (Ok (sm_object_id meta), s)))"

definition check_token_owner :: "cap_system \<Rightarrow> CapToken \<Rightarrow> u32 \<Rightarrow> u32 \<Rightarrow> u32 \<Rightarrow> u32
    \<Rightarrow> (KernelCapError, ObjectId) result \<times> cap_system" where
  "check_token_owner s token required_rights expected_owner_pid expected_target_pid expected_type =
    (if expected_owner_pid = 0 then (Err InvalidArg, s)
     else let (r, s) = check_token s token required_rights expected_target_pid expected_type in
       case r of
         Inl e \<Rightarrow> (Err e, s)
       | Inr object_id \<Rightarrow>
           (case lookup_service_cap_meta s (tok_object_id token) of
              None \<Rightarrow> (Err NotFound, s)
            | Some meta \<Rightarrow>
                if sm_owner_pid meta \<noteq> expected_owner_pid then (Err PermissionDenied, s)
                else (Ok object_id, s)))"

definition revoke_handle :: "cap_system \<Rightarrow> u32 \<Rightarrow> (KernelCapError, unit) result \<times> cap_system" where
  "revoke_handle s handle =
    (if \<not> cs_init_done s then (Err NotSupported, s)
     else let object_id = ObjectId (ucast handle) in
       case cs_table s of
         None \<Rightarrow> (Err NotSupported, s)
       | Some tbl \<Rightarrow>
           (Ok (), remove_service_cap_meta (s\<lparr>cs_table := Some (revoke tbl object_id)\<rparr>) object_id))"

definition capget :: "u64 \<Rightarrow> u64 \<Rightarrow> (KernelCapError, unit) result" where
  "capget hdrp datap = Err NotSupported"

definition capset :: "u64 \<Rightarrow> u64 \<Rightarrow> (KernelCapError, unit) result" where
  "capset hdrp datap = Err NotSupported"

text \<open>States reachable with \<open>n\<close> calls of \<open>create\<close>.\<close>

inductive service_reach :: "nat \<Rightarrow> cap_system \<Rightarrow> bool" where
  boot: "service_reach 0 cap_system_boot"
| init: "service_reach n s \<Longrightarrow> service_reach n (init_capability_subsystem s)"
| create: "service_reach n s \<Longrightarrow> service_reach (Suc n) (snd (create pol s ty rights target owner))"
| check: "service_reach n s \<Longrightarrow> service_reach n (snd (check_token s tok rights target ty))"
| check_owner: "service_reach n s \<Longrightarrow> service_reach n (snd (check_token_owner s tok rights owner target ty))"
| revoke: "service_reach n s \<Longrightarrow> service_reach n (snd (revoke_handle s h))"

section \<open>Namespace identifiers in object identifiers\<close>

lemma namespace_of_alloc:
  "namespace_of (fst (CapNamespace_alloc_object_id ns)) = NamespaceId (take_bit 16 (nsid_raw (ns_id ns)))"
proof -
  have m: "(0x0000FFFFFFFFFFFF :: u64) = mask 48" by (simp add: mask_eq_exp_minus_1)
  have "(ucast (drop_bit 48 (push_bit 48 (ucast i) OR (l AND mask 48) :: u64)) :: u32) = take_bit 16 i"
    for i :: u32 and l
    by (rule bit_eqI) (auto simp: bit_simps dest: bit_imp_le_length)
  then show ?thesis by (simp add: namespace_of_def CapNamespace_alloc_object_id_def Let_def m)
qed

lemma owns_alloc_iff:
  "CapNamespace_owns ns (fst (CapNamespace_alloc_object_id ns)) \<longleftrightarrow> nsid_raw (ns_id ns) < 2 ^ 16"
proof -
  have "take_bit 16 (w :: u32) = w \<longleftrightarrow> w < 2 ^ 16" for w
    by (simp add: word_less_nat_alt unsigned_take_bit_eq word_unat_eq_iff take_bit_nat_eq_self_iff)
  then show ?thesis by (cases "ns_id ns") (simp add: CapNamespace_owns_def namespace_of_alloc)
qed

lemma owns_cong: "ns_id a = ns_id b \<Longrightarrow> CapNamespace_owns a oid = CapNamespace_owns b oid"
  by (simp add: CapNamespace_owns_def)

lemma ns_grant_Ok:
  assumes "CapNamespace_grant ts ns r ty = (Ok (oid, tok), ts', ns')"
  shows "oid = fst (CapNamespace_alloc_object_id ns)"
    "CapTable_grant ts (ns_table ns) oid r ty = (Ok tok, ts', ns_table ns')"
    "ns_id ns' = ns_id ns"
  using assms
  by (auto simp: CapNamespace_grant_def CapNamespace_alloc_object_id_def Let_def
      split: prod.splits sum.splits)

lemma grant_tok_object_id: "CapTable_grant ts t oid r ty = (Ok tok, ts', t') \<Longrightarrow> tok_object_id tok = oid"
  by (cases "find_free_slot t oid")
    (auto simp: grant_None dest: grant_Some(3) [of t oid _ ts r ty])

lemma new_ns_grant:
  assumes "ObjectId_is_valid (fst (CapNamespace_alloc_object_id (CapNamespace_new i)))"
  shows "\<exists>tok ts' ns'. CapNamespace_grant ts (CapNamespace_new i) r ty
    = (Ok (fst (CapNamespace_alloc_object_id (CapNamespace_new i)), tok), ts', ns')"
proof -
  let ?o = "fst (CapNamespace_alloc_object_id (CapNamespace_new i))"
  obtain tok ts' t' where "CapTable_grant ts CapTable_new ?o r ty = (Ok tok, ts', t')"
    using new_grant [OF assms] by metis
  then show ?thesis
    by (simp add: CapNamespace_grant_def case_prod_unfold Let_def)
      (simp add: CapNamespace_alloc_object_id_def CapNamespace_new_def Let_def)
qed

section \<open>Service metadata\<close>

lemma insert_meta_find:
  assumes "insert_meta m ms = Some ms'" "\<forall>x \<in> set ms. sm_object_id x \<noteq> sm_object_id m"
  shows "find (\<lambda>x. sm_object_id x = sm_object_id m) ms' = Some m"
  using assms by (induction ms arbitrary: ms') (auto split: if_splits)

lemma insert_meta_set: "insert_meta m ms = Some ms' \<Longrightarrow> set ms' \<subseteq> insert m (set ms)"
proof (induction ms arbitrary: ms')
  case (Cons a ms)
  then show ?case by (fastforce split: if_splits)
qed simp

lemma remove_meta_set: "set (remove_meta oid ms) \<subseteq> insert ServiceCapMeta_empty (set ms)"
  by (induction ms) auto

lemma verify_typed_result:
  "fst (verify_typed ts t tok req ty) = Ok () \<longleftrightarrow> access_spec (CapTable_abs t) tok req \<and>
     (\<exists>v. CapTable_abs t (tok_object_id tok) = Some v \<and> ev_type_tag v = ty)"
proof (cases "access_spec (CapTable_abs t) tok req")
  case True
  then obtain v where "CapTable_abs t (tok_object_id tok) = Some v" by (auto simp: access_spec_def)
  then have "fst (CapTable_get t (tok_object_id tok)) = Some v" by (auto simp: CapTable_abs_def split: if_splits)
  then have "fst (CapTable_get (snd (CapTable_get t (tok_object_id tok))) (tok_object_id tok)) = Some v"
    by (simp add: get_fst find_slot_def)
  then show ?thesis using True \<open>CapTable_abs t (tok_object_id tok) = Some v\<close>
    by (simp add: verify_typed_def verify_eq case_prod_unfold Let_def)
next
  case False
  then show ?thesis by (simp add: verify_typed_def verify_eq)
qed

lemma verify_typed_entries [simp]:
  "ct_entries (snd (snd (verify_typed ts t tok req ty))) = ct_entries t"
  "ct_count (snd (snd (verify_typed ts t tok req ty))) = ct_count t"
  by (simp_all add: verify_typed_def verify_eq case_prod_unfold Let_def split: option.splits)

section \<open>The service invariant\<close>

definition service_inv :: "nat \<Rightarrow> cap_system \<Rightarrow> bool" where
  "service_inv n s \<longleftrightarrow>
     0 < unat (cs_obj_id_counter s) \<and> unat (cs_obj_id_counter s) \<le> Suc n \<and>
     (\<forall>t. cs_table s = Some t \<longrightarrow> CapTable_wf t \<and>
        (\<forall>oid v. CapTable_abs t oid = Some v \<longrightarrow> unat (oid_raw oid) < unat (cs_obj_id_counter s))) \<and>
     (\<forall>m \<in> set (cs_meta s). \<not> ServiceCapMeta_is_free m \<longrightarrow>
        unat (oid_raw (sm_object_id m)) < unat (cs_obj_id_counter s))"

lemma service_inv_counter:
  assumes "service_inv n s" "Suc n < 2 ^ 64 - 1"
  shows "unat (cs_obj_id_counter s + 1) = Suc (unat (cs_obj_id_counter s))"
    "ObjectId_is_valid (ObjectId (cs_obj_id_counter s))"
proof -
  have b: "unat (cs_obj_id_counter s) < 2 ^ 64 - 1" using assms by (simp add: service_inv_def)
  have "cs_obj_id_counter s \<noteq> - 1"
  proof
    assume "cs_obj_id_counter s = - 1"
    then have "unat (cs_obj_id_counter s) = 2 ^ 64 - 1" by (simp add: unat_minus_one)
    then show False using b by simp
  qed
  then show "unat (cs_obj_id_counter s + 1) = Suc (unat (cs_obj_id_counter s))"
    "ObjectId_is_valid (ObjectId (cs_obj_id_counter s))"
    by (simp_all add: unat_add_one ObjectId_is_valid_def)
qed

lemma service_inv_table_cong:
  assumes "service_inv n s" "cs_table s = Some t" "CapTable_abs t' = CapTable_abs t" "CapTable_wf t'"
  shows "service_inv n (s\<lparr>cs_table := Some t', cs_tokens := ts\<rparr>)"
  using assms by (auto simp: service_inv_def)

lemma service_inv_boot: "service_inv 0 cap_system_boot"
  by (auto simp: service_inv_def cap_system_boot_def ServiceCapMeta_empty_def ServiceCapMeta_is_free_def)

lemma service_inv_init: "service_inv n s \<Longrightarrow> service_inv n (init_capability_subsystem s)"
  by (auto simp: service_inv_def init_capability_subsystem_def new_wf new_abs)

lemma service_inv_Suc: "service_inv n s \<Longrightarrow> service_inv (Suc n) s"
  by (auto simp: service_inv_def)

lemma check_token_state:
  "snd (check_token s tok rights target ty) = s \<or>
   (\<exists>t req cty. cs_table s = Some t \<and> snd (check_token s tok rights target ty) =
      s\<lparr>cs_table := Some (snd (snd (verify_typed (cs_tokens s) t tok req cty))),
        cs_tokens := fst (snd (verify_typed (cs_tokens s) t tok req cty))\<rparr>)"
  by (auto simp: check_token_def Let_def case_prod_unfold split: option.splits sum.splits)

lemma check_token_owner_state:
  "snd (check_token_owner s tok rights owner target ty) = s \<or>
   snd (check_token_owner s tok rights owner target ty) = snd (check_token s tok rights target ty)"
  by (simp add: check_token_owner_def Let_def case_prod_unfold split: option.splits sum.splits)

lemma service_inv_check:
  assumes "service_inv n s"
  shows "service_inv n (snd (check_token s tok rights target ty))"
proof -
  have "service_inv n (s\<lparr>cs_table := Some (snd (snd (verify_typed (cs_tokens s) t tok req cty))), cs_tokens := ts\<rparr>)"
    if "cs_table s = Some t" for t req cty ts
    using assms that wf_cong [of "snd (snd (verify_typed (cs_tokens s) t tok req cty))" t]
    by (intro service_inv_table_cong [of n s t] abs_cong) (auto simp: service_inv_def)
  then show ?thesis using check_token_state [of s tok rights target ty] assms by auto
qed

lemma service_inv_check_owner:
  "service_inv n s \<Longrightarrow> service_inv n (snd (check_token_owner s tok rights owner target ty))"
  using check_token_owner_state [of s tok rights owner target ty] service_inv_check [of n s] by auto

lemma service_inv_revoke:
  assumes "service_inv n s" "Suc n < 2 ^ 64 - 1"
  shows "service_inv n (snd (revoke_handle s h))"
proof -
  have v: "ObjectId_is_valid (ObjectId (ucast (h :: u32)))"
  proof -
    have "unat (ucast h :: u64) < 2 ^ 32" using unat_less_2p [of h] by (simp add: unat_ucast_up)
    moreover have "unat (- 1 :: u64) = 2 ^ 64 - 1" by (simp add: unat_minus_one)
    ultimately show ?thesis by (auto simp: ObjectId_is_valid_def)
  qed
  have "set (remove_meta oid (cs_meta s)) \<subseteq> insert ServiceCapMeta_empty (set (cs_meta s))" for oid
    by (rule remove_meta_set)
  moreover have "ServiceCapMeta_is_free ServiceCapMeta_empty"
    by (simp add: ServiceCapMeta_is_free_def ServiceCapMeta_empty_def)
  ultimately show ?thesis using assms v
    by (fastforce simp: service_inv_def revoke_handle_def remove_service_cap_meta_def Let_def
        revoke_abs_spec revoke_wf_spec spec_revoke_def split: option.splits if_splits)
qed

lemma create_cases:
  "snd (create pol s ty rights target owner) = s \<and> \<not> is_ok (fst (create pol s ty rights target owner)) \<or>
   (\<exists>rv. create pol s ty rights target owner = create_granted s rv IpcEndpoint owner target \<and>
      Rights_from_bits rights = Some rv \<and> Rights_contains rv Rights_IPC_SEND \<and>
      check_direct_ipc pol owner target = Allowed)"
  by (auto simp: create_def Let_def split: option.splits)

lemma fresh_abs:
  assumes "service_inv n s" "cs_table s = Some t"
  shows "CapTable_abs t (ObjectId (cs_obj_id_counter s)) = None"
  using assms by (cases "CapTable_abs t (ObjectId (cs_obj_id_counter s))") (fastforce simp: service_inv_def)+

lemma create_granted_Some:
  assumes "cs_table s = Some t"
    and g: "CapTable_grant (cs_tokens s) t (ObjectId (cs_obj_id_counter s)) rv ot = (g, ts, t')"
  shows "create_granted s rv ot owner target =
    (let oid = ObjectId (cs_obj_id_counter s);
         s1 = s\<lparr>cs_obj_id_counter := cs_obj_id_counter s + 1, cs_table := Some t', cs_tokens := ts\<rparr>;
         m = \<lparr>sm_object_id = oid, sm_owner_pid = owner, sm_target_pid = target, sm_type_tag = ot\<rparr>
     in case g of Inl _ \<Rightarrow> (Err InvalidArg, s1)
        | Inr tok \<Rightarrow> (case insert_meta m (cs_meta s) of
            None \<Rightarrow> (Err InvalidArg, s1\<lparr>cs_table := Some (revoke t' oid)\<rparr>)
          | Some ms \<Rightarrow> (Ok tok, s1\<lparr>cs_meta := ms, cs_ttl_log := cs_ttl_log s @ [(oid, rv)]\<rparr>)))"
  using assms
  by (auto simp: create_granted_def alloc_object_id_def insert_service_cap_meta_def Let_def
      split: sum.splits option.splits)

lemma service_inv_create_granted:
  assumes inv: "service_inv n s" and n: "Suc n < 2 ^ 64 - 1"
  shows "service_inv (Suc n) (snd (create_granted s rv ot owner target))"
proof (cases "cs_table s")
  case None
  then show ?thesis using inv service_inv_counter(1) [OF inv n]
    by (fastforce simp: create_granted_def alloc_object_id_def service_inv_def)
next
  case (Some t)
  let ?o = "ObjectId (cs_obj_id_counter s)"
  obtain g ts t' where g: "CapTable_grant (cs_tokens s) t ?o rv ot = (g, ts, t')" by (metis prod_cases3)
  note c = service_inv_counter [OF inv n]
  have wf: "CapTable_wf t" using inv Some by (simp add: service_inv_def)
  have wf': "CapTable_wf t'" using grant_wf [OF wf c(2), of "cs_tokens s" rv ot] g by simp
  have ab: "CapTable_abs t' oid = Some v \<Longrightarrow> unat (oid_raw oid) < unat (cs_obj_id_counter s + 1)" for oid v
    using ct.grant_abs [of "(cs_tokens s, t)" ?o rv ot] wf c g inv Some
    by (fastforce simp: cap_grant_def spec_grant_def service_inv_def split: if_splits)
  have ab2: "CapTable_abs (revoke t' ?o) oid = Some v \<Longrightarrow> unat (oid_raw oid) < unat (cs_obj_id_counter s + 1)" for oid v
    using ab c(1) by (auto simp: revoke_abs_spec [OF wf' c(2)] spec_revoke_def split: option.splits if_splits)
  have meta: "unat (oid_raw (sm_object_id m)) < unat (cs_obj_id_counter s + 1)"
    if "m \<in> set (cs_meta s)" "\<not> ServiceCapMeta_is_free m" for m
    using that inv c(1) by (fastforce simp: service_inv_def)
  have ms: "unat (oid_raw (sm_object_id m)) < unat (cs_obj_id_counter s + 1)"
    if "insert_meta \<lparr>sm_object_id = ?o, sm_owner_pid = owner, sm_target_pid = target, sm_type_tag = ot\<rparr> (cs_meta s) = Some ms"
      "m \<in> set ms" "\<not> ServiceCapMeta_is_free m" for m ms
    using insert_meta_set [OF that(1)] that(2,3) meta c(1) by fastforce
  have b: "0 < unat (cs_obj_id_counter s + 1)" "unat (cs_obj_id_counter s + 1) \<le> Suc (Suc n)"
    using inv c(1) by (simp_all add: service_inv_def)
  show ?thesis
    unfolding create_granted_Some [OF Some g] service_inv_def
    using wf' revoke_wf_spec [OF wf'] ab ab2 meta ms b
    by (auto simp: Let_def split: sum.splits option.splits)
qed

lemma service_inv_create:
  assumes "service_inv n s" "Suc n < 2 ^ 64 - 1"
  shows "service_inv (Suc n) (snd (create pol s ty rights target owner))"
  using create_cases [of pol s ty rights target owner] service_inv_create_granted [OF assms]
    service_inv_Suc [OF assms(1)] by metis

lemma service_reach_inv: "service_reach n s \<Longrightarrow> n < 2 ^ 64 - 2 \<Longrightarrow> service_inv n s"
proof (induction rule: service_reach.induct)
  case (create n s pol ty rights target owner)
  then show ?case by (intro service_inv_create) simp_all
next
  case (revoke n s h)
  then show ?case by (intro service_inv_revoke) simp_all
qed (simp_all add: service_inv_boot service_inv_init service_inv_check service_inv_check_owner)

lemma create_Ok:
  assumes inv: "service_inv n s" "Suc n < 2 ^ 64 - 1"
    and ok: "create pol s ty rights target owner = (Ok tok, s')"
  obtains t t' rv ms where
    "cs_table s = Some t" "cs_table s' = Some t'" "Rights_from_bits rights = Some rv"
    "Rights_contains rv Rights_IPC_SEND" "check_direct_ipc pol owner target = Allowed"
    "tok = \<lparr>tok_object_id = ObjectId (cs_obj_id_counter s), tok_rights = rv, tok_generation = 0, tok_type_tag = IpcEndpoint\<rparr>"
    "CapTable_abs t' = (CapTable_abs t)(ObjectId (cs_obj_id_counter s) \<mapsto>
       \<lparr>ev_rights = rv, ev_generation = 0, ev_type_tag = IpcEndpoint\<rparr>)"
    "CapTable_grant (cs_tokens s) t (ObjectId (cs_obj_id_counter s)) rv IpcEndpoint = (Ok tok, cs_tokens s', t')"
    "insert_meta \<lparr>sm_object_id = ObjectId (cs_obj_id_counter s), sm_owner_pid = owner,
       sm_target_pid = target, sm_type_tag = IpcEndpoint\<rparr> (cs_meta s) = Some (cs_meta s')"
    "cs_init_done s' = cs_init_done s"
proof -
  obtain rv where rv: "create pol s ty rights target owner = create_granted s rv IpcEndpoint owner target"
    "Rights_from_bits rights = Some rv" "Rights_contains rv Rights_IPC_SEND"
    "check_direct_ipc pol owner target = Allowed"
    using create_cases [of pol s ty rights target owner] ok by auto
  obtain t where t: "cs_table s = Some t"
    using rv(1) ok by (cases "cs_table s") (auto simp: create_granted_def alloc_object_id_def)
  let ?o = "ObjectId (cs_obj_id_counter s)"
  obtain g ts t' where g: "CapTable_grant (cs_tokens s) t ?o rv IpcEndpoint = (g, ts, t')" by (metis prod_cases3)
  have c: "create_granted s rv IpcEndpoint owner target = (Ok tok, s')" using rv(1) ok by simp
  obtain ms where gg: "g = Ok tok" "insert_meta \<lparr>sm_object_id = ?o, sm_owner_pid = owner,
       sm_target_pid = target, sm_type_tag = IpcEndpoint\<rparr> (cs_meta s) = Some ms"
    "s' = s\<lparr>cs_obj_id_counter := cs_obj_id_counter s + 1, cs_table := Some t', cs_tokens := ts, cs_meta := ms,
       cs_ttl_log := cs_ttl_log s @ [(?o, rv)]\<rparr>"
    using c unfolding create_granted_Some [OF t g] by (auto simp: Let_def split: sum.splits option.splits)
  have "CapTable_wf t" using inv t by (simp add: service_inv_def)
  then have "CapTable_abs t' = spec_grant (CapTable_abs t) ?o rv IpcEndpoint \<and> tok =
      \<lparr>tok_object_id = ?o, tok_rights = rv, tok_generation = spec_generation (CapTable_abs t) ?o, tok_type_tag = IpcEndpoint\<rparr>"
    using ct.grant_ok [of "(cs_tokens s, t)" ?o rv IpcEndpoint tok] service_inv_counter(2) [OF inv] g gg(1)
    by (simp add: cap_grant_def)
  then show ?thesis
    using that [OF t _ rv(2-4)] g gg fresh_abs [OF inv(1) t] by (simp add: spec_grant_def spec_generation_def)
qed

section \<open>Properties\<close>


lemma demo_create:
  "is_ok (fst (create (snd (register_service_class policy_boot 7 VfsServer))
     (init_capability_subsystem cap_system_boot) 1 0x80 7 1))"
  by code_simp


text \<open>
  service capabilities leak table slots.  Revoking a handle releases no slot of the kernel
  table, every successful \<open>create\<close> takes a new one, and once all 512 are taken \<open>create\<close> fails for
  good, however many of the capabilities have been revoked.
\<close>

theorem service_table_never_shrinks:
  assumes "service_reach n s" "n < 2 ^ 64 - 3" "cs_table s = Some t"
  shows "(\<exists>t'. cs_table (snd (revoke_handle s h)) = Some t' \<and> used_slots t' = used_slots t) \<and>
    (create pol s ty rights target owner = (Ok tok, s') \<longrightarrow>
       (\<exists>t'. cs_table s' = Some t' \<and> card (used_slots t') = Suc (card (used_slots t)))) \<and>
    (used_slots t = {..<512} \<longrightarrow> \<not> is_ok (fst (create pol s ty rights target owner)))"
proof -
  have inv: "service_inv n s" "Suc n < 2 ^ 64 - 1" using assms(1,2) by (auto intro: service_reach_inv)
  have ids: "used_slots (revoke t oid) = used_slots t" for oid
    by (simp add: used_slots_def revoke_def increment_generation_revoke)
  have rv: "\<exists>t'. cs_table (snd (revoke_handle s h)) = Some t' \<and> used_slots t' = used_slots t"
    using assms(3) ids by (auto simp: revoke_handle_def remove_service_cap_meta_def Let_def)
  have ok: "\<exists>t' i. cs_table s2 = Some t' \<and> card (used_slots t') = Suc (card (used_slots t)) \<and>
      find_free_slot t (ObjectId (cs_obj_id_counter s)) = Some i \<and> CapEntry_is_free (ct_entries t i)"
    if cr: "create pol s ty rights target owner = (Ok tk, s2)" for tk s2
  proof -
    let ?o = "ObjectId (cs_obj_id_counter s)"
    obtain t' rv' where t: "cs_table s2 = Some t'"
      and g: "CapTable_grant (cs_tokens s) t ?o rv' IpcEndpoint = (Ok tk, cs_tokens s2, t')"
      using create_Ok [OF inv cr] assms(3) by (metis option.inject)
    obtain i where i: "find_free_slot t ?o = Some i"
      using g by (cases "find_free_slot t ?o") (auto simp: grant_None)
    have "CapEntry_is_free (ct_entries t i)"
      using find_free_slot_existing(1) [OF i] fresh_abs [OF inv(1) assms(3)] service_inv_counter(2) [OF inv]
      by (auto simp: abs_eq)
    then show ?thesis
      using grant_used_slots [OF i service_inv_counter(2) [OF inv], of "cs_tokens s" rv' IpcEndpoint] g t i
      by auto
  qed
  have full: "\<not> is_ok (fst (create pol s ty rights target owner))" if u: "used_slots t = {..<512}"
  proof
    assume "is_ok (fst (create pol s ty rights target owner))"
    then obtain tk s2 where "create pol s ty rights target owner = (Ok tk, s2)"
      by (cases "create pol s ty rights target owner"; cases "fst (create pol s ty rights target owner)") auto
    then obtain i where "find_free_slot t (ObjectId (cs_obj_id_counter s)) = Some i" "CapEntry_is_free (ct_entries t i)"
      using ok by blast
    then show False using u find_free_slot_less [of t] by (auto simp: used_slots_def CapEntry_is_free_def)
  qed
  show ?thesis using rv ok full by blast
qed

theorem service_table_never_shrinks_witness:
  "\<exists>t tok s' t'. cs_table (init_capability_subsystem cap_system_boot) = Some t \<and>
     create (snd (register_service_class policy_boot 7 VfsServer))
       (init_capability_subsystem cap_system_boot) 1 0x80 7 1 = (Ok tok, s') \<and>
     cs_table s' = Some t' \<and> card (used_slots t') = Suc (card (used_slots t))"
proof -
  let ?pol = "snd (register_service_class policy_boot 7 VfsServer)"
  let ?s = "init_capability_subsystem cap_system_boot"
  obtain tok s' where c: "create ?pol ?s 1 0x80 7 1 = (Ok tok, s')"
    using demo_create
    by (cases "create ?pol ?s 1 0x80 7 1"; cases "fst (create ?pol ?s 1 0x80 7 1)") auto
  have r: "service_reach 0 ?s" by (intro service_reach.intros)
  have t: "cs_table ?s = Some CapTable_new" by (simp add: init_capability_subsystem_def cap_system_boot_def)
  show ?thesis
    using service_table_never_shrinks [OF r _ t, of 0 ?pol 1 "0x80" 7 1 tok s'] c t by auto
qed

text \<open>
  C32: namespaces isolate.  For a namespace whose identifier fits in 16 bits, a token it grants
  verifies in it exactly for the granted rights, and every namespace with another identifier
  answers \<open>ObjectNotFound\<close> for it.
\<close>

theorem namespace_isolation:
  assumes "CapTable_wf (ns_table ns)" "nsid_raw (ns_id ns) < 2 ^ 16"
    and "ObjectId_is_valid (fst (CapNamespace_alloc_object_id ns))"
    and "CapNamespace_grant ts ns r ty = (Ok (oid, tok), ts', ns')" "ns_id other \<noteq> ns_id ns"
  shows "(fst (CapNamespace_verify ts' ns' tok req) = Ok () \<longleftrightarrow> Rights_contains r req) \<and>
    fst (CapNamespace_verify ts' other tok req) = Err ObjectNotFound \<and>
    fst (cross_namespace_verify ts' ns' other tok req) = Err ObjectNotFound"
proof -
  note g = ns_grant_Ok [OF assms(4)]
  note o = grant_tok_object_id [OF g(2)]
  have own: "CapNamespace_owns ns oid" using owns_alloc_iff [of ns] assms(2) g(1) by simp
  have "CapTable_abs (ns_table ns') = spec_grant (CapTable_abs (ns_table ns)) oid r ty \<and>
      tok_generation tok = spec_generation (CapTable_abs (ns_table ns)) oid"
    using ct.grant_ok [of "(ts, ns_table ns)" oid r ty tok] assms(1,3) g(1,2) by (auto simp: cap_grant_def)
  then have "fst (verify ts' (ns_table ns') tok req) = Ok () \<longleftrightarrow> Rights_contains r req"
    by (simp add: verify_result access_spec_def spec_grant_def o)
  then show ?thesis
    using own o g(3) assms(5)
    by (auto simp: CapNamespace_verify_def cross_namespace_verify_def CapNamespace_owns_def case_prod_unfold Let_def)
qed

theorem namespace_isolation_witness:
  "\<exists>oid tok ts' ns'. CapNamespace_grant TokenStats_zero (CapNamespace_new (NamespaceId 5)) Rights_READ Device
      = (Ok (oid, tok), ts', ns') \<and>
    fst (CapNamespace_verify ts' ns' tok Rights_READ) = Ok () \<and>
    fst (CapNamespace_verify ts' (CapNamespace_new (NamespaceId 6)) tok Rights_READ) = Err ObjectNotFound"
proof -
  let ?ns = "CapNamespace_new (NamespaceId 5)"
  let ?o = "fst (CapNamespace_alloc_object_id ?ns)"
  have w: "CapTable_wf (ns_table ?ns)" by (simp add: CapNamespace_new_def new_wf)
  have v: "ObjectId_is_valid ?o"
    by (simp add: CapNamespace_alloc_object_id_def CapNamespace_new_def ObjectId_is_valid_def Let_def)
  obtain tok ts' ns' where g: "CapNamespace_grant TokenStats_zero ?ns Rights_READ Device = (Ok (?o, tok), ts', ns')"
    using new_ns_grant [OF v] by blast
  show ?thesis
    using namespace_isolation [OF w _ v g, of "CapNamespace_new (NamespaceId 6)" Rights_READ] g
    by (auto simp: CapNamespace_new_def)
qed

text \<open>
  namespace identifiers are truncated.  From identifier \<open>2^16\<close> on, the identifiers a
  namespace allocates do not carry its own number, so it refuses to verify or revoke the very
  tokens it grants.
\<close>

theorem namespace_id_truncated:
  assumes "2 ^ 16 \<le> nsid_raw (ns_id ns)"
    and "CapNamespace_grant ts ns r ty = (Ok (oid, tok), ts', ns')"
  shows "fst (CapNamespace_verify ts' ns' tok req) = Err ObjectNotFound \<and>
    CapNamespace_revoke ns' oid = (Err ObjectNotFound, ns')"
proof -
  note g = ns_grant_Ok [OF assms(2)]
  have "\<not> CapNamespace_owns ns oid" using owns_alloc_iff [of ns] assms(1) g(1) by (simp add: not_less)
  then show ?thesis
    using grant_tok_object_id [OF g(2)] owns_cong [OF g(3)]
    by (simp add: CapNamespace_verify_def CapNamespace_revoke_def)
qed

theorem namespace_id_truncated_witness:
  "\<exists>oid tok ts' ns'. CapNamespace_grant TokenStats_zero (CapNamespace_new (NamespaceId 0x10000)) Rights_READ Device
      = (Ok (oid, tok), ts', ns') \<and>
    fst (CapNamespace_verify ts' ns' tok Rights_READ) = Err ObjectNotFound"
proof -
  let ?ns = "CapNamespace_new (NamespaceId 0x10000)"
  let ?o = "fst (CapNamespace_alloc_object_id ?ns)"
  have v: "ObjectId_is_valid ?o"
    by (simp add: CapNamespace_alloc_object_id_def CapNamespace_new_def ObjectId_is_valid_def Let_def)
  obtain tok ts' ns' where g: "CapNamespace_grant TokenStats_zero ?ns Rights_READ Device = (Ok (?o, tok), ts', ns')"
    using new_ns_grant [OF v] by blast
  show ?thesis
    using namespace_id_truncated [OF _ g, of Rights_READ] g by (auto simp: CapNamespace_new_def)
qed

end
