(* ===== verification/Buddy_List.thy ===== *)
theory Buddy_List
  imports Exo_Prelude
begin

text \<open>
  The intrusive doubly linked free lists of the buddy allocator (\<open>FreeNode\<close> in
  \<open>kernel/src/memory/physical/allocator/buddy.rs\<close>), over an explicit heap of nodes.  A node
  is named by the physical address of the free block that holds it, or by the zone and order
  of the sentinel; the direct physical map of the source is this naming.  The predicate \<open>dll\<close>
  reads a circular list off the heap, and the pointer operations are proved to implement cons,
  removal and uncons on it.
\<close>

section \<open>Definitions\<close>

datatype node_ptr = NullPtr | Head nat nat | Blk nat

record FreeNode =
  fn_next :: node_ptr
  fn_prev :: node_ptr
  fn_order :: nat

type_synonym heap = "node_ptr \<Rightarrow> FreeNode"

definition FreeNode_init :: "heap \<Rightarrow> node_ptr \<Rightarrow> nat \<Rightarrow> heap" where
  "FreeNode_init h ptr order =
    (let h = h(ptr := (h ptr)\<lparr>fn_next := ptr\<rparr>);
         h = h(ptr := (h ptr)\<lparr>fn_prev := ptr\<rparr>)
     in h(ptr := (h ptr)\<lparr>fn_order := order\<rparr>))"

definition FreeNode_insert_after :: "heap \<Rightarrow> node_ptr \<Rightarrow> node_ptr \<Rightarrow> heap" where
  "FreeNode_insert_after h list_head node =
    (let nxt = fn_next (h list_head);
         h = h(node := (h node)\<lparr>fn_prev := list_head\<rparr>);
         h = h(node := (h node)\<lparr>fn_next := nxt\<rparr>);
         h = h(nxt := (h nxt)\<lparr>fn_prev := node\<rparr>)
     in h(list_head := (h list_head)\<lparr>fn_next := node\<rparr>))"

definition FreeNode_remove :: "heap \<Rightarrow> node_ptr \<Rightarrow> heap" where
  "FreeNode_remove h node =
    (let prv = fn_prev (h node);
         nxt = fn_next (h node);
         h = h(prv := (h prv)\<lparr>fn_next := nxt\<rparr>);
         h = h(nxt := (h nxt)\<lparr>fn_prev := prv\<rparr>);
         h = h(node := (h node)\<lparr>fn_next := node\<rparr>)
     in h(node := (h node)\<lparr>fn_prev := node\<rparr>))"

definition FreeNode_is_empty :: "heap \<Rightarrow> node_ptr \<Rightarrow> bool" where
  "FreeNode_is_empty h list_head = (list_head = NullPtr \<or> fn_next (h list_head) = list_head)"

definition FreeNode_pop :: "heap \<Rightarrow> node_ptr \<Rightarrow> (node_ptr \<times> heap) option" where
  "FreeNode_pop h list_head =
    (if FreeNode_is_empty h list_head then None
     else let node = fn_next (h list_head) in Some (node, FreeNode_remove h node))"

section \<open>Circular lists on the heap\<close>

fun seg :: "heap \<Rightarrow> node_ptr \<Rightarrow> node_ptr list \<Rightarrow> node_ptr \<Rightarrow> bool" where
  "seg h p [] q = (fn_next (h p) = q \<and> fn_prev (h q) = p)"
| "seg h p (x # xs) q = (fn_next (h p) = x \<and> fn_prev (h x) = p \<and> seg h x xs q)"

definition dll :: "heap \<Rightarrow> node_ptr \<Rightarrow> node_ptr list \<Rightarrow> bool" where
  "dll h hp xs \<longleftrightarrow> seg h hp xs hp \<and> distinct (hp # xs)"

lemma seg_append: "seg h p (xs @ y # ys) q \<longleftrightarrow> seg h p xs y \<and> seg h y ys q"
  by (induction xs arbitrary: p) auto

lemma seg_frame:
  assumes "\<And>x. x \<in> set xs \<Longrightarrow> h' x = h x" "fn_next (h' p) = fn_next (h p)" "fn_prev (h' q) = fn_prev (h q)"
  shows "seg h' p xs q = seg h p xs q"
  using assms by (induction xs arbitrary: p) auto

lemma seg_cong:
  assumes "\<And>x. x \<in> insert p (set xs) \<Longrightarrow> fn_next (h' x) = fn_next (h x)"
    and "\<And>x. x \<in> insert q (set xs) \<Longrightarrow> fn_prev (h' x) = fn_prev (h x)"
  shows "seg h' p xs q = seg h p xs q"
  using assms by (induction xs arbitrary: p) auto

lemma dll_frame:
  assumes "\<And>x. x \<in> insert hp (set xs) \<Longrightarrow> fn_next (h' x) = fn_next (h x)"
    and "\<And>x. x \<in> insert hp (set xs) \<Longrightarrow> fn_prev (h' x) = fn_prev (h x)"
  shows "dll h' hp xs = dll h hp xs"
  using seg_cong [of hp xs h' h hp] assms by (simp add: dll_def)

lemma dll_is_empty: "dll h hp xs \<Longrightarrow> hp \<noteq> NullPtr \<Longrightarrow> FreeNode_is_empty h hp \<longleftrightarrow> xs = []"
  by (cases xs) (auto simp: dll_def FreeNode_is_empty_def)

lemma init_other [simp]: "q \<noteq> p \<Longrightarrow> FreeNode_init h p k q = h q"
  and init_self [simp]: "FreeNode_init h p k p = \<lparr>fn_next = p, fn_prev = p, fn_order = k\<rparr>"
  by (simp_all add: FreeNode_init_def Let_def)

lemma init_dll: "n \<notin> insert hp (set xs) \<Longrightarrow> dll (FreeNode_init h n k) hp xs = dll h hp xs"
  by (rule dll_frame) (metis init_other)+

lemma insert_order [simp]: "fn_order (FreeNode_insert_after h hp n q) = fn_order (h q)"
  by (simp add: FreeNode_insert_after_def Let_def)

lemma remove_order [simp]: "fn_order (FreeNode_remove h n q) = fn_order (h q)"
  by (simp add: FreeNode_remove_def Let_def)

lemma seg_next: "seg h p xs q \<Longrightarrow> fn_next (h p) = (if xs = [] then q else hd xs)"
  by (cases xs) auto

lemma seg_prev: "seg h p xs q \<Longrightarrow> fn_prev (h q) = (if xs = [] then p else last xs)"
  by (induction xs arbitrary: p) auto

lemma seg_next_in: "seg h p xs q \<Longrightarrow> fn_next (h p) \<in> insert q (set xs)"
  by (cases xs) auto

lemma seg_prev_in: "seg h p xs q \<Longrightarrow> fn_prev (h q) \<in> insert p (set xs)"
  by (induction xs arbitrary: p) auto

text \<open>Insertion at the head is cons; it touches only the list and the node.\<close>

lemma insert_after_dll:
  assumes "dll h hp xs" "n \<notin> insert hp (set xs)"
  shows "dll (FreeNode_insert_after h hp n) hp (n # xs)"
proof (cases xs)
  case Nil
  then show ?thesis using assms by (auto simp: dll_def FreeNode_insert_after_def Let_def)
next
  case (Cons y ys)
  have "seg (FreeNode_insert_after h hp n) y ys hp = seg h y ys hp"
    using assms Cons by (intro seg_frame) (auto simp: dll_def FreeNode_insert_after_def Let_def)
  then show ?thesis using assms Cons by (auto simp: dll_def FreeNode_insert_after_def Let_def)
qed

lemma insert_after_frame:
  assumes "dll h hp xs" "q \<notin> insert n (insert hp (set xs))"
  shows "FreeNode_insert_after h hp n q = h q"
  using assms seg_next_in [of h hp xs hp] by (auto simp: dll_def FreeNode_insert_after_def Let_def)

text \<open>Removing a linked node is removal from the list.\<close>

lemma remove_fields:
  assumes "fn_prev (h n) \<noteq> n" "fn_next (h n) \<noteq> n"
  shows "fn_next (FreeNode_remove h n x) =
      (if x = n then n else if x = fn_prev (h n) then fn_next (h n) else fn_next (h x))"
    and "fn_prev (FreeNode_remove h n x) =
      (if x = n then n else if x = fn_next (h n) then fn_prev (h n) else fn_prev (h x))"
  using assms by (auto simp: FreeNode_remove_def Let_def)

lemma remove_dll:
  assumes "dll h hp (as @ n # bs)"
  shows "dll (FreeNode_remove h n) hp (as @ bs)"
proof -
  have s: "seg h hp as n" "seg h n bs hp" and d: "distinct (hp # as @ n # bs)"
    using assms by (auto simp: dll_def seg_append)
  have p: "fn_prev (h n) = (if as = [] then hp else last as)" using seg_prev [OF s(1)] by simp
  have q: "fn_next (h n) = (if bs = [] then hp else hd bs)" using seg_next [OF s(2)] by simp
  have ne: "fn_prev (h n) \<noteq> n" "fn_next (h n) \<noteq> n" using p q d by (auto split: if_splits)
  note f = remove_fields [where h = h and n = n, OF ne]
  have left: "seg (FreeNode_remove h n) hp as' a" if "as = as' @ [a]" for as' a
  proof -
    have "seg h hp as' a" using s(1) that by (simp add: seg_append)
    moreover have "seg (FreeNode_remove h n) hp as' a = seg h hp as' a"
      using d that p q by (intro seg_cong) (auto simp: f split: if_splits)
    ultimately show ?thesis by simp
  qed
  have right: "seg (FreeNode_remove h n) b bs' hp" if "bs = b # bs'" for b bs'
  proof -
    have "seg h b bs' hp" using s(2) that by simp
    moreover have "set as \<inter> set bs' = {}" using d that by auto
    then have "as \<noteq> [] \<Longrightarrow> last as \<notin> set bs'" using last_in_set [of as] by blast
    then have "seg (FreeNode_remove h n) b bs' hp = seg h b bs' hp"
      using d that p q by (intro seg_cong) (auto simp: f split: if_splits)
    ultimately show ?thesis by simp
  qed
  have "seg (FreeNode_remove h n) hp (as @ bs) hp"
  proof (cases as rule: rev_cases)
    case Nil
    then show ?thesis using d p q right by (cases bs) (auto simp: f)
  next
    case (snoc as' a)
    then show ?thesis using d p q left right by (cases bs) (auto simp: f seg_append)
  qed
  then show ?thesis using d by (simp add: dll_def)
qed

lemma remove_frame:
  assumes "dll h hp (as @ n # bs)" "x \<notin> insert hp (set (as @ n # bs))"
  shows "FreeNode_remove h n x = h x"
proof -
  have s: "seg h hp as n" "seg h n bs hp" using assms by (auto simp: dll_def seg_append)
  then have "fn_prev (h n) \<in> insert hp (set as)" "fn_next (h n) \<in> insert hp (set bs)"
    using seg_prev_in seg_next_in by blast+
  then show ?thesis using assms(2) by (auto simp: FreeNode_remove_def Let_def)
qed

lemma pop_dll:
  assumes "dll h hp xs" "hp \<noteq> NullPtr"
  shows "FreeNode_pop h hp = (case xs of [] \<Rightarrow> None | x # _ \<Rightarrow> Some (x, FreeNode_remove h x))"
  using dll_is_empty [OF assms] assms(1) by (cases xs) (auto simp: FreeNode_pop_def dll_def)

end
