(* ===== verification/Buddy_Blocks.thy ===== *)
theory Buddy_Blocks
  imports Exo_Prelude
begin

text \<open>
  The specification of a buddy zone: per-order lists of free blocks, named by their
  zone-relative frame number, that are aligned, in range and pairwise disjoint.  Allocation
  takes a block off the first non-empty order and splits it; release merges with the buddy as
  long as it is free.  This level knows nothing of bitmaps, descriptors or pointers; the
  allocator of \<open>Buddy_Zone\<close> is proved to implement it.
\<close>

section \<open>Definitions\<close>

type_synonym free_lists = "nat \<Rightarrow> nat list"

definition block :: "nat \<Rightarrow> nat \<Rightarrow> nat set" where
  "block p k = {p ..< p + 2 ^ k}"

definition covered :: "free_lists \<Rightarrow> nat set" where
  "covered L = (\<Union>k \<in> {..12}. \<Union>p \<in> set (L k). block p k)"

definition lists_ok :: "nat \<Rightarrow> free_lists \<Rightarrow> bool" where
  "lists_ok n L \<longleftrightarrow>
     (\<forall>k\<le>12. distinct (L k) \<and> (\<forall>p \<in> set (L k). 2 ^ k dvd p \<and> p + 2 ^ k \<le> n)) \<and>
     (\<forall>k\<le>12. \<forall>j\<le>12. \<forall>p \<in> set (L k). \<forall>q \<in> set (L j).
        (p, k) \<noteq> (q, j) \<longrightarrow> block p k \<inter> block q j = {})"

text \<open>An aligned block of the zone that is in no list.\<close>

definition hole :: "nat \<Rightarrow> free_lists \<Rightarrow> nat \<Rightarrow> nat \<Rightarrow> bool" where
  "hole n L p k \<longleftrightarrow> k \<le> 12 \<and> 2 ^ k dvd p \<and> p + 2 ^ k \<le> n \<and> block p k \<inter> covered L = {}"

definition abs_split :: "free_lists \<Rightarrow> nat \<Rightarrow> nat list \<Rightarrow> free_lists" where
  "abs_split L p ks = foldl (\<lambda>L k. L(k := (p + 2 ^ k) # L k)) L ks"

definition abs_alloc :: "free_lists \<Rightarrow> nat \<Rightarrow> (nat \<times> free_lists) option" where
  "abs_alloc L order =
    (case find (\<lambda>k. L k \<noteq> []) [order..<13] of
       None \<Rightarrow> None
     | Some k \<Rightarrow> Some (hd (L k), abs_split (L(k := tl (L k))) (hd (L k)) (rev [order..<k])))"

definition buddy :: "nat \<Rightarrow> nat \<Rightarrow> nat" where
  "buddy p k = p XOR 2 ^ k"

function abs_free :: "free_lists \<Rightarrow> nat \<Rightarrow> nat \<Rightarrow> free_lists" where
  "abs_free L p k =
    (if k < 12 \<and> buddy p k \<in> set (L k)
     then abs_free (L(k := remove1 (buddy p k) (L k))) (min p (buddy p k)) (Suc k)
     else L(k := p # L k))"
  by pat_completeness auto
termination by (relation "measure (\<lambda>(L, p, k). 12 - k)") auto

declare abs_free.simps [simp del]

section \<open>Dyadic blocks\<close>

lemma card_block [simp]: "card (block p k) = 2 ^ k"
  and finite_block [simp]: "finite (block p k)"
  by (simp_all add: block_def)

lemma block_self [simp]: "p \<in> block p k"
  by (simp add: block_def)

lemma block_nonempty [simp]: "block p k \<noteq> {}"
  using block_self by blast

text \<open>An aligned block that meets a smaller-or-equal aligned block contains it.\<close>

lemma block_nested:
  assumes "2 ^ j dvd p" "2 ^ k dvd q" "k \<le> j" "block p j \<inter> block q k \<noteq> {}"
  shows "block q k \<subseteq> block p j"
proof -
  obtain x where "x \<in> block p j" "x \<in> block q k" using assms(4) by blast
  then have x: "p \<le> x" "x < p + 2 ^ j" "q \<le> x" "x < q + 2 ^ k" by (simp_all add: block_def)
  obtain m where m: "p = 2 ^ j * m" using assms(1) by blast
  obtain i where i: "q = 2 ^ k * i" using assms(2) by blast
  have j: "(2::nat) ^ j = 2 ^ k * 2 ^ (j - k)" using assms(3) by (simp add: power_add [symmetric])
  let ?d = "2 ^ (j - k) :: nat"
  have "2 ^ k * (?d * m) < 2 ^ k * (i + 1)" using x m i j by (simp add: mult.assoc)
  then have dm: "?d * m < i + 1" by (simp only: nat_mult_less_cancel_disj)
  have "2 ^ k * i < 2 ^ k * (?d * m + ?d)"
  proof -
    have "2 ^ k * i \<le> x" using x i by simp
    also have "x < 2 ^ k * ?d * m + 2 ^ k * ?d" using x m j by simp
    finally show ?thesis by (simp add: algebra_simps)
  qed
  then have "i + 1 \<le> ?d * m + ?d" by (simp only: nat_mult_less_cancel_disj) simp
  then have "2 ^ k * (i + 1) \<le> 2 ^ k * (?d * m + ?d)" by (rule mult_left_mono) simp
  then have "q + 2 ^ k \<le> p + 2 ^ j" using m i j by (simp add: algebra_simps)
  moreover have "p \<le> q"
  proof -
    have "?d * m \<le> i" using dm by simp
    then have "2 ^ k * (?d * m) \<le> 2 ^ k * i" by (rule mult_left_mono) simp
    then show ?thesis using m i j by (simp add: mult.assoc)
  qed
  ultimately show ?thesis by (auto simp: block_def)
qed

lemma buddy_eq:
  assumes "2 ^ k dvd p"
  shows "buddy p k = (if 2 ^ Suc k dvd p then p + 2 ^ k else p - 2 ^ k)"
proof -
  obtain m where m: "p = 2 ^ k * m" using assms by blast
  have "buddy p k = push_bit k m XOR push_bit k 1"
    unfolding buddy_def m push_bit_eq_mult by (simp only: mult_1 mult.commute)
  also have "\<dots> = push_bit k (m XOR 1)" by (simp only: push_bit_xor)
  also have "m XOR 1 = (if even m then m + 1 else m - 1)"
    by (cases "even m") (simp_all only: xor_one_eq, simp_all)
  finally have b: "buddy p k = 2 ^ k * (if even m then m + 1 else m - 1)"
    by (simp only: push_bit_eq_mult mult.commute)
  have "2 ^ Suc k dvd p \<longleftrightarrow> even m" by (simp add: m mult.commute)
  then show ?thesis using b m by (auto simp: distrib_left right_diff_distrib')
qed

lemma buddy_block:
  assumes "2 ^ k dvd p"
  shows "block p k \<union> block (buddy p k) k = block (min p (buddy p k)) (Suc k)"
    and "block p k \<inter> block (buddy p k) k = {}"
    and "2 ^ Suc k dvd min p (buddy p k)"
    and "2 ^ k dvd buddy p k"
proof -
  obtain m where m: "p = 2 ^ k * m" using assms by blast
  have ge: "2 ^ k \<le> p" if "\<not> 2 ^ Suc k dvd p"
    using that m by (cases m) auto
  show "block p k \<union> block (buddy p k) k = block (min p (buddy p k)) (Suc k)"
    and "block p k \<inter> block (buddy p k) k = {}"
    using ge by (auto simp: buddy_eq [OF assms] block_def)
  show "2 ^ Suc k dvd min p (buddy p k)"
  proof (cases "2 ^ Suc k dvd p")
    case True
    then show ?thesis by (simp add: buddy_eq [OF assms])
  next
    case False
    then have "odd m" using m by (auto simp: mult.commute)
    then obtain i where "m = 2 * i + 1" by (auto elim: oddE)
    then have "p - 2 ^ k = 2 ^ Suc k * i" using m by (simp add: algebra_simps)
    moreover have "min p (buddy p k) = p - 2 ^ k" using False by (simp add: buddy_eq [OF assms])
    ultimately show ?thesis by simp
  qed
  show "2 ^ k dvd buddy p k" using assms by (auto simp: buddy_eq [OF assms] dvd_diff_nat)
qed

lemma buddy_involution:
  assumes "2 ^ k dvd p"
  shows "buddy (buddy p k) k = p"
  by (simp add: buddy_def xor.assoc)

section \<open>Adding, removing and splitting blocks\<close>

lemma covered_iff: "x \<in> covered L \<longleftrightarrow> (\<exists>k p. p \<in> set (L k) \<and> x \<in> block p k \<and> k \<le> 12)"
  unfolding covered_def by blast

lemma block_covered: "k \<le> 12 \<Longrightarrow> p \<in> set (L k) \<Longrightarrow> block p k \<subseteq> covered L"
  unfolding subset_iff covered_iff by blast

lemma covered_upd_cons:
  assumes "k \<le> 12"
  shows "covered (L(k := q # L k)) = covered L \<union> block q k"
proof (rule set_eqI)
  fix x
  have "(\<exists>j p. p \<in> set ((L(k := q # L k)) j) \<and> x \<in> block p j \<and> j \<le> 12) \<longleftrightarrow>
      (\<exists>j p. p \<in> set (L j) \<and> x \<in> block p j \<and> j \<le> 12) \<or> x \<in> block q k" (is "?l \<longleftrightarrow> ?r")
  proof
    assume ?l
    then obtain j p where "j \<le> 12" "p \<in> set ((L(k := q # L k)) j)" "x \<in> block p j" by blast
    then show ?r by (cases "j = k"; cases "p = q") (simp_all, blast+)
  next
    assume ?r
    then show ?l
    proof
      assume "\<exists>j p. p \<in> set (L j) \<and> x \<in> block p j \<and> j \<le> 12"
      then obtain j p where "j \<le> 12" "p \<in> set (L j)" "x \<in> block p j" by blast
      then show ?l by (intro exI [of _ j] exI [of _ p]) auto
    next
      assume "x \<in> block q k"
      then show ?l using assms by (intro exI [of _ k] exI [of _ q]) auto
    qed
  qed
  then show "x \<in> covered (L(k := q # L k)) \<longleftrightarrow> x \<in> covered L \<union> block q k" by (simp only: covered_iff Un_iff)
qed

lemma lists_okD:
  assumes "lists_ok n L" "k \<le> 12"
  shows "distinct (L k)" "p \<in> set (L k) \<Longrightarrow> 2 ^ k dvd p" "p \<in> set (L k) \<Longrightarrow> p + 2 ^ k \<le> n"
    "p \<in> set (L k) \<Longrightarrow> q \<in> set (L j) \<Longrightarrow> j \<le> 12 \<Longrightarrow> (p, k) \<noteq> (q, j) \<Longrightarrow> block p k \<inter> block q j = {}"
  using assms unfolding lists_ok_def by auto

lemma lists_okI:
  assumes "\<And>k. k \<le> 12 \<Longrightarrow> distinct (L k)"
    and "\<And>k p. k \<le> 12 \<Longrightarrow> p \<in> set (L k) \<Longrightarrow> 2 ^ k dvd p"
    and "\<And>k p. k \<le> 12 \<Longrightarrow> p \<in> set (L k) \<Longrightarrow> p + 2 ^ k \<le> n"
    and "\<And>k p j q. k \<le> 12 \<Longrightarrow> p \<in> set (L k) \<Longrightarrow> j \<le> 12 \<Longrightarrow> q \<in> set (L j) \<Longrightarrow> (p, k) \<noteq> (q, j) \<Longrightarrow>
      block p k \<inter> block q j = {}"
  shows "lists_ok n L"
  using assms unfolding lists_ok_def by blast

lemma covered_less: "lists_ok n L \<Longrightarrow> covered L \<subseteq> {..<n}"
proof
  fix x assume ok: "lists_ok n L" and "x \<in> covered L"
  then obtain k p where "p \<in> set (L k)" "x \<in> block p k" "k \<le> 12" unfolding covered_iff by blast
  then show "x \<in> {..<n}" using lists_okD(3) [OF ok] by (fastforce simp: block_def)
qed

lemma finite_covered: "lists_ok n L \<Longrightarrow> finite (covered L)"
  using covered_less finite_subset by blast

lemma hole_not_listed: "hole n L p k \<Longrightarrow> p \<in> set (L j) \<Longrightarrow> j \<le> 12 \<Longrightarrow> False"
proof -
  assume "hole n L p k" "p \<in> set (L j)" "j \<le> 12"
  then have "p \<in> covered L" "block p k \<inter> covered L = {}"
    using block_covered [of j p L] block_self [of p j] by (auto simp: hole_def)
  then show False using block_self [of p k] by blast
qed

lemma lists_ok_cons:
  assumes ok: "lists_ok n L" and h: "hole n L q k"
  shows "lists_ok n (L(k := q # L k))"
proof -
  have k: "k \<le> 12" using h by (simp add: hole_def)
  have dis: "block q k \<inter> block p j = {}" if "p \<in> set (L j)" "j \<le> 12" for p j
    using h block_covered [of j p L] that by (auto simp: hole_def)
  have "q \<notin> set (L k)" using hole_not_listed [OF h _ k] by blast
  show ?thesis
  proof (rule lists_okI)
    fix j :: nat assume j: "j \<le> 12"
    show "distinct ((L(k := q # L k)) j)"
      using lists_okD(1) [OF ok j] \<open>q \<notin> set (L k)\<close> by (cases "j = k") simp_all
    fix p assume p: "p \<in> set ((L(k := q # L k)) j)"
    show "2 ^ j dvd p" "p + 2 ^ j \<le> n"
      using lists_okD(2,3) [OF ok j, of p] h p by (auto simp: hole_def split: if_splits)
    fix i r assume i: "i \<le> 12" and r: "r \<in> set ((L(k := q # L k)) i)" and ne: "(p, j) \<noteq> (r, i)"
    show "block p j \<inter> block r i = {}"
    proof (cases "(p, j) = (q, k) \<or> (r, i) = (q, k)")
      case True
      then show ?thesis using dis [of r i] dis [of p j] i j p r ne by (auto simp: Int_commute split: if_splits)
    next
      case False
      then show ?thesis using lists_okD(4) [OF ok j, of p r i] p r i ne by (auto split: if_splits)
    qed
  qed
qed

lemma covered_remove:
  assumes "lists_ok n L" "k \<le> 12" "q \<in> set (L k)"
  shows "covered (L(k := remove1 q (L k))) = covered L - block q k"
proof
  have d: "distinct (L k)" using lists_okD(1) [OF assms(1,2)] .
  show "covered (L(k := remove1 q (L k))) \<subseteq> covered L - block q k"
  proof
    fix x assume "x \<in> covered (L(k := remove1 q (L k)))"
    then obtain j p where jp: "j \<le> 12" "p \<in> set ((L(k := remove1 q (L k))) j)" "x \<in> block p j"
      unfolding covered_iff by blast
    then have p: "p \<in> set (L j)" "(p, j) \<noteq> (q, k)" using d by (auto split: if_splits)
    then have "block p j \<inter> block q k = {}" using lists_okD(4) [OF assms(1) jp(1) p(1) assms(3,2)] by blast
    then show "x \<in> covered L - block q k" using jp p block_covered [of j p L] by blast
  qed
  show "covered L - block q k \<subseteq> covered (L(k := remove1 q (L k)))"
  proof
    fix x assume x: "x \<in> covered L - block q k"
    then have "x \<in> covered L" by simp
    then obtain j p where jp: "j \<le> 12" "p \<in> set (L j)" "x \<in> block p j" unfolding covered_iff by blast
    have "p \<in> set ((L(k := remove1 q (L k))) j)" using jp x d by (cases "j = k"; cases "p = q") auto
    then show "x \<in> covered (L(k := remove1 q (L k)))" unfolding covered_iff using jp by blast
  qed
qed

lemma lists_ok_remove:
  assumes "lists_ok n L" "k \<le> 12"
  shows "lists_ok n (L(k := remove1 q (L k)))"
proof -
  have sub: "p \<in> set (L j)" if "p \<in> set ((L(k := remove1 q (L k))) j)" for p j
    using that set_remove1_subset [of q "L k"] by (auto split: if_splits)
  show ?thesis
  proof (rule lists_okI)
    fix j p :: nat assume j: "j \<le> 12"
    show "distinct ((L(k := remove1 q (L k))) j)" using lists_okD(1) [OF assms(1) j] by (cases "j = k") simp_all
    assume p: "p \<in> set ((L(k := remove1 q (L k))) j)"
    show "2 ^ j dvd p" by (rule lists_okD(2) [OF assms(1) j sub [OF p]])
    show "p + 2 ^ j \<le> n" by (rule lists_okD(3) [OF assms(1) j sub [OF p]])
    fix i r assume i: "i \<le> 12" and r: "r \<in> set ((L(k := remove1 q (L k))) i)" and ne: "(p, j) \<noteq> (r, i)"
    show "block p j \<inter> block r i = {}" by (rule lists_okD(4) [OF assms(1) j sub [OF p] sub [OF r] i ne])
  qed
qed

lemma hole_remove:
  assumes "lists_ok n L" "k \<le> 12" "q \<in> set (L k)"
  shows "hole n (L(k := remove1 q (L k))) q k"
  using lists_okD(2,3) [OF assms] assms(2) covered_remove [OF assms] by (auto simp: hole_def)

text \<open>Splitting keeps the lower half out and hands the upper half back.\<close>

lemma split_step:
  assumes "lists_ok n L" "hole n L p (Suc k)"
  shows "hole n L (p + 2 ^ k) k"
    and "hole n (L(k := (p + 2 ^ k) # L k)) p k"
    and "block p (Suc k) = block p k \<union> block (p + 2 ^ k) k"
proof -
  have b: "block p (Suc k) = block p k \<union> block (p + 2 ^ k) k" "block p k \<inter> block (p + 2 ^ k) k = {}"
    by (auto simp: block_def)
  have "2 ^ Suc k dvd p" using assms(2) by (simp add: hole_def)
  then have dv: "2 ^ k dvd p" by (metis dvd_mult_right power_Suc)
  then have "2 ^ k dvd p + 2 ^ k" by simp
  then show h: "hole n L (p + 2 ^ k) k" using assms(2) b by (auto simp: hole_def)
  show "hole n (L(k := (p + 2 ^ k) # L k)) p k"
    using assms(2) dv b covered_upd_cons [of k L "p + 2 ^ k"] by (auto simp: hole_def)
  show "block p (Suc k) = block p k \<union> block (p + 2 ^ k) k" by (rule b(1))
qed

lemma abs_split_ok:
  assumes "lists_ok n L" "hole n L p (order + d)"
  defines "L' \<equiv> abs_split L p (rev [order..<order + d])"
  shows "lists_ok n L' \<and> hole n L' p order \<and> covered L' \<union> block p order = covered L \<union> block p (order + d)"
  using assms(1,2) unfolding L'_def
proof (induction d arbitrary: L)
  case 0
  then show ?case by (simp add: abs_split_def)
next
  case (Suc d)
  let ?k = "order + d"
  let ?L = "L(?k := (p + 2 ^ ?k) # L ?k)"
  have h: "hole n L p (Suc ?k)" using Suc.prems by simp
  note s = split_step [OF Suc.prems(1) h]
  have k: "?k \<le> 12" using h by (simp add: hole_def)
  have e: "abs_split L p (rev [order..<order + Suc d]) = abs_split ?L p (rev [order..<order + d])"
    by (simp add: abs_split_def)
  have "lists_ok n ?L" by (rule lists_ok_cons [OF Suc.prems(1) s(1)])
  have ih: "lists_ok n (abs_split ?L p (rev [order..<order + d])) \<and>
      hole n (abs_split ?L p (rev [order..<order + d])) p order \<and>
      covered (abs_split ?L p (rev [order..<order + d])) \<union> block p order = covered ?L \<union> block p ?k"
    by (rule Suc.IH) (fact \<open>lists_ok n ?L\<close>, rule s(2))
  have "covered L \<union> block p (order + Suc d) = covered ?L \<union> block p ?k"
    unfolding covered_upd_cons [OF k] add_Suc_right s(3) by blast
  then show ?case unfolding e using ih by (simp only:)
qed

lemma abs_split_lists:
  "abs_split L p (rev [order..<order + d]) j =
     (if order \<le> j \<and> j < order + d then (p + 2 ^ j) # L j else L j)"
  by (induction d arbitrary: L) (auto simp: abs_split_def)

section \<open>Allocation\<close>

lemma abs_alloc_None_iff: "abs_alloc L order = None \<longleftrightarrow> (\<forall>k. order \<le> k \<and> k < 13 \<longrightarrow> L k = [])"
proof -
  have "abs_alloc L order = None \<longleftrightarrow> find (\<lambda>k. L k \<noteq> []) [order..<13] = None"
    by (simp add: abs_alloc_def split: option.splits)
  then show ?thesis by (simp add: find_upt_None_iff)
qed

lemma abs_alloc_Some:
  assumes ok: "lists_ok n L" and al: "abs_alloc L order = Some (p, L')"
  shows "lists_ok n L'" "hole n L' p order" "covered L = covered L' \<union> block p order"
    "block p order \<inter> covered L' = {}"
proof -
  obtain k where k: "find (\<lambda>k. L k \<noteq> []) [order..<13] = Some k" "p = hd (L k)"
    "L' = abs_split (L(k := tl (L k))) p (rev [order..<k])"
    using al by (auto simp: abs_alloc_def split: option.splits)
  then have ord: "order \<le> k" "k \<le> 12" "L k \<noteq> []" by (auto simp: find_upt_Some_iff)
  have p: "p \<in> set (L k)" using k(2) ord by simp
  have tl: "tl (L k) = remove1 p (L k)" using ord k(2) by (cases "L k") auto
  define d where "d = k - order"
  have d: "k = order + d" using ord d_def by simp
  let ?L = "L(k := tl (L k))"
  have ok1: "lists_ok n ?L" unfolding tl by (rule lists_ok_remove [OF ok ord(2)])
  have h1: "hole n ?L p k" unfolding tl by (rule hole_remove [OF ok ord(2) p])
  have c1: "covered ?L = covered L - block p k" unfolding tl by (rule covered_remove [OF ok ord(2) p])
  have res: "lists_ok n L' \<and> hole n L' p order \<and> covered L' \<union> block p order = covered ?L \<union> block p k"
    using abs_split_ok [OF ok1, of p order d] h1 k(3) d by simp
  show "lists_ok n L'" "hole n L' p order" using res by auto
  show "covered L = covered L' \<union> block p order"
    using res c1 block_covered [OF ord(2), of p L] p by auto
  show "block p order \<inter> covered L' = {}" using res by (auto simp: hole_def)
qed

section \<open>Release\<close>

lemma merge_hole:
  assumes ok: "lists_ok n L" and h: "hole n L p k" and k12: "k < 12" and b: "buddy p k \<in> set (L k)"
  shows "hole n (L(k := remove1 (buddy p k) (L k))) (min p (buddy p k)) (Suc k)"
proof -
  let ?b = "buddy p k"
  let ?L = "L(k := remove1 ?b (L k))"
  have k: "k \<le> 12" and dv: "2 ^ k dvd p" using h by (auto simp: hole_def)
  have c: "covered ?L = covered L - block ?b k" by (rule covered_remove [OF ok k b])
  have hb: "hole n ?L ?b k" by (rule hole_remove [OF ok k b])
  note bl = buddy_block [OF dv]
  have "min p ?b + 2 ^ Suc k \<le> n"
  proof -
    have "p + 2 ^ k \<le> n" "?b + 2 ^ k \<le> n" using h hb by (auto simp: hole_def)
    moreover have "p = ?b + 2 ^ k \<or> ?b = p + 2 ^ k"
    proof (cases "2 ^ Suc k dvd p")
      case False
      obtain m where m: "p = 2 ^ k * m" using dv by blast
      have "2 ^ k \<le> p" using False m by (cases m) auto
      then show ?thesis using False by (simp add: buddy_eq [OF dv])
    qed (simp add: buddy_eq [OF dv])
    ultimately show ?thesis by auto
  qed
  moreover have "block (min p ?b) (Suc k) \<inter> covered ?L = {}"
  proof -
    have "block p k \<inter> covered L = {}" using h by (simp add: hole_def)
    then show ?thesis unfolding bl(1) [symmetric] c by blast
  qed
  ultimately show ?thesis using k12 bl(3) by (simp add: hole_def)
qed

lemma abs_free_ok:
  assumes "lists_ok n L" "hole n L p k"
  shows "lists_ok n (abs_free L p k) \<and> covered (abs_free L p k) = covered L \<union> block p k"
  using assms
proof (induction L p k rule: abs_free.induct)
  case (1 L p k)
  let ?b = "buddy p k"
  have k: "k \<le> 12" and dv: "2 ^ k dvd p" using 1(3) by (auto simp: hole_def)
  show ?case
  proof (cases "k < 12 \<and> ?b \<in> set (L k)")
    case True
    let ?L = "L(k := remove1 ?b (L k))"
    have b: "?b \<in> set (L k)" using True by simp
    have ok: "lists_ok n ?L" by (rule lists_ok_remove [OF 1(2) k])
    have c: "covered ?L = covered L - block ?b k" by (rule covered_remove [OF 1(2) k b])
    note bl = buddy_block [OF dv]
    have h: "hole n ?L (min p ?b) (Suc k)" using merge_hole [OF 1(2,3)] True by blast
    have e: "abs_free L p k = abs_free ?L (min p ?b) (Suc k)" using True by (subst abs_free.simps) simp
    have ih: "lists_ok n (abs_free ?L (min p ?b) (Suc k)) \<and>
        covered (abs_free ?L (min p ?b) (Suc k)) = covered ?L \<union> block (min p ?b) (Suc k)"
      by (rule 1(1) [OF True ok h])
    have "block ?b k \<subseteq> covered L" using block_covered [of k ?b L] k b by simp
    then have "covered ?L \<union> block (min p ?b) (Suc k) = covered L \<union> block p k"
      unfolding c bl(1) [symmetric] by blast
    then show ?thesis unfolding e using ih by (simp only:)
  next
    case False
    then have e: "abs_free L p k = L(k := p # L k)" by (subst abs_free.simps) auto
    have "covered (L(k := p # L k)) = covered L \<union> block p k" by (rule covered_upd_cons [OF k])
    with lists_ok_cons [OF 1(2,3)] show ?thesis by (simp only: e)
  qed
qed

text \<open>Merging stops only at the largest order or when the buddy is not free at that order.\<close>

lemma abs_free_maximal:
  assumes "lists_ok n L" "hole n L p k"
  shows "\<exists>q j. k \<le> j \<and> j \<le> 12 \<and> q \<in> set (abs_free L p k j) \<and> block p k \<subseteq> block q j \<and>
    (j = 12 \<or> buddy q j \<notin> set (abs_free L p k j))"
  using assms
proof (induction L p k rule: abs_free.induct)
  case (1 L p k)
  let ?b = "buddy p k"
  have k: "k \<le> 12" and dv: "2 ^ k dvd p" using 1(3) by (auto simp: hole_def)
  show ?case
  proof (cases "k < 12 \<and> ?b \<in> set (L k)")
    case True
    let ?L = "L(k := remove1 ?b (L k))"
    have b: "?b \<in> set (L k)" using True by simp
    have ok: "lists_ok n ?L" by (rule lists_ok_remove [OF 1(2) k])
    have h: "hole n ?L (min p ?b) (Suc k)" using merge_hole [OF 1(2,3)] True by blast
    have e: "abs_free L p k = abs_free ?L (min p ?b) (Suc k)" using True by (subst abs_free.simps) simp
    obtain q j where qj: "Suc k \<le> j" "j \<le> 12" "q \<in> set (abs_free ?L (min p ?b) (Suc k) j)"
      "block (min p ?b) (Suc k) \<subseteq> block q j"
      "j = 12 \<or> buddy q j \<notin> set (abs_free ?L (min p ?b) (Suc k) j)"
      using 1(1) [OF True ok h] by blast
    have "block p k \<subseteq> block q j" using qj(4) buddy_block(1) [OF dv] by blast
    then show ?thesis unfolding e using qj Suc_leD by blast
  next
    case False
    then have e: "abs_free L p k = L(k := p # L k)" by (subst abs_free.simps) auto
    have "?b \<noteq> p" using buddy_block(2) [OF dv] block_self [of p k] by auto
    then have "k = 12 \<or> ?b \<notin> set (abs_free L p k k)" using False k e by auto
    moreover have "p \<in> set (abs_free L p k k)" by (simp add: e)
    ultimately show ?thesis using k by blast
  qed
qed

end
