(* ===== verification/Buddy_Zone.thy ===== *)
theory Buddy_Zone
  imports Buddy_List Buddy_Blocks
begin

text \<open>
  One buddy zone (\<open>BuddyZone\<close> in \<open>kernel/src/memory/physical/allocator/buddy.rs\<close>) with the
  table of frame descriptors it updates (\<open>kernel/src/memory/physical/frame/descriptor.rs\<close>).
  Physical addresses and frame numbers are naturals: zones lie below \<open>2^64\<close> and the source
  guards the one addition that could overflow, which is written out.  Counters are 64-bit
  words and wrap.  The memory the allocator shares with the rest of the kernel is the record
  \<open>phys_mem\<close>: the heap of free-list nodes and the flags of the frame descriptors.  The
  double-allocation tracing hooks of the source are not represented.
\<close>

section \<open>Definitions\<close>

definition PAGE_SIZE :: nat where [simp]: "PAGE_SIZE = 4096"
definition BUDDY_MAX_ORDER :: nat where [simp]: "BUDDY_MAX_ORDER = 12"
definition MAX_PHYS_FRAMES :: nat where [simp]: "MAX_PHYS_FRAMES = 2097152"

datatype ZoneType = Dma | Dma32 | Normal | High | Movable

datatype AllocError = OutOfMemory | Fragmentation | InvalidParams | NotInitialized | WouldBlock
  | ZoneUnavailable | LimitExceeded

type_synonym AllocFlags = u32

definition AllocFlags_DMA :: AllocFlags where "AllocFlags_DMA = push_bit 1 1"
definition AllocFlags_DMA32 :: AllocFlags where "AllocFlags_DMA32 = push_bit 2 1"
definition AllocFlags_ZEROED :: AllocFlags where "AllocFlags_ZEROED = push_bit 3 1"
definition AllocFlags_MOVABLE :: AllocFlags where "AllocFlags_MOVABLE = push_bit 7 1"

definition AllocFlags_contains :: "AllocFlags \<Rightarrow> AllocFlags \<Rightarrow> bool" where
  "AllocFlags_contains self f = (self AND f = f)"

definition required_zone :: "AllocFlags \<Rightarrow> ZoneType" where
  "required_zone self =
    (if AllocFlags_contains self AllocFlags_DMA then Dma
     else if AllocFlags_contains self AllocFlags_DMA32 then Dma32
     else if AllocFlags_contains self AllocFlags_MOVABLE then Movable
     else Normal)"

subsection \<open>Frame descriptors\<close>

type_synonym FrameFlags = u16

definition FrameFlags_FREE :: FrameFlags where "FrameFlags_FREE = push_bit 0 1"
definition FrameFlags_DMA :: FrameFlags where "FrameFlags_DMA = push_bit 3 1"
definition FrameFlags_PINNED :: FrameFlags where "FrameFlags_PINNED = push_bit 4 1"
definition FrameFlags_RESERVED :: FrameFlags where "FrameFlags_RESERVED = push_bit 13 1"
definition FrameFlags_DMA_PINNED :: FrameFlags where
  "FrameFlags_DMA_PINNED = FrameFlags_DMA OR FrameFlags_PINNED"

definition FrameFlags_contains :: "FrameFlags \<Rightarrow> FrameFlags \<Rightarrow> bool" where
  "FrameFlags_contains self f = (self AND f = f)"

record phys_mem =
  pm_heap :: heap
  pm_desc :: "nat \<Rightarrow> FrameFlags"

definition desc_slot :: "nat \<Rightarrow> nat" where
  "desc_slot frame = min frame (MAX_PHYS_FRAMES - 1)"

definition desc_flags :: "phys_mem \<Rightarrow> nat \<Rightarrow> FrameFlags" where
  "desc_flags m frame = pm_desc m (desc_slot frame)"

definition desc_set_flag :: "phys_mem \<Rightarrow> nat \<Rightarrow> FrameFlags \<Rightarrow> phys_mem" where
  "desc_set_flag m frame f =
     m\<lparr>pm_desc := (pm_desc m)(desc_slot frame := pm_desc m (desc_slot frame) OR f)\<rparr>"

definition desc_clear_flag :: "phys_mem \<Rightarrow> nat \<Rightarrow> FrameFlags \<Rightarrow> phys_mem" where
  "desc_clear_flag m frame f =
     m\<lparr>pm_desc := (pm_desc m)(desc_slot frame := pm_desc m (desc_slot frame) AND NOT f)\<rparr>"

definition desc_swap_flags :: "phys_mem \<Rightarrow> nat \<Rightarrow> FrameFlags \<Rightarrow> phys_mem" where
  "desc_swap_flags m frame f = m\<lparr>pm_desc := (pm_desc m)(desc_slot frame := f)\<rparr>"

definition reserve_frame_descriptor :: "phys_mem \<Rightarrow> nat \<Rightarrow> phys_mem" where
  "reserve_frame_descriptor m frame =
    (let m = desc_set_flag m frame FrameFlags_PINNED;
         m = desc_set_flag m frame FrameFlags_RESERVED
     in desc_clear_flag m frame FrameFlags_FREE)"

subsection \<open>The zone\<close>

record BuddyZone =
  bz_id :: nat
  bz_zone_type :: ZoneType
  bz_numa_node :: u8
  bz_phys_start :: nat
  bz_phys_end :: nat
  bz_total_frames :: nat
  bz_counts :: "nat \<Rightarrow> u64"
  bz_bitmap :: "(nat \<Rightarrow> u64) option"
  bz_bitmap_words :: nat
  bz_free_frames :: u64
  bz_alloc_count :: u64
  bz_free_count :: u64
  bz_fail_count :: u64
  bz_split_count :: u64
  bz_merge_count :: u64
  bz_initialized :: bool

definition BuddyZone_new_uninit :: "nat \<Rightarrow> BuddyZone" where
  "BuddyZone_new_uninit i = \<lparr>bz_id = i, bz_zone_type = Normal, bz_numa_node = 0, bz_phys_start = 0,
     bz_phys_end = 0, bz_total_frames = 0, bz_counts = (\<lambda>k. 0), bz_bitmap = None, bz_bitmap_words = 0,
     bz_free_frames = 0, bz_alloc_count = 0, bz_free_count = 0, bz_fail_count = 0, bz_split_count = 0,
     bz_merge_count = 0, bz_initialized = False\<rparr>"

abbreviation bump_fail :: "BuddyZone \<Rightarrow> BuddyZone" where
  "bump_fail z \<equiv> z\<lparr>bz_fail_count := bz_fail_count z + 1\<rparr>"

definition bitmap_clear :: "BuddyZone \<Rightarrow> nat \<Rightarrow> BuddyZone" where
  "bitmap_clear z pfn =
    (case bz_bitmap z of None \<Rightarrow> z
     | Some b \<Rightarrow>
         let word = pfn div 64; bit = pfn mod 64 in
         if word < bz_bitmap_words z
         then z\<lparr>bz_bitmap := Some (b(word := b word AND NOT (push_bit bit 1)))\<rparr> else z)"

definition bitmap_set :: "BuddyZone \<Rightarrow> nat \<Rightarrow> BuddyZone" where
  "bitmap_set z pfn =
    (case bz_bitmap z of None \<Rightarrow> z
     | Some b \<Rightarrow>
         let word = pfn div 64; bit = pfn mod 64 in
         if word < bz_bitmap_words z
         then z\<lparr>bz_bitmap := Some (b(word := b word OR push_bit bit 1))\<rparr> else z)"

definition bitmap_is_free :: "BuddyZone \<Rightarrow> nat \<Rightarrow> bool" where
  "bitmap_is_free z pfn =
    (case bz_bitmap z of None \<Rightarrow> False
     | Some b \<Rightarrow>
         let word = pfn div 64; bit = pfn mod 64 in
         if word \<ge> bz_bitmap_words z then False else b word AND push_bit bit 1 = 0)"

definition bitmap_is_allocated :: "BuddyZone \<Rightarrow> nat \<Rightarrow> bool" where
  "bitmap_is_allocated z pfn =
    (case bz_bitmap z of None \<Rightarrow> False
     | Some b \<Rightarrow>
         let word = pfn div 64; bit = pfn mod 64 in
         if word \<ge> bz_bitmap_words z then False else b word AND push_bit bit 1 \<noteq> 0)"

definition bitmap_range_is_free :: "BuddyZone \<Rightarrow> nat \<Rightarrow> nat \<Rightarrow> bool" where
  "bitmap_range_is_free z pfn cnt = list_all (\<lambda>i. bitmap_is_free z (pfn + i)) [0..<cnt]"

definition bitmap_range_is_allocated :: "BuddyZone \<Rightarrow> nat \<Rightarrow> nat \<Rightarrow> bool" where
  "bitmap_range_is_allocated z pfn cnt = list_all (\<lambda>i. bitmap_is_allocated z (pfn + i)) [0..<cnt]"

definition bitmap_clear_range :: "BuddyZone \<Rightarrow> nat \<Rightarrow> nat \<Rightarrow> BuddyZone" where
  "bitmap_clear_range z pfn cnt = foldl (\<lambda>z i. bitmap_clear z (pfn + i)) z [0..<cnt]"

definition bitmap_set_range :: "BuddyZone \<Rightarrow> nat \<Rightarrow> nat \<Rightarrow> BuddyZone" where
  "bitmap_set_range z pfn cnt = foldl (\<lambda>z i. bitmap_set z (pfn + i)) z [0..<cnt]"

definition is_aligned :: "nat \<Rightarrow> nat \<Rightarrow> bool" where
  "is_aligned value align = (value AND (align - 1) = 0)"

definition contains_block :: "BuddyZone \<Rightarrow> nat \<Rightarrow> nat \<Rightarrow> bool" where
  "contains_block z phys order =
    (if order > BUDDY_MAX_ORDER \<or> phys < bz_phys_start z then False
     else let bytes = PAGE_SIZE * 2 ^ order in
       if phys + bytes < 2 ^ 64 then phys + bytes \<le> bz_phys_end z else False)"

definition contains_aligned_block :: "BuddyZone \<Rightarrow> nat \<Rightarrow> nat \<Rightarrow> bool" where
  "contains_aligned_block z phys order =
    (if \<not> contains_block z phys order then False
     else is_aligned (phys - bz_phys_start z) (PAGE_SIZE * 2 ^ order))"

definition phys_to_pfn :: "BuddyZone \<Rightarrow> nat \<Rightarrow> nat" where
  "phys_to_pfn z phys = (phys - bz_phys_start z) div PAGE_SIZE"

definition pfn_to_frame :: "BuddyZone \<Rightarrow> nat \<Rightarrow> nat" where
  "pfn_to_frame z pfn = (bz_phys_start z + pfn * PAGE_SIZE) div PAGE_SIZE"

definition buddy_of :: "BuddyZone \<Rightarrow> nat \<Rightarrow> nat \<Rightarrow> nat" where
  "buddy_of z phys order =
    (let relative = phys - bz_phys_start z;
         buddy_relative = relative XOR (PAGE_SIZE * 2 ^ order)
     in bz_phys_start z + buddy_relative)"

definition descriptors_range_is_free :: "BuddyZone \<Rightarrow> phys_mem \<Rightarrow> nat \<Rightarrow> nat \<Rightarrow> bool" where
  "descriptors_range_is_free z m pfn cnt =
    list_all (\<lambda>i. let flags = desc_flags m (pfn_to_frame z (pfn + i)) in
      FrameFlags_contains flags FrameFlags_FREE \<and> \<not> FrameFlags_contains flags FrameFlags_RESERVED) [0..<cnt]"

definition descriptors_range_is_allocated :: "BuddyZone \<Rightarrow> phys_mem \<Rightarrow> nat \<Rightarrow> nat \<Rightarrow> bool" where
  "descriptors_range_is_allocated z m pfn cnt =
    list_all (\<lambda>i. \<not> FrameFlags_contains (desc_flags m (pfn_to_frame z (pfn + i))) FrameFlags_FREE) [0..<cnt]"

definition descriptors_range_has_reserved :: "BuddyZone \<Rightarrow> phys_mem \<Rightarrow> nat \<Rightarrow> nat \<Rightarrow> bool" where
  "descriptors_range_has_reserved z m pfn cnt =
    list_ex (\<lambda>i. FrameFlags_contains (desc_flags m (pfn_to_frame z (pfn + i))) FrameFlags_RESERVED) [0..<cnt]"

definition mark_descriptors_free :: "BuddyZone \<Rightarrow> phys_mem \<Rightarrow> nat \<Rightarrow> nat \<Rightarrow> phys_mem" where
  "mark_descriptors_free z m pfn cnt =
    foldl (\<lambda>m i. desc_swap_flags m (pfn_to_frame z (pfn + i)) FrameFlags_FREE) m [0..<cnt]"

definition mark_descriptors_allocated :: "BuddyZone \<Rightarrow> phys_mem \<Rightarrow> nat \<Rightarrow> nat \<Rightarrow> phys_mem" where
  "mark_descriptors_allocated z m pfn cnt =
    foldl (\<lambda>m i. desc_clear_flag m (pfn_to_frame z (pfn + i)) FrameFlags_FREE) m [0..<cnt]"

text \<open>Linking a fresh block into the list of its order: node initialisation, insertion, cnt.\<close>

definition push_block :: "BuddyZone \<Rightarrow> phys_mem \<Rightarrow> nat \<Rightarrow> nat \<Rightarrow> BuddyZone \<times> phys_mem" where
  "push_block z m phys order =
    (let h = FreeNode_init (pm_heap m) (Blk phys) (order mod 256);
         h = FreeNode_insert_after h (Head (bz_id z) order) (Blk phys)
     in (z\<lparr>bz_counts := (bz_counts z)(order := bz_counts z order + 1)\<rparr>, m\<lparr>pm_heap := h\<rparr>))"

definition BuddyZone_init :: "BuddyZone \<Rightarrow> phys_mem \<Rightarrow> ZoneType \<Rightarrow> u8 \<Rightarrow> nat \<Rightarrow> nat \<Rightarrow> (nat \<Rightarrow> u64) option
    \<Rightarrow> nat \<Rightarrow> BuddyZone \<times> phys_mem" where
  "BuddyZone_init z m zone_type numa_node phys_start phys_end bitmap_buf bitmap_words =
    (let z = z\<lparr>bz_zone_type := zone_type, bz_numa_node := numa_node, bz_phys_start := phys_start,
               bz_phys_end := phys_end, bz_total_frames := (phys_end - phys_start) div PAGE_SIZE\<rparr>;
         h = foldl (\<lambda>h k. h(Head (bz_id z) k := (h (Head (bz_id z) k))
                \<lparr>fn_next := Head (bz_id z) k, fn_prev := Head (bz_id z) k\<rparr>)) (pm_heap m) [0..<13];
         z = z\<lparr>bz_bitmap := map_option (\<lambda>b i. if i < bitmap_words then - 1 else b i) bitmap_buf,
               bz_bitmap_words := bitmap_words\<rparr>
     in (z\<lparr>bz_initialized := True\<rparr>, m\<lparr>pm_heap := h\<rparr>))"

definition add_free_block :: "BuddyZone \<Rightarrow> phys_mem \<Rightarrow> nat \<Rightarrow> nat \<Rightarrow> BuddyZone \<times> phys_mem" where
  "add_free_block z m phys order =
    (if order > BUDDY_MAX_ORDER \<or> \<not> contains_aligned_block z phys order then (bump_fail z, m)
     else let pfn = (phys - bz_phys_start z) div PAGE_SIZE; cnt = 2 ^ order in
       if \<not> bitmap_range_is_allocated z pfn cnt then (z, m)
       else let (z, m) = push_block z m phys order;
                z = bitmap_clear_range z pfn cnt;
                m = mark_descriptors_free z m pfn cnt
            in (z\<lparr>bz_free_frames := bz_free_frames z + of_nat cnt\<rparr>, m))"

fun trailing_zeros :: "nat \<Rightarrow> nat" where
  "trailing_zeros n = (if n = 0 then 64 else if odd n then 0 else Suc (trailing_zeros (n div 2)))"

fun ilog2 :: "nat \<Rightarrow> nat" where
  "ilog2 n = (if n \<le> 1 then 0 else Suc (ilog2 (n div 2)))"

declare trailing_zeros.simps [simp del] ilog2.simps [simp del]

text \<open>The inner loop of \<open>add_free_range\<close>: the largest order not above the given one whose
  frames are all still unclaimed.\<close>

primrec claim_order :: "BuddyZone \<Rightarrow> nat \<Rightarrow> nat \<Rightarrow> nat option" where
  "claim_order z pfn 0 = (if bitmap_range_is_allocated z pfn (2 ^ 0) then Some 0 else None)"
| "claim_order z pfn (Suc order) =
    (if bitmap_range_is_allocated z pfn (2 ^ Suc order) then Some (Suc order)
     else claim_order z pfn order)"

function add_free_range :: "BuddyZone \<Rightarrow> phys_mem \<Rightarrow> nat \<Rightarrow> nat \<Rightarrow> BuddyZone \<times> phys_mem" where
  "add_free_range z m pfn last_pfn =
    (if pfn < last_pfn then
       let remaining = last_pfn - pfn;
           max_order_by_align = (if pfn = 0 then BUDDY_MAX_ORDER else trailing_zeros pfn);
           max_order_by_count = ilog2 remaining;
           order = min (min max_order_by_align max_order_by_count) BUDDY_MAX_ORDER
       in case claim_order z pfn order of
            Some o' \<Rightarrow>
              let (z, m) = add_free_block z m (bz_phys_start z + pfn * PAGE_SIZE) o'
              in add_free_range z m (pfn + 2 ^ o') last_pfn
          | None \<Rightarrow> add_free_range z m (pfn + 1) last_pfn
     else (z, m))"
  by pat_completeness auto
termination by (relation "measure (\<lambda>(z, m, pfn, last_pfn). last_pfn - pfn)") (auto intro: diff_less_mono2)

declare add_free_range.simps [simp del]

text \<open>Allocation.  A popped node is always a block of the list, never a sentinel.\<close>

definition node_phys :: "node_ptr \<Rightarrow> nat" where
  "node_phys ptr = (case ptr of Blk a \<Rightarrow> a | _ \<Rightarrow> 0)"

definition split_block :: "nat \<Rightarrow> BuddyZone \<times> phys_mem \<Rightarrow> nat \<Rightarrow> BuddyZone \<times> phys_mem" where
  "split_block block_phys st split_order =
    (let (z, m) = st;
         buddy_phys = block_phys + PAGE_SIZE * 2 ^ split_order;
         (z, m) = push_block z m buddy_phys split_order;
         z = bitmap_clear_range z (phys_to_pfn z buddy_phys) (2 ^ split_order)
     in (z\<lparr>bz_split_count := bz_split_count z + 1\<rparr>, m))"

function alloc_inner :: "BuddyZone \<Rightarrow> phys_mem \<Rightarrow> nat \<Rightarrow> nat
    \<Rightarrow> (AllocError, nat) result \<times> BuddyZone \<times> phys_mem" where
  "alloc_inner z m order current_order =
    (if current_order \<le> BUDDY_MAX_ORDER then
       case FreeNode_pop (pm_heap m) (Head (bz_id z) current_order) of
         None \<Rightarrow> alloc_inner z m order (current_order + 1)
       | Some (node, h) \<Rightarrow>
           let m = m\<lparr>pm_heap := h\<rparr>;
               z = z\<lparr>bz_counts := (bz_counts z)(current_order := bz_counts z current_order - 1)\<rparr>;
               phys = node_phys node;
               popped_pfn = phys_to_pfn z phys;
               cnt = 2 ^ current_order
           in if \<not> contains_aligned_block z phys current_order
                \<or> descriptors_range_has_reserved z m popped_pfn cnt
                \<or> \<not> bitmap_range_is_free z popped_pfn cnt
                \<or> \<not> descriptors_range_is_free z m popped_pfn cnt
              then alloc_inner (bump_fail z) m order (current_order + 1)
              else let (z, m) = foldl (split_block phys) (z, m) (rev [order..<current_order]);
                       pfn = phys_to_pfn z phys;
                       z = bitmap_set_range z pfn (2 ^ order);
                       m = mark_descriptors_allocated z m pfn (2 ^ order)
                   in (Ok phys, z, m)
     else (Err OutOfMemory, z, m))"
  by pat_completeness auto
termination by (relation "measure (\<lambda>(z, m, order, current_order). 13 - current_order)") auto

declare alloc_inner.simps [simp del]

definition zero_pages :: "phys_mem \<Rightarrow> nat \<Rightarrow> nat \<Rightarrow> phys_mem" where
  "zero_pages m phys order =
    m\<lparr>pm_heap := (\<lambda>ptr. case ptr of
        Blk a \<Rightarrow> if phys \<le> a \<and> a < phys + PAGE_SIZE * 2 ^ order
                 then \<lparr>fn_next = NullPtr, fn_prev = NullPtr, fn_order = 0\<rparr> else pm_heap m ptr
      | _ \<Rightarrow> pm_heap m ptr)\<rparr>"

definition BuddyZone_alloc_pages :: "BuddyZone \<Rightarrow> phys_mem \<Rightarrow> nat \<Rightarrow> AllocFlags
    \<Rightarrow> (AllocError, nat) result \<times> BuddyZone \<times> phys_mem" where
  "BuddyZone_alloc_pages z m order flags =
    (if order > BUDDY_MAX_ORDER then (Err InvalidParams, bump_fail z, m)
     else if \<not> bz_initialized z then (Err NotInitialized, z, m)
     else let (result, z, m) = alloc_inner z m order order in
       case result of
         Inr phys \<Rightarrow>
           let z = z\<lparr>bz_free_frames := bz_free_frames z - 2 ^ order, bz_alloc_count := bz_alloc_count z + 1\<rparr>;
               m = (if AllocFlags_contains flags AllocFlags_ZEROED then zero_pages m phys order else m);
               frame = phys div PAGE_SIZE;
               m = (if AllocFlags_contains flags AllocFlags_DMA \<or> AllocFlags_contains flags AllocFlags_DMA32
                    then desc_set_flag m frame FrameFlags_DMA_PINNED else m)
           in (Ok frame, z, m)
       | Inl e \<Rightarrow> (Err e, bump_fail z, m))"

text \<open>Release with coalescing.\<close>

function merge_loop :: "BuddyZone \<Rightarrow> phys_mem \<Rightarrow> nat \<Rightarrow> nat \<Rightarrow> BuddyZone \<times> phys_mem \<times> nat \<times> nat" where
  "merge_loop z m current_phys current_order =
    (if current_order < BUDDY_MAX_ORDER then
       let buddy_phys = buddy_of z current_phys current_order in
       if buddy_phys < bz_phys_start z \<or> buddy_phys \<ge> bz_phys_end z then (z, m, current_phys, current_order)
       else let buddy_pfn = phys_to_pfn z buddy_phys in
         if \<not> list_all (\<lambda>i. bitmap_is_free z (buddy_pfn + i)) [0..<2 ^ current_order]
         then (z, m, current_phys, current_order)
         else if fn_order (pm_heap m (Blk buddy_phys)) \<noteq> current_order mod 256
         then (z, m, current_phys, current_order)
         else let m = m\<lparr>pm_heap := FreeNode_remove (pm_heap m) (Blk buddy_phys)\<rparr>;
                  z = z\<lparr>bz_counts := (bz_counts z)(current_order := bz_counts z current_order - 1),
                        bz_merge_count := bz_merge_count z + 1\<rparr>;
                  phys' = (if current_phys < buddy_phys then current_phys else buddy_phys)
              in merge_loop z m phys' (current_order + 1)
     else (z, m, current_phys, current_order))"
  by pat_completeness auto
termination by (relation "measure (\<lambda>(z, m, current_phys, current_order). 12 - current_order)") auto

declare merge_loop.simps [simp del]

definition free_inner :: "BuddyZone \<Rightarrow> phys_mem \<Rightarrow> nat \<Rightarrow> nat \<Rightarrow> BuddyZone \<times> phys_mem" where
  "free_inner z m phys order =
    (let z = bitmap_clear_range z (phys_to_pfn z phys) (2 ^ order);
         (z, m, current_phys, current_order) = merge_loop z m phys order
     in push_block z m current_phys current_order)"

definition BuddyZone_free_pages :: "BuddyZone \<Rightarrow> phys_mem \<Rightarrow> nat \<Rightarrow> nat
    \<Rightarrow> (AllocError, unit) result \<times> BuddyZone \<times> phys_mem" where
  "BuddyZone_free_pages z m frame order =
    (if order > BUDDY_MAX_ORDER then (Err InvalidParams, bump_fail z, m)
     else if \<not> bz_initialized z then (Err NotInitialized, z, m)
     else let phys = frame * PAGE_SIZE in
       if \<not> contains_block z phys order then (Err InvalidParams, bump_fail z, m)
       else if \<not> is_aligned (phys - bz_phys_start z) (PAGE_SIZE * 2 ^ order)
       then (Err InvalidParams, bump_fail z, m)
       else let pfn = phys_to_pfn z phys; cnt = 2 ^ order in
         if descriptors_range_has_reserved z m pfn cnt then (Err InvalidParams, bump_fail z, m)
         else if \<not> bitmap_range_is_allocated z pfn cnt then (Err InvalidParams, bump_fail z, m)
         else if \<not> descriptors_range_is_allocated z m pfn cnt then (Err InvalidParams, bump_fail z, m)
         else let m = mark_descriptors_free z m pfn cnt;
                  (z, m) = free_inner z m phys order
              in (Ok (), z\<lparr>bz_free_frames := bz_free_frames z + 2 ^ order,
                           bz_free_count := bz_free_count z + 1\<rparr>, m))"

end
