(* ===== verification/Buddy_Refine.thy ===== *)
theory Buddy_Refine
  imports Buddy_Zone
begin

text \<open>
  The buddy zone implements its specification.  \<open>zone_rel\<close> relates a zone and the memory it
  shares to the per-order block lists of \<open>Buddy_Blocks\<close>: every list is threaded through the
  heap, counts and the free-frame counter are exact, and bitmap and descriptors agree with the
  blocks.  Allocation and release preserve the relation and follow \<open>abs_alloc\<close> and
  \<open>abs_free\<close>, so they inherit the disjointness and coalescing results proved there.
\<close>

section \<open>Bitmap\<close>

definition covers :: "BuddyZone \<Rightarrow> nat \<Rightarrow> bool" where
  "covers z p \<longleftrightarrow> bz_bitmap z \<noteq> None \<and> p div 64 < bz_bitmap_words z"

lemma bitmap_is_free_iff:
  "bitmap_is_free z p \<longleftrightarrow> covers z p \<and> \<not> bit (the (bz_bitmap z) (p div 64)) (p mod 64)"
  by (auto simp: bitmap_is_free_def covers_def Let_def and_push_bit_0_iff simp del: push_bit_of_1
      split: option.splits)

lemma bitmap_is_allocated_iff: "bitmap_is_allocated z p \<longleftrightarrow> covers z p \<and> \<not> bitmap_is_free z p"
  unfolding bitmap_is_free_iff
  by (auto simp: bitmap_is_allocated_def covers_def Let_def and_push_bit_0_iff simp del: push_bit_of_1
      split: option.splits)

lemma bitmap_clear_covers [simp]: "covers (bitmap_clear z p) q = covers z q"
  by (auto simp: bitmap_clear_def covers_def Let_def split: option.splits)

lemma bitmap_set_covers [simp]: "covers (bitmap_set z p) q = covers z q"
  by (auto simp: bitmap_set_def covers_def Let_def split: option.splits)

lemma bitmap_clear_free: "bitmap_is_free (bitmap_clear z p) q \<longleftrightarrow> q = p \<and> covers z p \<or> bitmap_is_free z q"
  unfolding bitmap_is_free_iff bitmap_clear_covers div_mod_64 [of q p]
  by (auto simp: bitmap_clear_def covers_def Let_def bit_clear_one simp del: push_bit_of_1
      split: option.splits if_splits)

lemma bitmap_set_free: "bitmap_is_free (bitmap_set z p) q \<longleftrightarrow> q \<noteq> p \<and> bitmap_is_free z q"
  unfolding bitmap_is_free_iff bitmap_set_covers div_mod_64 [of q p]
  by (auto simp: bitmap_set_def covers_def Let_def bit_set_one simp del: push_bit_of_1
      split: option.splits if_splits)

lemma bitmap_clear_upd: "\<exists>b. bitmap_clear z p = z\<lparr>bz_bitmap := b\<rparr>"
  by (cases "bz_bitmap z")
    (auto simp: bitmap_clear_def Let_def intro: exI [of _ "bz_bitmap z"])

lemma bitmap_set_upd: "\<exists>b. bitmap_set z p = z\<lparr>bz_bitmap := b\<rparr>"
  by (cases "bz_bitmap z")
    (auto simp: bitmap_set_def Let_def intro: exI [of _ "bz_bitmap z"])

lemma foldl_bitmap_upd:
  assumes "\<And>z i. \<exists>b. f z i = z\<lparr>bz_bitmap := b\<rparr>"
  shows "\<exists>b. foldl f z xs = z\<lparr>bz_bitmap := b\<rparr>"
proof (induction xs arbitrary: z)
  case Nil
  show ?case by (intro exI [of _ "bz_bitmap z"]) simp
next
  case (Cons x xs)
  obtain b where b: "f z x = z\<lparr>bz_bitmap := b\<rparr>" using assms by blast
  obtain c where "foldl f (z\<lparr>bz_bitmap := b\<rparr>) xs = z\<lparr>bz_bitmap := b\<rparr>\<lparr>bz_bitmap := c\<rparr>" using Cons by blast
  then show ?case using b by auto
qed

lemma clear_range_upd: "\<exists>b. bitmap_clear_range z p n = z\<lparr>bz_bitmap := b\<rparr>"
  unfolding bitmap_clear_range_def by (rule foldl_bitmap_upd) (rule bitmap_clear_upd)

lemma set_range_upd: "\<exists>b. bitmap_set_range z p n = z\<lparr>bz_bitmap := b\<rparr>"
  unfolding bitmap_set_range_def by (rule foldl_bitmap_upd) (rule bitmap_set_upd)

lemma clear_range_fields [simp]:
  "bz_id (bitmap_clear_range z p n) = bz_id z"
  "bz_numa_node (bitmap_clear_range z p n) = bz_numa_node z"
  "bz_phys_start (bitmap_clear_range z p n) = bz_phys_start z"
  "bz_phys_end (bitmap_clear_range z p n) = bz_phys_end z"
  "bz_total_frames (bitmap_clear_range z p n) = bz_total_frames z"
  "bz_counts (bitmap_clear_range z p n) = bz_counts z"
  "bz_bitmap_words (bitmap_clear_range z p n) = bz_bitmap_words z"
  "bz_free_frames (bitmap_clear_range z p n) = bz_free_frames z"
  "bz_initialized (bitmap_clear_range z p n) = bz_initialized z"
  using clear_range_upd [of z p n] by auto

lemma set_range_fields [simp]:
  "bz_id (bitmap_set_range z p n) = bz_id z"
  "bz_numa_node (bitmap_set_range z p n) = bz_numa_node z"
  "bz_phys_start (bitmap_set_range z p n) = bz_phys_start z"
  "bz_phys_end (bitmap_set_range z p n) = bz_phys_end z"
  "bz_total_frames (bitmap_set_range z p n) = bz_total_frames z"
  "bz_counts (bitmap_set_range z p n) = bz_counts z"
  "bz_bitmap_words (bitmap_set_range z p n) = bz_bitmap_words z"
  "bz_free_frames (bitmap_set_range z p n) = bz_free_frames z"
  "bz_initialized (bitmap_set_range z p n) = bz_initialized z"
  using set_range_upd [of z p n] by auto

lemma clear_range_covers [simp]: "covers (bitmap_clear_range z p n) q = covers z q"
  by (induction n) (simp_all add: bitmap_clear_range_def)

lemma set_range_covers [simp]: "covers (bitmap_set_range z p n) q = covers z q"
  by (induction n) (simp_all add: bitmap_set_range_def)

lemma clear_range_free:
  "bitmap_is_free (bitmap_clear_range z p n) q \<longleftrightarrow> (q \<in> {p ..< p + n} \<and> covers z q) \<or> bitmap_is_free z q"
proof (induction n)
  case 0
  show ?case by (simp add: bitmap_clear_range_def)
next
  case (Suc n)
  have "bitmap_clear_range z p (Suc n) = bitmap_clear (bitmap_clear_range z p n) (p + n)"
    by (simp add: bitmap_clear_range_def)
  then show ?case using Suc by (auto simp: bitmap_clear_free less_Suc_eq)
qed

lemma set_range_free:
  "bitmap_is_free (bitmap_set_range z p n) q \<longleftrightarrow> q \<notin> {p ..< p + n} \<and> bitmap_is_free z q"
proof (induction n)
  case 0
  show ?case by (simp add: bitmap_set_range_def)
next
  case (Suc n)
  have "bitmap_set_range z p (Suc n) = bitmap_set (bitmap_set_range z p n) (p + n)"
    by (simp add: bitmap_set_range_def)
  then show ?case using Suc by (auto simp: bitmap_set_free less_Suc_eq)
qed

lemma list_all_upt_block: "list_all (\<lambda>i. P (p + i)) [0..<2 ^ k] \<longleftrightarrow> (\<forall>q \<in> block p k. P q)"
proof
  assume h: "list_all (\<lambda>i. P (p + i)) [0..<2 ^ k]"
  show "\<forall>q \<in> block p k. P q"
  proof
    fix q assume "q \<in> block p k"
    then have "q - p < 2 ^ k" "p + (q - p) = q" by (auto simp: block_def)
    then show "P q" using h by (metis (no_types, lifting) atLeastLessThan_upt list_all_iff atLeastLessThan_iff zero_le)
  qed
qed (auto simp: list_all_iff block_def)

section \<open>Zone geometry and descriptors\<close>

definition zone_geom :: "BuddyZone \<Rightarrow> bool" where
  "zone_geom z \<longleftrightarrow> bz_initialized z \<and> 4096 dvd bz_phys_start z \<and> bz_phys_start z \<le> bz_phys_end z \<and>
     bz_total_frames z = (bz_phys_end z - bz_phys_start z) div 4096 \<and> bz_phys_end z \<le> 2097152 * 4096 \<and>
     bz_bitmap z \<noteq> None \<and> bz_total_frames z \<le> 64 * bz_bitmap_words z"

abbreviation addr :: "BuddyZone \<Rightarrow> nat \<Rightarrow> nat" where
  "addr z p \<equiv> bz_phys_start z + p * 4096"

abbreviation zflags :: "BuddyZone \<Rightarrow> phys_mem \<Rightarrow> nat \<Rightarrow> FrameFlags" where
  "zflags z m p \<equiv> desc_flags m (pfn_to_frame z p)"

lemma geom_covers: "zone_geom z \<Longrightarrow> p < bz_total_frames z \<Longrightarrow> covers z p"
  by (auto simp: zone_geom_def covers_def div_less_iff_less_mult mult.commute)

lemma geom_frame:
  assumes "zone_geom z" "p < bz_total_frames z"
  shows "desc_slot (pfn_to_frame z p) = bz_phys_start z div 4096 + p"
proof -
  obtain s where s: "bz_phys_start z = 4096 * s" using assms(1) by (auto simp: zone_geom_def)
  have "Suc p \<le> (bz_phys_end z - bz_phys_start z) div 4096" using assms by (simp add: zone_geom_def Suc_le_eq)
  then have "Suc p * 4096 \<le> bz_phys_end z - bz_phys_start z" by (simp only: less_eq_div_iff_mult_less_eq)
  then have "4096 * s + Suc p * 4096 \<le> 2097152 * 4096" using assms(1) s by (auto simp: zone_geom_def)
  then have "s + p < 2097152" by simp
  then show ?thesis using s by (simp add: desc_slot_def pfn_to_frame_def)
qed

lemma addr_inj [simp]: "addr z p = addr z q \<longleftrightarrow> p = q"
  by simp

lemma addr_pfn [simp]: "phys_to_pfn z (addr z p) = p"
  by (simp add: phys_to_pfn_def)

lemma mark_free_heap [simp]: "pm_heap (mark_descriptors_free z m p n) = pm_heap m"
  by (induction n) (simp_all add: mark_descriptors_free_def desc_swap_flags_def)

lemma mark_allocated_heap [simp]: "pm_heap (mark_descriptors_allocated z m p n) = pm_heap m"
  by (induction n) (simp_all add: mark_descriptors_allocated_def desc_clear_flag_def)

lemma mark_free_flags:
  assumes "zone_geom z" "p + n \<le> bz_total_frames z" "q < bz_total_frames z"
  shows "zflags z (mark_descriptors_free z m p n) q =
    (if q \<in> {p ..< p + n} then FrameFlags_FREE else zflags z m q)"
  using assms(2)
proof (induction n)
  case 0
  show ?case by (simp add: mark_descriptors_free_def)
next
  case (Suc n)
  have "mark_descriptors_free z m p (Suc n) =
      desc_swap_flags (mark_descriptors_free z m p n) (pfn_to_frame z (p + n)) FrameFlags_FREE"
    by (simp add: mark_descriptors_free_def)
  then show ?case using Suc assms(1,3)
    by (auto simp: desc_swap_flags_def desc_flags_def geom_frame less_Suc_eq)
qed

lemma mark_allocated_flags:
  assumes "zone_geom z" "p + n \<le> bz_total_frames z" "q < bz_total_frames z"
  shows "zflags z (mark_descriptors_allocated z m p n) q =
    (if q \<in> {p ..< p + n} then zflags z m q AND NOT FrameFlags_FREE else zflags z m q)"
  using assms(2)
proof (induction n)
  case 0
  show ?case by (simp add: mark_descriptors_allocated_def)
next
  case (Suc n)
  have "mark_descriptors_allocated z m p (Suc n) =
      desc_clear_flag (mark_descriptors_allocated z m p n) (pfn_to_frame z (p + n)) FrameFlags_FREE"
    by (simp add: mark_descriptors_allocated_def)
  then show ?case using Suc assms(1,3)
    by (auto simp: desc_clear_flag_def desc_flags_def geom_frame less_Suc_eq)
qed

lemma flag_contains_bit:
  "FrameFlags_contains f FrameFlags_FREE \<longleftrightarrow> bit f 0"
  "FrameFlags_contains f FrameFlags_RESERVED \<longleftrightarrow> bit f 13"
  unfolding FrameFlags_contains_def FrameFlags_FREE_def FrameFlags_RESERVED_def and_eq_right_iff_subset
  by (simp_all only: word_subset_push_bit_one len_num1 len_bit0 mult_2)

section \<open>The relation to the block lists\<close>

abbreviation node :: "BuddyZone \<Rightarrow> nat \<Rightarrow> node_ptr" where
  "node z p \<equiv> Blk (addr z p)"

definition zone_lists :: "BuddyZone \<Rightarrow> phys_mem \<Rightarrow> free_lists \<Rightarrow> bool" where
  "zone_lists z m L \<longleftrightarrow> (\<forall>k\<le>12.
     dll (pm_heap m) (Head (bz_id z) k) (map (node z) (L k)) \<and>
     (\<forall>p \<in> set (L k). fn_order (pm_heap m (node z p)) = k) \<and>
     bz_counts z k = of_nat (length (L k)))"

definition zone_bits :: "BuddyZone \<Rightarrow> phys_mem \<Rightarrow> nat set \<Rightarrow> bool" where
  "zone_bits z m F \<longleftrightarrow> (\<forall>p. bitmap_is_free z p \<longleftrightarrow> p \<in> F) \<and> (\<forall>p < bz_total_frames z.
     (bit (zflags z m p) 0 \<longleftrightarrow> p \<in> F) \<and> (p \<in> F \<longrightarrow> \<not> bit (zflags z m p) 13))"

definition zone_rel :: "BuddyZone \<Rightarrow> phys_mem \<Rightarrow> free_lists \<Rightarrow> bool" where
  "zone_rel z m L \<longleftrightarrow> zone_geom z \<and> lists_ok (bz_total_frames z) L \<and> zone_lists z m L \<and>
     zone_bits z m (covered L) \<and> bz_free_frames z = of_nat (card (covered L))"

lemma zone_listsD:
  assumes "zone_lists z m L" "k \<le> 12"
  shows "dll (pm_heap m) (Head (bz_id z) k) (map (node z) (L k))"
    "p \<in> set (L k) \<Longrightarrow> fn_order (pm_heap m (node z p)) = k"
    "bz_counts z k = of_nat (length (L k))"
  using assms by (auto simp: zone_lists_def)

lemma zone_lists_cong:
  assumes "bz_id z' = bz_id z" "bz_phys_start z' = bz_phys_start z" "bz_counts z' = bz_counts z"
    "pm_heap m' = pm_heap m"
  shows "zone_lists z' m' L = zone_lists z m L"
  by (simp add: zone_lists_def assms)

definition zone_same :: "BuddyZone \<Rightarrow> BuddyZone \<Rightarrow> bool" where
  "zone_same z z' \<longleftrightarrow> bz_id z' = bz_id z \<and> bz_numa_node z' = bz_numa_node z \<and> bz_phys_start z' = bz_phys_start z \<and> bz_phys_end z' = bz_phys_end z \<and>
     bz_total_frames z' = bz_total_frames z \<and> bz_bitmap_words z' = bz_bitmap_words z \<and>
     bz_initialized z' = bz_initialized z \<and> (bz_bitmap z' = None \<longleftrightarrow> bz_bitmap z = None)"

lemma zone_same_refl [simp]: "zone_same z z"
  by (simp add: zone_same_def)

lemma zone_same_trans: "zone_same x y \<Longrightarrow> zone_same y z \<Longrightarrow> zone_same x z"
  by (simp add: zone_same_def)

lemma zone_sameD:
  assumes "zone_same z z'"
  shows "bz_id z' = bz_id z" "bz_phys_start z' = bz_phys_start z" "bz_total_frames z' = bz_total_frames z"
    "zone_geom z' = zone_geom z" "pfn_to_frame z' = pfn_to_frame z" "covers z' = covers z"
  using assms by (auto simp: zone_same_def zone_geom_def covers_def pfn_to_frame_def fun_eq_iff)

lemma bitmap_None [simp]:
  "bz_bitmap (bitmap_clear_range z p n) = None \<longleftrightarrow> bz_bitmap z = None"
  "bz_bitmap (bitmap_set_range z p n) = None \<longleftrightarrow> bz_bitmap z = None"
  by (induction n) (auto simp: bitmap_clear_range_def bitmap_set_range_def bitmap_clear_def bitmap_set_def Let_def
      split: option.splits)

lemma zone_same_ranges [simp]:
  "zone_same z (bitmap_clear_range z p n)" "zone_same z (bitmap_set_range z p n)"
  by (simp_all add: zone_same_def)

lemma bitmap_is_free_cong:
  "bz_bitmap z' = bz_bitmap z \<Longrightarrow> bz_bitmap_words z' = bz_bitmap_words z \<Longrightarrow> bitmap_is_free z' p = bitmap_is_free z p"
  by (simp add: bitmap_is_free_iff covers_def)

lemma push_block_same:
  assumes "push_block z m a k = (z', m')"
  shows "zone_same z z'" "bz_free_frames z' = bz_free_frames z" "bitmap_is_free z' = bitmap_is_free z"
    "pm_desc m' = pm_desc m"
  using assms by (auto simp: push_block_def zone_same_def Let_def bitmap_is_free_def fun_eq_iff split: option.splits)

lemma zone_bits_cong:
  assumes "zone_same z z'" "\<And>p. bitmap_is_free z' p = bitmap_is_free z p"
    "pm_desc m' = pm_desc m"
  shows "zone_bits z' m' F = zone_bits z m F"
  using assms zone_sameD [OF assms(1)] by (simp add: zone_bits_def desc_flags_def)

lemma zone_lists_same:
  assumes "zone_same z z'" "bz_counts z' = bz_counts z" "pm_heap m' = pm_heap m"
  shows "zone_lists z' m' L = zone_lists z m L"
  using assms zone_sameD [OF assms(1)] by (intro zone_lists_cong) simp_all

text \<open>What an operation on a zone may touch: its own sentinels, the nodes in its frames and
  their descriptors.\<close>

definition footprint :: "BuddyZone \<Rightarrow> phys_mem \<Rightarrow> phys_mem \<Rightarrow> bool" where
  "footprint z m m' \<longleftrightarrow>
     (\<forall>i k. i \<noteq> bz_id z \<longrightarrow> pm_heap m' (Head i k) = pm_heap m (Head i k)) \<and>
     (\<forall>a. a \<notin> {addr z 0 ..< addr z (bz_total_frames z)} \<longrightarrow> pm_heap m' (Blk a) = pm_heap m (Blk a)) \<and>
     (\<forall>f. f \<notin> {bz_phys_start z div 4096 ..< bz_phys_start z div 4096 + bz_total_frames z} \<longrightarrow>
        pm_desc m' f = pm_desc m f)"

lemma footprint_refl [simp]: "footprint z m m"
  by (simp add: footprint_def)

lemma footprint_trans: "footprint z m m' \<Longrightarrow> footprint z m' m'' \<Longrightarrow> footprint z m m''"
  by (simp add: footprint_def)

lemma footprint_same: "zone_same z z' \<Longrightarrow> footprint z' m m' = footprint z m m'"
  by (simp add: zone_same_def footprint_def)

lemma footprint_heap:
  assumes "\<And>x. x \<notin> insert (Head (bz_id z) k) (set (map (node z) ps)) \<Longrightarrow> h x = pm_heap m x"
    and "\<And>p. p \<in> set ps \<Longrightarrow> p < bz_total_frames z"
  shows "footprint z m (m\<lparr>pm_heap := h\<rparr>)"
proof -
  have "Blk a \<notin> set (map (node z) ps)" if "a \<notin> {addr z 0 ..< addr z (bz_total_frames z)}" for a
    using that assms(2) by auto
  moreover have "Head i j \<notin> set (map (node z) ps)" for i j by auto
  ultimately show ?thesis using assms(1) unfolding footprint_def by simp
qed

lemma footprint_mark:
  assumes "zone_geom z" "p + n \<le> bz_total_frames z"
  shows "footprint z m (mark_descriptors_free z m p n) \<and> footprint z m (mark_descriptors_allocated z m p n)"
  using assms(2)
proof (induction n)
  case (Suc n)
  have "desc_slot (pfn_to_frame z (p + n)) = bz_phys_start z div 4096 + (p + n)"
    using geom_frame [OF assms(1), of "p + n"] Suc.prems by simp
  then have st: "footprint z x (desc_swap_flags x (pfn_to_frame z (p + n)) FrameFlags_FREE)"
    "footprint z x (desc_clear_flag x (pfn_to_frame z (p + n)) FrameFlags_FREE)" for x
    using Suc.prems by (auto simp: footprint_def desc_swap_flags_def desc_clear_flag_def)
  have "mark_descriptors_free z m p (Suc n) =
      desc_swap_flags (mark_descriptors_free z m p n) (pfn_to_frame z (p + n)) FrameFlags_FREE"
    "mark_descriptors_allocated z m p (Suc n) =
      desc_clear_flag (mark_descriptors_allocated z m p n) (pfn_to_frame z (p + n)) FrameFlags_FREE"
    by (simp_all add: mark_descriptors_free_def mark_descriptors_allocated_def)
  then show ?case using Suc footprint_trans st by auto
qed (simp_all add: mark_descriptors_free_def mark_descriptors_allocated_def)

text \<open>The lists of different orders share no node.\<close>

lemma lists_disjoint:
  assumes "lists_ok n L" "j \<le> 12" "k \<le> 12" "j \<noteq> k"
  shows "set (L j) \<inter> set (L k) = {}"
proof (rule ccontr)
  assume "set (L j) \<inter> set (L k) \<noteq> {}"
  then obtain p where "p \<in> set (L j)" "p \<in> set (L k)" by blast
  then have "block p j \<inter> block p k = {}" using lists_okD(4) [OF assms(1,2), of p p k] assms(3,4) by blast
  then show False using block_self [of p j] block_self [of p k] by blast
qed

lemma push_block_lists:
  assumes ok: "lists_ok n L" and zl: "zone_lists z m L" and k: "k \<le> 12"
    and fresh: "\<And>j. j \<le> 12 \<Longrightarrow> p \<notin> set (L j)"
    and st: "push_block z m (addr z p) k = (z', m')"
  shows "zone_lists z' m' (L(k := p # L k))"
proof -
  let ?g = "FreeNode_init (pm_heap m) (node z p) k"
  let ?h = "FreeNode_insert_after ?g (Head (bz_id z) k) (node z p)"
  have k256: "k mod 256 = k" using k by simp
  have z': "z' = z\<lparr>bz_counts := (bz_counts z)(k := bz_counts z k + 1)\<rparr>" and m': "m' = m\<lparr>pm_heap := ?h\<rparr>"
    using st by (auto simp: push_block_def Let_def k256)
  have notin: "node z p \<notin> set (map (node z) (L j))" if "j \<le> 12" for j using fresh [OF that] by auto
  have dk: "dll ?g (Head (bz_id z) k) (map (node z) (L k))"
    using zone_listsD(1) [OF zl k] notin [OF k] by (simp add: init_dll)
  have dk': "dll ?h (Head (bz_id z) k) (map (node z) (p # L k))"
    using insert_after_dll [OF dk] notin [OF k] by simp
  have frame: "?h x = ?g x" if "x \<notin> insert (node z p) (insert (Head (bz_id z) k) (set (map (node z) (L k))))" for x
    by (rule insert_after_frame [OF dk that])
  have other: "dll ?h (Head (bz_id z) j) (map (node z) (L j))" if j: "j \<le> 12" "j \<noteq> k" for j
  proof -
    have "?h x = pm_heap m x" if "x \<in> insert (Head (bz_id z) j) (set (map (node z) (L j)))" for x
    proof -
      have "x \<notin> insert (node z p) (insert (Head (bz_id z) k) (set (map (node z) (L k))))"
        using that j notin [OF j(1)] lists_disjoint [OF ok j(1) k j(2)] by auto
      then show ?thesis using frame by auto
    qed
    then show ?thesis using zone_listsD(1) [OF zl j(1)] by (subst dll_frame [where h = "pm_heap m"]) simp_all
  qed
  have ord: "fn_order (?g (node z q)) = (if q = p then k else fn_order (pm_heap m (node z q)))" for q
    by simp
  show ?thesis
    unfolding zone_lists_def
  proof (intro allI impI)
    fix j assume j: "j \<le> (12::nat)"
    show "dll (pm_heap m') (Head (bz_id z') j) (map (node z') ((L(k := p # L k)) j)) \<and>
        (\<forall>q\<in>set ((L(k := p # L k)) j). fn_order (pm_heap m' (node z' q)) = j) \<and>
        bz_counts z' j = of_nat (length ((L(k := p # L k)) j))"
    proof (cases "j = k")
      case True
      then show ?thesis using dk' zone_listsD(2,3) [OF zl k] fresh [OF k]
        by (auto simp: z' m' ord)
    next
      case False
      then show ?thesis using other [OF j False] zone_listsD(2,3) [OF zl j] fresh [OF j]
        by (auto simp: z' m' ord)
    qed
  qed
qed

lemma remove_block_lists:
  assumes ok: "lists_ok n L" and zl: "zone_lists z m L" and k: "k \<le> 12" and p: "p \<in> set (L k)"
  shows "zone_lists (z\<lparr>bz_counts := (bz_counts z)(k := bz_counts z k - 1)\<rparr>)
    (m\<lparr>pm_heap := FreeNode_remove (pm_heap m) (node z p)\<rparr>) (L(k := remove1 p (L k)))"
proof -
  let ?h = "FreeNode_remove (pm_heap m) (node z p)"
  obtain as bs where ab: "L k = as @ p # bs" using p by (auto simp: in_set_conv_decomp)
  then have r: "remove1 p (as @ p # bs) = as @ bs" using lists_okD(1) [OF ok k] by (simp add: remove1_append)
  note dk = zone_listsD(1) [OF zl k, unfolded ab, simplified]
  have dk': "dll ?h (Head (bz_id z) k) (map (node z) (as @ bs))" using remove_dll [OF dk] by simp
  have other: "dll ?h (Head (bz_id z) j) (map (node z) (L j))" if j: "j \<le> 12" "j \<noteq> k" for j
  proof -
    have "?h x = pm_heap m x" if "x \<in> insert (Head (bz_id z) j) (set (map (node z) (L j)))" for x
    proof (rule remove_frame [OF dk])
      show "x \<notin> insert (Head (bz_id z) k) (set (map (node z) as @ node z p # map (node z) bs))"
        using that j lists_disjoint [OF ok j(1) k j(2)] by (auto simp: ab)
    qed
    then show ?thesis using zone_listsD(1) [OF zl j(1)] by (subst dll_frame [where h = "pm_heap m"]) simp_all
  qed
  show ?thesis
    unfolding zone_lists_def
  proof (intro allI impI)
    fix j assume j: "j \<le> (12::nat)"
    let ?z = "z\<lparr>bz_counts := (bz_counts z)(k := bz_counts z k - 1)\<rparr>"
    let ?L = "L(k := remove1 p (L k))"
    show "dll (pm_heap (m\<lparr>pm_heap := ?h\<rparr>)) (Head (bz_id ?z) j) (map (node ?z) (?L j)) \<and>
        (\<forall>q\<in>set (?L j). fn_order (pm_heap (m\<lparr>pm_heap := ?h\<rparr>) (node ?z q)) = j) \<and>
        bz_counts ?z j = of_nat (length (?L j))"
    proof (cases "j = k")
      case True
      then show ?thesis using dk' zone_listsD(2,3) [OF zl k] by (auto simp: r ab)
    next
      case False
      then show ?thesis using other [OF j False] zone_listsD(2,3) [OF zl j] by auto
    qed
  qed
qed

lemma block_less: "p + 2 ^ k \<le> n \<Longrightarrow> p < (n::nat)"
  using zero_less_power [of "2::nat" k] by linarith

lemma push_block_footprint:
  assumes ok: "lists_ok (bz_total_frames z) L" and zl: "zone_lists z m L" and k: "k \<le> 12"
    and fresh: "p \<notin> set (L k)" and p: "p < bz_total_frames z"
    and st: "push_block z m (addr z p) k = (z', m')"
  shows "footprint z m m'"
proof -
  let ?g = "FreeNode_init (pm_heap m) (node z p) (k mod 256)"
  let ?h = "FreeNode_insert_after ?g (Head (bz_id z) k) (node z p)"
  have dk: "dll ?g (Head (bz_id z) k) (map (node z) (L k))"
    using zone_listsD(1) [OF zl k] fresh by (subst init_dll) auto
  have "footprint z m (m\<lparr>pm_heap := ?h\<rparr>)"
  proof (rule footprint_heap [where ps = "p # L k" and k = k])
    fix x assume x: "x \<notin> insert (Head (bz_id z) k) (set (map (node z) (p # L k)))"
    then have "?h x = ?g x" by (intro insert_after_frame [OF dk]) simp
    then show "?h x = pm_heap m x" using x by simp
  next
    fix q assume "q \<in> set (p # L k)"
    then show "q < bz_total_frames z" using p lists_okD(3) [OF ok k, of q] block_less by auto
  qed
  then show ?thesis using st by (auto simp: push_block_def Let_def)
qed

lemma remove_block_footprint:
  assumes ok: "lists_ok (bz_total_frames z) L" and zl: "zone_lists z m L" and k: "k \<le> 12" and p: "p \<in> set (L k)"
  shows "footprint z m (m\<lparr>pm_heap := FreeNode_remove (pm_heap m) (node z p)\<rparr>)"
proof (rule footprint_heap [where ps = "L k" and k = k])
  obtain as bs where ab: "L k = as @ p # bs" using p by (auto simp: in_set_conv_decomp)
  note dk = zone_listsD(1) [OF zl k, unfolded ab, simplified]
  fix x assume "x \<notin> insert (Head (bz_id z) k) (set (map (node z) (L k)))"
  then show "FreeNode_remove (pm_heap m) (node z p) x = pm_heap m x"
    by (intro remove_frame [OF dk]) (simp add: ab)
next
  fix q assume "q \<in> set (L k)"
  then show "q < bz_total_frames z" using lists_okD(3) [OF ok k, of q] block_less by auto
qed

section \<open>Splitting and allocation\<close>

lemma contains_block_iff:
  assumes "zone_geom z"
  shows "contains_block z (addr z p) k \<longleftrightarrow> k \<le> 12 \<and> p + 2 ^ k \<le> bz_total_frames z"
proof -
  let ?E = "bz_phys_end z" and ?S = "bz_phys_start z"
  have "p + 2 ^ k \<le> bz_total_frames z \<longleftrightarrow> (p + 2 ^ k) * 4096 \<le> ?E - ?S"
    using assms by (simp add: zone_geom_def less_eq_div_iff_mult_less_eq)
  also have "\<dots> \<longleftrightarrow> addr z p + 4096 * 2 ^ k \<le> ?E"
    using assms by (auto simp: zone_geom_def algebra_simps)
  finally have e: "p + 2 ^ k \<le> bz_total_frames z \<longleftrightarrow> addr z p + 4096 * 2 ^ k \<le> ?E" .
  have "addr z p + 4096 * 2 ^ k \<le> ?E \<Longrightarrow> addr z p + 4096 * 2 ^ k < 2 ^ 64"
    using assms by (simp add: zone_geom_def)
  then show ?thesis unfolding e by (auto simp: contains_block_def Let_def)
qed

lemma is_aligned_iff: "is_aligned v (4096 * 2 ^ k) \<longleftrightarrow> 4096 * 2 ^ k dvd v"
proof -
  have "(4096::nat) * 2 ^ k = 2 ^ (12 + k)" by (simp add: power_add)
  then show ?thesis by (simp only: is_aligned_def nat_and_mask_mod mod_eq_0_iff_dvd)
qed

lemma contains_aligned_iff:
  assumes "zone_geom z"
  shows "contains_aligned_block z (addr z p) k \<longleftrightarrow> k \<le> 12 \<and> 2 ^ k dvd p \<and> p + 2 ^ k \<le> bz_total_frames z"
proof -
  have "is_aligned (addr z p - bz_phys_start z) (4096 * 2 ^ k) \<longleftrightarrow> 2 ^ k dvd p"
    by (simp add: is_aligned_iff mult.commute [of p])
  then show ?thesis using contains_block_iff [OF assms] by (auto simp: contains_aligned_block_def)
qed

lemma split_block_rel:
  assumes geom: "zone_geom z" and ok: "lists_ok (bz_total_frames z) L" and zl: "zone_lists z m L"
    and zb: "zone_bits z m F" and h: "hole (bz_total_frames z) L p (Suc k)" and F: "block p (Suc k) \<subseteq> F"
    and st: "split_block (addr z p) (z, m) k = (z', m')"
  shows "zone_lists z' m' (L(k := (p + 2 ^ k) # L k))" "zone_bits z' m' F" "zone_same z z'"
    "bz_free_frames z' = bz_free_frames z" "footprint z m m'" "pm_desc m' = pm_desc m"
proof -
  let ?q = "p + 2 ^ k"
  have a: "addr z p + 4096 * 2 ^ k = addr z ?q" by (simp add: algebra_simps)
  note sp = split_step [OF ok h]
  obtain z1 m1 where pb: "push_block z m (addr z ?q) k = (z1, m1)" by fastforce
  note ps = push_block_same [OF pb]
  have k12: "k \<le> 12" using h by (simp add: hole_def)
  have pfn: "phys_to_pfn z1 (addr z ?q) = ?q" using zone_sameD(2) [OF ps(1)] addr_pfn [of z1 ?q] by simp
  have z': "z' = bitmap_clear_range z1 ?q (2 ^ k)\<lparr>bz_split_count := bz_split_count z' \<rparr>" and m': "m' = m1"
    using st unfolding split_block_def Let_def PAGE_SIZE_def prod.case a pb pfn by auto
  show same: "zone_same z z'" using zone_same_trans [OF ps(1) zone_same_ranges(1) [of z1 ?q "2 ^ k"]]
    by (subst z') (simp add: zone_same_def)
  show "bz_free_frames z' = bz_free_frames z" by (subst z') (simp add: ps(2))
  have "zone_lists z1 m1 (L(k := ?q # L k))"
    using push_block_lists [OF ok zl k12 _ pb] hole_not_listed [OF sp(1)] by blast
  moreover have "zone_same z1 z'" by (subst z') (simp add: zone_same_def)
  moreover have "bz_counts z' = bz_counts z1" by (subst z') simp
  ultimately show "zone_lists z' m' (L(k := ?q # L k))" using zone_lists_same m' by metis
  have free: "bitmap_is_free z' x = bitmap_is_free z x" for x
  proof -
    have "bitmap_is_free z' x = bitmap_is_free (bitmap_clear_range z1 ?q (2 ^ k)) x"
      by (rule bitmap_is_free_cong) (subst z', simp)+
    moreover have "x \<in> block ?q k \<Longrightarrow> bitmap_is_free z x" using zb F sp(3) by (auto simp: zone_bits_def)
    ultimately show ?thesis using ps(3) by (auto simp: clear_range_free block_def)
  qed
  show "zone_bits z' m' F" using zone_bits_cong [OF same free] ps(4) m' zb by simp
  have "?q < bz_total_frames z" "?q \<notin> set (L k)"
    using sp(1) block_less hole_not_listed [OF sp(1) _ k12] by (auto simp: hole_def)
  then show "footprint z m m'" using push_block_footprint [OF ok zl k12 _ _ pb] m' by simp
  show "pm_desc m' = pm_desc m" using ps(4) m' by simp
qed

lemma split_fold_rel:
  assumes "zone_geom z" "lists_ok (bz_total_frames z) L" "zone_lists z m L" "zone_bits z m F"
    "hole (bz_total_frames z) L p (order + d)" "block p (order + d) \<subseteq> F"
    "foldl (split_block (addr z p)) (z, m) (rev [order..<order + d]) = (z', m')"
  shows "zone_lists z' m' (abs_split L p (rev [order..<order + d])) \<and> zone_bits z' m' F \<and> zone_same z z' \<and>
    bz_free_frames z' = bz_free_frames z \<and> footprint z m m' \<and> pm_desc m' = pm_desc m"
  using assms
proof (induction d arbitrary: z m L)
  case 0
  then show ?case by (simp add: abs_split_def)
next
  case (Suc d)
  let ?k = "order + d"
  let ?L = "L(?k := (p + 2 ^ ?k) # L ?k)"
  obtain z1 m1 where s1: "split_block (addr z p) (z, m) ?k = (z1, m1)" by fastforce
  have h: "hole (bz_total_frames z) L p (Suc ?k)" "block p (Suc ?k) \<subseteq> F" using Suc.prems(5,6) by simp_all
  note st = split_block_rel [OF Suc.prems(1-4) h s1] and sp = split_step [OF Suc.prems(2) h(1)]
  note eq = zone_sameD [OF st(3)]
  have ok: "lists_ok (bz_total_frames z1) ?L" using lists_ok_cons [OF Suc.prems(2) sp(1)] eq by simp
  have ho: "hole (bz_total_frames z1) ?L p ?k" "block p ?k \<subseteq> F" using sp(2,3) h(2) eq by auto
  have fold: "foldl (split_block (addr z1 p)) (z1, m1) (rev [order..<?k]) = (z', m')"
    using Suc.prems(7) s1 eq(2) by simp
  have "zone_geom z1" using Suc.prems(1) eq by simp
  note ih = Suc.IH [OF this ok st(1,2) ho fold]
  moreover have "abs_split L p (rev [order..<order + Suc d]) = abs_split ?L p (rev [order..<?k])"
    by (simp add: abs_split_def)
  moreover have "footprint z m m'" using st(5) ih footprint_same [OF st(3)] footprint_trans by blast
  ultimately show ?case using st(3,4,6) zone_same_trans by metis
qed

lemma zone_relD:
  assumes "zone_rel z m L"
  shows "zone_geom z" "lists_ok (bz_total_frames z) L" "zone_lists z m L" "zone_bits z m (covered L)"
    "bz_free_frames z = of_nat (card (covered L))"
  using assms by (simp_all add: zone_rel_def)

lemma alloc_inner_skip:
  assumes "zone_lists z m L" "\<And>j. c \<le> j \<Longrightarrow> j < c + d \<Longrightarrow> L j = []" "c + d \<le> 13"
  shows "alloc_inner z m order c = alloc_inner z m order (c + d)"
  using assms(2,3)
proof (induction d arbitrary: c)
  case (Suc d)
  have "c \<le> 12" "L c = []" using Suc.prems by simp_all
  then have "FreeNode_pop (pm_heap m) (Head (bz_id z) c) = None"
    using pop_dll [OF zone_listsD(1) [OF assms(1)]] by simp
  then have "alloc_inner z m order c = alloc_inner z m order (Suc c)"
    using \<open>c \<le> 12\<close> by (subst alloc_inner.simps) simp
  also have "\<dots> = alloc_inner z m order (Suc c + d)" using Suc.prems by (intro Suc.IH) simp_all
  finally show ?case by simp
qed simp

lemma alloc_inner_fail:
  assumes "zone_lists z m L" "abs_alloc L order = None" "order \<le> 12"
  shows "alloc_inner z m order order = (Err OutOfMemory, z, m)"
proof -
  have "alloc_inner z m order order = alloc_inner z m order (order + (13 - order))"
    using assms(2,3) by (intro alloc_inner_skip [OF assms(1)]) (auto simp: abs_alloc_None_iff)
  then show ?thesis using assms(3) by (simp add: alloc_inner.simps [of _ _ _ 13])
qed

lemma descriptors_range_is_free_iff:
  "descriptors_range_is_free z m p (2 ^ k) \<longleftrightarrow> (\<forall>q \<in> block p k. bit (zflags z m q) 0 \<and> \<not> bit (zflags z m q) 13)"
  unfolding descriptors_range_is_free_def Let_def flag_contains_bit
  by (rule list_all_upt_block)

lemma descriptors_range_has_reserved_iff:
  "descriptors_range_has_reserved z m p (2 ^ k) \<longleftrightarrow> (\<exists>q \<in> block p k. bit (zflags z m q) 13)"
  using list_all_upt_block [of "\<lambda>q. \<not> bit (zflags z m q) 13" p k]
  unfolding descriptors_range_has_reserved_def flag_contains_bit by (simp add: list_all_iff list_ex_iff) blast

lemma bitmap_range_is_free_iff: "bitmap_range_is_free z p (2 ^ k) \<longleftrightarrow> (\<forall>q \<in> block p k. bitmap_is_free z q)"
  unfolding bitmap_range_is_free_def by (rule list_all_upt_block)

lemma bitmap_range_is_allocated_iff:
  "bitmap_range_is_allocated z p (2 ^ k) \<longleftrightarrow> (\<forall>q \<in> block p k. bitmap_is_allocated z q)"
  unfolding bitmap_range_is_allocated_def by (rule list_all_upt_block)

lemma descriptors_range_is_allocated_iff:
  "descriptors_range_is_allocated z m p (2 ^ k) \<longleftrightarrow> (\<forall>q \<in> block p k. \<not> bit (zflags z m q) 0)"
  unfolding descriptors_range_is_allocated_def flag_contains_bit by (rule list_all_upt_block)

lemma free_bits [simp]:
  "\<not> bit (f AND NOT FrameFlags_FREE) 0" "bit (f AND NOT FrameFlags_FREE) 13 = bit f 13"
  "bit FrameFlags_FREE 0" "\<not> bit FrameFlags_FREE 13"
  unfolding FrameFlags_FREE_def push_bit_of_1 by (simp_all add: bit_simps)

lemma zone_bits_alloc:
  assumes "zone_geom z" "zone_bits z m F" "p + 2 ^ k \<le> bz_total_frames z"
  defines "z' \<equiv> bitmap_set_range z p (2 ^ k)"
  shows "zone_bits z' (mark_descriptors_allocated z' m p (2 ^ k)) (F - block p k)"
proof -
  have s: "zone_same z z'" by (simp add: z'_def)
  note e = zone_sameD [OF s]
  have "zone_geom z'" "p + 2 ^ k \<le> bz_total_frames z'" using assms(1,3) e by simp_all
  note fl = mark_allocated_flags [OF this, unfolded e(3,5)]
  have fr: "bitmap_is_free z' q \<longleftrightarrow> q \<notin> {p ..< p + 2 ^ k} \<and> bitmap_is_free z q" for q
    unfolding z'_def by (rule set_range_free)
  show ?thesis using assms(2) unfolding zone_bits_def e(3,5) by (auto simp: fl fr block_def)
qed

lemma zone_bits_free:
  assumes "zone_geom z" "zone_bits z m F" "p + 2 ^ k \<le> bz_total_frames z"
  defines "z' \<equiv> bitmap_clear_range z p (2 ^ k)"
  shows "zone_bits z' (mark_descriptors_free z' m p (2 ^ k)) (F \<union> block p k)"
proof -
  have s: "zone_same z z'" by (simp add: z'_def)
  note e = zone_sameD [OF s]
  have "zone_geom z'" "p + 2 ^ k \<le> bz_total_frames z'" using assms(1,3) e by simp_all
  note fl = mark_free_flags [OF this, unfolded e(3,5)]
  have fr: "bitmap_is_free z' q \<longleftrightarrow> (q \<in> {p ..< p + 2 ^ k} \<and> covers z q) \<or> bitmap_is_free z q" for q
    unfolding z'_def by (rule clear_range_free)
  moreover have "covers z q" if "q \<in> {p ..< p + 2 ^ k}" for q using that assms(3) geom_covers [OF assms(1)] by simp
  ultimately have "bitmap_is_free z' q \<longleftrightarrow> q \<in> F \<union> block p k" for q
    using assms(2) by (auto simp: zone_bits_def block_def)
  then show ?thesis using assms(2) unfolding zone_bits_def e(3,5) by (auto simp: fl block_def)
qed

lemma alloc_inner_ok:
  assumes rel: "zone_rel z m L" and ab: "abs_alloc L order = Some (p, L')" and o12: "order \<le> 12"
  shows "\<exists>z' m'. alloc_inner z m order order = (Ok (addr z p), z', m') \<and> zone_same z z' \<and>
    bz_free_frames z' = bz_free_frames z \<and> zone_lists z' m' L' \<and> zone_bits z' m' (covered L') \<and> footprint z m m' \<and>
    (\<forall>q<bz_total_frames z. zflags z m' q =
      (if q \<in> block p order then zflags z m q AND NOT FrameFlags_FREE else zflags z m q))"
proof -
  note r = zone_relD [OF rel]
  note al = abs_alloc_Some [OF r(2) ab]
  obtain k where fk: "find (\<lambda>k. L k \<noteq> []) [order..<13] = Some k" and p: "p = hd (L k)"
    and L': "L' = abs_split (L(k := tl (L k))) p (rev [order..<k])"
    using ab by (auto simp: abs_alloc_def split: option.splits)
  then have k: "order \<le> k" "k < 13" "L k \<noteq> []" "\<And>j. order \<le> j \<Longrightarrow> j < k \<Longrightarrow> L j = []"
    by (auto simp: find_upt_Some_iff)
  define d where "d = k - order"
  have kd: "k = order + d" using k(1) by (simp add: d_def)
  have k12: "k \<le> 12" using k(2) by simp
  have pin: "p \<in> set (L k)" using k(3) p by simp
  have tl: "tl (L k) = remove1 p (L k)" using k(3) p by (cases "L k") simp_all
  let ?L = "L(k := remove1 p (L k))"
  let ?m = "m\<lparr>pm_heap := FreeNode_remove (pm_heap m) (node z p)\<rparr>"
  let ?z = "z\<lparr>bz_counts := (bz_counts z)(k := bz_counts z k - 1)\<rparr>"
  have skip: "alloc_inner z m order order = alloc_inner z m order k"
    using alloc_inner_skip [OF r(3), of order d order] k(2,4) kd by simp
  have pop: "FreeNode_pop (pm_heap m) (Head (bz_id z) k) = Some (node z p, FreeNode_remove (pm_heap m) (node z p))"
    using pop_dll [OF zone_listsD(1) [OF r(3) k12]] k(3) p by (cases "L k") simp_all
  have same: "zone_same z ?z" by (simp add: zone_same_def)
  have geom: "zone_geom ?z" using r(1) zone_sameD(4) [OF same] by simp
  have free: "bitmap_is_free ?z = bitmap_is_free z" by (rule ext, rule bitmap_is_free_cong) simp_all
  have zb: "zone_bits ?z ?m (covered L)" using r(4) zone_bits_cong [OF same] free by simp
  have zl: "zone_lists ?z ?m ?L" by (rule remove_block_lists [OF r(2,3) k12 pin])
  have ok: "lists_ok (bz_total_frames ?z) ?L" using lists_ok_remove [OF r(2) k12] by simp
  have ho: "hole (bz_total_frames ?z) ?L p (order + d)" using hole_remove [OF r(2) k12 pin] kd by simp
  have bl: "block p (order + d) \<subseteq> covered L" using block_covered [where L = L, OF k12 pin] kd by simp
  have al2: "p + 2 ^ k \<le> bz_total_frames z" using lists_okD(3) [OF r(2) k12 pin] .
  have inb: "q < bz_total_frames z" if "q \<in> block p k" for q using that al2 by (simp add: block_def)
  obtain z1 m1 where fo: "foldl (split_block (addr ?z p)) (?z, ?m) (rev [order..<order + d]) = (z1, m1)" by fastforce
  note sf = split_fold_rel [OF geom ok zl zb ho bl fo]
  have s1: "zone_same z z1" using zone_same_trans [OF same] sf by blast
  note e1 = zone_sameD [OF s1]
  let ?zz = "bitmap_set_range z1 p (2 ^ order)"
  let ?mm = "mark_descriptors_allocated ?zz m1 p (2 ^ order)"
  have checks: "contains_aligned_block ?z (addr z p) k"
      "\<not> descriptors_range_has_reserved ?z ?m p (2 ^ k)" "bitmap_range_is_free ?z p (2 ^ k)"
      "descriptors_range_is_free ?z ?m p (2 ^ k)"
    using contains_aligned_iff [OF geom, of p k] lists_okD(2,3) [OF r(2) k12 pin] k12 zb bl inb
    by (auto simp: descriptors_range_has_reserved_iff descriptors_range_is_free_iff bitmap_range_is_free_iff
        zone_bits_def kd)
  have pf: "phys_to_pfn ?z (addr z p) = p" "phys_to_pfn z1 (addr z p) = p"
    using addr_pfn [of ?z p] addr_pfn [of z1 p] e1(2) by simp_all
  have ev: "alloc_inner z m order order = (Ok (addr z p), ?zz, ?mm)"
    unfolding skip using k12 pop checks pf fo kd
    by (subst alloc_inner.simps) (simp add: Let_def node_phys_def)
  have s2: "zone_same z ?zz" using s1 by (simp add: zone_same_def)
  have "zone_bits ?zz ?mm (covered L')"
  proof -
    have "covered L' = covered L - block p order" using al(3,4) by blast
    moreover have "p + 2 ^ order \<le> bz_total_frames z1" using al(2) e1 by (simp add: hole_def)
    ultimately show ?thesis using zone_bits_alloc [of z1 m1 "covered L" p order] sf e1 r(1) by simp
  qed
  moreover have "zone_lists ?zz ?mm L'"
    using sf L' tl kd zone_lists_same [of z1 ?zz ?mm m1] by simp
  moreover have "zflags z ?mm q =
      (if q \<in> block p order then zflags z m q AND NOT FrameFlags_FREE else zflags z m q)"
    if "q < bz_total_frames z" for q
  proof -
    have "p + 2 ^ order \<le> bz_total_frames ?zz" "zone_geom ?zz"
      using al(2) e1 r(1) zone_sameD [OF s2] by (simp_all add: hole_def)
    moreover have "zflags z m1 q = zflags z m q" using sf by (simp add: desc_flags_def)
    ultimately show ?thesis
      using mark_allocated_flags [of ?zz p "2 ^ order" q m1] that zone_sameD [OF s2] by (simp add: block_def)
  qed
  moreover have "footprint z m ?mm"
  proof -
    have "p + 2 ^ order \<le> bz_total_frames ?zz" "zone_geom ?zz"
      using al(2) e1 r(1) zone_sameD [OF s2] by (simp_all add: hole_def)
    then have "footprint z m1 ?mm" using footprint_mark [of ?zz p "2 ^ order" m1] footprint_same [OF s2] by simp
    moreover have "footprint z ?m m1" using sf footprint_same [OF same] by simp
    ultimately show ?thesis using remove_block_footprint [OF r(2,3) k12 pin] footprint_trans by blast
  qed
  ultimately show ?thesis using ev s2 sf by auto
qed

text \<open>
  The relation depends only on the sentinels, on the nodes stored in free frames and on the
  FREE and RESERVED bits of the zone's descriptors: whatever the owner of an allocated block
  writes into it leaves the allocator intact.
\<close>

lemma zone_rel_scribble:
  assumes rel: "zone_rel z m L"
    and heads: "\<And>k. k \<le> 12 \<Longrightarrow> pm_heap m' (Head (bz_id z) k) = pm_heap m (Head (bz_id z) k)"
    and nodes: "\<And>q. q \<in> covered L \<Longrightarrow> pm_heap m' (node z q) = pm_heap m (node z q)"
    and desc: "\<And>q. q < bz_total_frames z \<Longrightarrow> bit (zflags z m' q) 0 = bit (zflags z m q) 0 \<and>
        bit (zflags z m' q) 13 = bit (zflags z m q) 13"
  shows "zone_rel z m' L"
proof -
  note r = zone_relD [OF rel]
  have n: "pm_heap m' (node z q) = pm_heap m (node z q)" if "q \<in> set (L k)" "k \<le> 12" for q k
    using nodes block_covered [where L = L, OF that(2,1)] block_self [of q k] by blast
  have "zone_lists z m' L"
    unfolding zone_lists_def
  proof (intro allI impI conjI ballI)
    fix k assume k: "k \<le> (12::nat)"
    have "x \<in> insert (Head (bz_id z) k) (set (map (node z) (L k))) \<Longrightarrow> pm_heap m' x = pm_heap m x" for x
      using n k heads by auto
    then show "dll (pm_heap m') (Head (bz_id z) k) (map (node z) (L k))"
      using zone_listsD(1) [OF r(3) k] by (subst dll_frame [where h = "pm_heap m"]) simp_all
    show "bz_counts z k = of_nat (length (L k))" using zone_listsD(3) [OF r(3) k] .
    show "fn_order (pm_heap m' (node z q)) = k" if "q \<in> set (L k)" for q
      using zone_listsD(2) [OF r(3) k that] n [OF that k] by simp
  qed
  moreover have "zone_bits z m' (covered L)" using r(4) desc by (simp add: zone_bits_def)
  ultimately show ?thesis using r by (simp add: zone_rel_def)
qed

lemma zone_rel_cong:
  assumes "zone_same z z'" "bz_bitmap z' = bz_bitmap z" "bz_counts z' = bz_counts z"
    "bz_free_frames z' = bz_free_frames z"
  shows "zone_rel z' m L = zone_rel z m L"
proof -
  have "bitmap_is_free z' p = bitmap_is_free z p" for p
    using assms by (intro bitmap_is_free_cong) (simp_all add: zone_same_def)
  then have "zone_bits z' m F = zone_bits z m F" for F by (intro zone_bits_cong [OF assms(1)]) simp_all
  then show ?thesis
    using zone_sameD [OF assms(1)] zone_lists_same [OF assms(1,3)] assms(4) by (simp add: zone_rel_def)
qed

lemma zone_rel_bump_fail [simp]: "zone_rel (bump_fail z) m L = zone_rel z m L"
  by (rule zone_rel_cong) (simp_all add: zone_same_def)

lemma pinned_bits [simp]:
  "bit (f OR FrameFlags_DMA_PINNED) 0 = bit f 0" "bit (f OR FrameFlags_DMA_PINNED) 13 = bit f 13"
  unfolding FrameFlags_DMA_PINNED_def FrameFlags_DMA_def FrameFlags_PINNED_def push_bit_of_1
  by (simp_all add: bit_simps)

lemma zone_rel_pin:
  assumes "zone_rel z m L"
  shows "zone_rel z (desc_set_flag m f FrameFlags_DMA_PINNED) L"
  by (rule zone_rel_scribble [OF assms]) (auto simp: desc_set_flag_def desc_flags_def)

lemma zone_rel_zero:
  assumes rel: "zone_rel z m L" and dis: "block p k \<inter> covered L = {}"
  shows "zone_rel z (zero_pages m (addr z p) k) L"
proof (rule zone_rel_scribble [OF rel])
  fix q assume q: "q \<in> covered L"
  then have "q \<notin> block p k" using dis by blast
  then have "q < p \<or> p + 2 ^ k \<le> q" by (auto simp: block_def)
  then have "q < p \<or> (p + 2 ^ k) * 4096 \<le> q * 4096" using mult_le_mono1 by blast
  then show "pm_heap (zero_pages m (addr z p) k) (node z q) = pm_heap m (node z q)"
    by (auto simp: zero_pages_def)
qed (simp_all add: zero_pages_def desc_flags_def)

lemma footprint_zero:
  assumes "p + 2 ^ k \<le> bz_total_frames z"
  shows "footprint z m (zero_pages m (addr z p) k)"
proof -
  have "(p + 2 ^ k) * 4096 \<le> bz_total_frames z * 4096" using assms mult_le_mono1 by blast
  then show ?thesis by (auto simp: footprint_def zero_pages_def)
qed

lemma footprint_pin:
  assumes "zone_geom z" "p < bz_total_frames z"
  shows "footprint z m (desc_set_flag m (addr z p div 4096) f)"
proof -
  have "desc_slot (addr z p div 4096) = bz_phys_start z div 4096 + p"
    using geom_frame [OF assms] by (simp add: pfn_to_frame_def)
  then show ?thesis using assms(2) by (auto simp: footprint_def desc_set_flag_def)
qed

lemma alloc_pages_rel:
  assumes rel: "zone_rel z m L" and o12: "order \<le> 12"
  shows "case abs_alloc L order of
      None \<Rightarrow> BuddyZone_alloc_pages z m order flags = (Err OutOfMemory, bump_fail z, m)
    | Some (p, L') \<Rightarrow> \<exists>z' m'. BuddyZone_alloc_pages z m order flags = (Ok (addr z p div 4096), z', m') \<and>
        zone_same z z' \<and> zone_rel z' m' L' \<and> footprint z m m' \<and>
        (\<forall>q<bz_total_frames z. zflags z m' q =
          (if q \<in> block p order then zflags z m q AND NOT FrameFlags_FREE else zflags z m q) OR
          (if q = p \<and> (AllocFlags_contains flags AllocFlags_DMA \<or> AllocFlags_contains flags AllocFlags_DMA32)
           then FrameFlags_DMA_PINNED else 0))"
proof (cases "abs_alloc L order")
  case None
  then show ?thesis using alloc_inner_fail [OF zone_relD(3) [OF rel] None o12] o12 zone_relD(1) [OF rel]
    by (simp add: BuddyZone_alloc_pages_def zone_geom_def)
next
  case (Some pl)
  obtain p L' where pl: "pl = (p, L')" by fastforce
  note r = zone_relD [OF rel]
  have ab: "abs_alloc L order = Some (p, L')" using Some pl by simp
  note al = abs_alloc_Some [OF r(2) ab]
  obtain z1 m1 where in1: "alloc_inner z m order order = (Ok (addr z p), z1, m1)" and s1: "zone_same z z1"
    and f1: "bz_free_frames z1 = bz_free_frames z" and l1: "zone_lists z1 m1 L'" and b1: "zone_bits z1 m1 (covered L')"
    and p1: "footprint z m m1" and d1: "\<forall>q<bz_total_frames z. zflags z m1 q =
      (if q \<in> block p order then zflags z m q AND NOT FrameFlags_FREE else zflags z m q)"
    using alloc_inner_ok [OF rel ab o12] by blast
  note e1 = zone_sameD [OF s1]
  define z2 where "z2 = z1\<lparr>bz_free_frames := bz_free_frames z1 - 2 ^ order, bz_alloc_count := bz_alloc_count z1 + 1\<rparr>"
  have s2: "zone_same z1 z2" by (simp add: z2_def zone_same_def)
  have "card (covered L) = card (covered L') + 2 ^ order"
    using card_Un_disjoint [of "covered L'" "block p order"] finite_covered [OF al(1)] al(3,4) by (simp add: Int_commute)
  then have "bz_free_frames z2 = of_nat (card (covered L'))" using f1 r(5) by (simp add: z2_def)
  moreover have "zone_bits z2 m1 (covered L')" using b1 zone_bits_cong [OF s2]
    by (simp add: z2_def bitmap_is_free_iff covers_def)
  moreover have "zone_lists z2 m1 L'" using l1 zone_lists_same [OF s2] by (simp add: z2_def)
  ultimately have rel2: "zone_rel z2 m1 L'" using r(1) al(1) e1 zone_sameD [OF s2] by (simp add: zone_rel_def)
  define m2 where "m2 = (if AllocFlags_contains flags AllocFlags_ZEROED then zero_pages m1 (addr z p) order else m1)"
  have "zone_rel z2 m2 L'" using rel2 zone_rel_zero [OF rel2 al(4)] e1 zone_sameD [OF s2] by (simp add: m2_def)
  moreover define m3 where "m3 = (if AllocFlags_contains flags AllocFlags_DMA \<or> AllocFlags_contains flags AllocFlags_DMA32
      then desc_set_flag m2 (addr z p div 4096) FrameFlags_DMA_PINNED else m2)"
  ultimately have "zone_rel z2 m3 L'" using zone_rel_pin by simp
  moreover have "BuddyZone_alloc_pages z m order flags = (Ok (addr z p div 4096), z2, m3)"
    using o12 r(1) in1 by (simp add: BuddyZone_alloc_pages_def zone_geom_def Let_def z2_def m2_def m3_def)
  moreover have "zflags z m3 q = zflags z m1 q OR
      (if q = p \<and> (AllocFlags_contains flags AllocFlags_DMA \<or> AllocFlags_contains flags AllocFlags_DMA32)
       then FrameFlags_DMA_PINNED else 0)" if q: "q < bz_total_frames z" for q
  proof -
    have "p < bz_total_frames z" using al(2) block_less by (auto simp: hole_def)
    then have "desc_slot (addr z p div 4096) = bz_phys_start z div 4096 + p"
      using geom_frame [OF r(1)] by (simp add: pfn_to_frame_def)
    moreover have "zflags z m2 q = zflags z m1 q" by (simp add: m2_def desc_flags_def zero_pages_def)
    ultimately show ?thesis using geom_frame [OF r(1) q]
      by (auto simp: m3_def desc_flags_def desc_set_flag_def)
  qed
  moreover have "footprint z m m3"
  proof -
    have pn: "p + 2 ^ order \<le> bz_total_frames z" using al(2) by (simp add: hole_def)
    have "footprint z m1 m2" using footprint_zero [OF pn] by (simp add: m2_def)
    moreover have "footprint z m2 m3" using footprint_pin [OF r(1) block_less [OF pn]] by (simp add: m3_def)
    ultimately show ?thesis using p1 footprint_trans by blast
  qed
  ultimately show ?thesis using ab zone_same_trans [OF s1 s2] d1 by auto
qed

section \<open>Release with coalescing\<close>

lemma buddy_of_addr: "buddy_of z (addr z p) k = addr z (buddy p k)"
proof -
  have "(p * 4096) XOR (4096 * 2 ^ k) = push_bit 12 p XOR push_bit 12 (2 ^ k)"
    by (simp add: push_bit_eq_mult mult.commute)
  also have "\<dots> = push_bit 12 (p XOR 2 ^ k)" by (simp only: push_bit_xor)
  also have "\<dots> = buddy p k * 4096" by (simp add: push_bit_eq_mult buddy_def)
  finally show ?thesis by (simp add: buddy_of_def)
qed

text \<open>The test of the source, all frames of the buddy free and its node of this order, holds
  exactly when the buddy is a listed block of this order.\<close>

lemma buddy_test:
  assumes geom: "zone_geom z" and ok: "lists_ok (bz_total_frames z) L" and zl: "zone_lists z m L"
    and h: "hole (bz_total_frames z) L p k" and k12: "k < 12"
    and bits: "zone_bits z m (covered L \<union> block p k)"
  shows "(\<forall>q \<in> block (buddy p k) k. bitmap_is_free z q) \<and> fn_order (pm_heap m (node z (buddy p k))) = k \<longleftrightarrow>
    buddy p k \<in> set (L k)"
proof -
  let ?b = "buddy p k"
  have dv: "2 ^ k dvd p" using h by (simp add: hole_def)
  note bb = buddy_block [OF dv]
  have fr: "bitmap_is_free z q \<longleftrightarrow> q \<in> covered L \<union> block p k" for q using bits by (simp add: zone_bits_def)
  have dis: "block p k \<inter> covered L = {}" using h by (simp add: hole_def)
  show ?thesis
  proof
    assume a: "(\<forall>q \<in> block ?b k. bitmap_is_free z q) \<and> fn_order (pm_heap m (node z ?b)) = k"
    then have "?b \<in> covered L" using fr bb(2) block_self [of ?b k] by blast
    then obtain j q where jq: "q \<in> set (L j)" "?b \<in> block q j" "j \<le> 12" unfolding covered_iff by blast
    have dq: "2 ^ j dvd q" using lists_okD(2) [OF ok jq(3,1)] .
    have "j \<le> k"
    proof (rule ccontr)
      assume "\<not> j \<le> k"
      then have "Suc k \<le> j" by simp
      moreover have "?b \<in> block (min p ?b) (Suc k)" using bb(1) block_self [of ?b k] by blast
      then have "block q j \<inter> block (min p ?b) (Suc k) \<noteq> {}" using jq(2) by blast
      ultimately have "block (min p ?b) (Suc k) \<subseteq> block q j" using block_nested [OF dq bb(3)] by blast
      then have "block p k \<subseteq> covered L" using bb(1) block_covered [where L = L, OF jq(3,1)] by blast
      then show False using dis block_self [of p k] by blast
    qed
    then have "block q j \<subseteq> block ?b k" using block_nested [OF bb(4) dq] jq(2) block_self [of ?b k] by blast
    then have "q = ?b" using jq(2) block_self [of q j] by (auto simp: block_def subset_iff)
    then show "?b \<in> set (L k)" using a zone_listsD(2) [OF zl jq(3,1)] jq(1) by simp
  next
    assume "?b \<in> set (L k)"
    then show "(\<forall>q \<in> block ?b k. bitmap_is_free z q) \<and> fn_order (pm_heap m (node z ?b)) = k"
      using zone_listsD(2) [OF zl _ \<open>?b \<in> set (L k)\<close>] block_covered [where L = L, of k ?b] k12 fr by auto
  qed
qed

lemma addr_in_zone:
  assumes "zone_geom z" "q < bz_total_frames z"
  shows "addr z q < bz_phys_end z"
proof -
  have "Suc q * 4096 \<le> bz_phys_end z - bz_phys_start z"
    using assms by (simp add: zone_geom_def less_eq_div_iff_mult_less_eq [symmetric] Suc_le_eq)
  then show ?thesis by simp
qed

lemma merge_loop_rel:
  assumes "zone_geom z" "lists_ok (bz_total_frames z) L" "zone_lists z m L" "hole (bz_total_frames z) L p k"
    "zone_bits z m (covered L \<union> block p k)" "merge_loop z m (addr z p) k = (z', m', a, j)"
  shows "\<exists>q M. a = addr z q \<and> zone_same z z' \<and> bz_free_frames z' = bz_free_frames z \<and>
    zone_lists z' m' M \<and> lists_ok (bz_total_frames z) M \<and> hole (bz_total_frames z) M q j \<and>
    zone_bits z' m' (covered M \<union> block q j) \<and> abs_free L p k = M(j := q # M j) \<and> footprint z m m'"
  using assms
proof (induction L p k arbitrary: z m rule: abs_free.induct)
  case (1 L p k)
  let ?b = "buddy p k"
  have dv: "2 ^ k dvd p" using 1(5) by (simp add: hole_def)
  note bb = buddy_block [OF dv]
  show ?case
  proof (cases "k < 12 \<and> ?b \<in> set (L k)")
    case True
    then have k12: "k < 12" and k12': "k \<le> 12" and bin: "?b \<in> set (L k)" by simp_all
    let ?L = "L(k := remove1 ?b (L k))"
    let ?z = "z\<lparr>bz_counts := (bz_counts z)(k := bz_counts z k - 1), bz_merge_count := bz_merge_count z + 1\<rparr>"
    let ?y = "z\<lparr>bz_counts := (bz_counts z)(k := bz_counts z k - 1)\<rparr>"
    let ?m = "m\<lparr>pm_heap := FreeNode_remove (pm_heap m) (node z ?b)\<rparr>"
    let ?p = "min p ?b"
    have same: "zone_same z ?z" "zone_same ?y ?z" by (simp_all add: zone_same_def)
    note e = zone_sameD [OF same(1)]
    have test: "\<forall>q \<in> block ?b k. bitmap_is_free z q" "fn_order (pm_heap m (node z ?b)) = k"
      using buddy_test [OF 1(2,3,4,5) k12 1(6)] bin by simp_all
    have inz: "addr z ?b < bz_phys_end z"
    proof (rule addr_in_zone [OF 1(2)])
      show "?b < bz_total_frames z"
        using lists_okD(3) [OF 1(3) k12' bin] zero_less_power [of "2::nat" k] by linarith
    qed
    have step: "merge_loop z m (addr z p) k = merge_loop ?z ?m (addr ?z ?p) (Suc k)"
      using k12 inz test
      by (subst merge_loop.simps) (simp add: Let_def buddy_of_addr list_all_upt_block min_def)
    have zl: "zone_lists ?z ?m ?L"
      using remove_block_lists [OF 1(3,4) k12' bin] zone_lists_same [OF same(2), of ?m ?m ?L] by simp
    have cov: "covered ?L \<union> block ?p (Suc k) = covered L \<union> block p k"
      using covered_remove [OF 1(3) k12' bin] block_covered [where L = L, OF k12' bin] bb(1) by blast
    have zb: "zone_bits ?z ?m (covered ?L \<union> block ?p (Suc k))"
      unfolding cov using 1(6) zone_bits_cong [OF same(1), of ?m m] by (simp add: bitmap_is_free_iff covers_def)
    have g: "zone_geom ?z" using 1(2) e(4) by simp
    have ok: "lists_ok (bz_total_frames ?z) ?L" using lists_ok_remove [OF 1(3) k12'] by simp
    have ho: "hole (bz_total_frames ?z) ?L ?p (Suc k)" using merge_hole [OF 1(3,5) k12 bin] by simp
    obtain q M where ih: "a = addr ?z q" "zone_same ?z z'" "bz_free_frames z' = bz_free_frames ?z"
      "zone_lists z' m' M" "lists_ok (bz_total_frames ?z) M" "hole (bz_total_frames ?z) M q j"
      "zone_bits z' m' (covered M \<union> block q j)" "abs_free ?L ?p (Suc k) = M(j := q # M j)" "footprint ?z ?m m'"
      using 1(1) [OF True g ok zl ho zb] 1(7) step by metis
    have "abs_free L p k = M(j := q # M j)" using ih(8) True by (simp add: abs_free.simps [of L p k])
    moreover have "footprint z m m'"
      using remove_block_footprint [OF 1(3,4) k12' bin] ih(9) footprint_same [OF same(1)] footprint_trans by blast
    ultimately show ?thesis using ih(1-7) zone_same_trans [OF same(1) ih(2)] by auto
  next
    case False
    have stop: "merge_loop z m (addr z p) k = (z, m, addr z p, k)"
    proof (cases "k < 12")
      case True
      then have "\<not> ((\<forall>q \<in> block ?b k. bitmap_is_free z q) \<and> fn_order (pm_heap m (node z ?b)) = k)"
        using buddy_test [OF 1(2,3,4,5) True 1(6)] False by simp
      then show ?thesis using True
        by (subst merge_loop.simps) (auto simp: Let_def buddy_of_addr list_all_upt_block)
    qed (subst merge_loop.simps, simp)
    have "abs_free L p k = L(k := p # L k)" using False by (subst abs_free.simps) auto
    then show ?thesis using stop 1 by (intro exI [of _ p] exI [of _ L]) simp
  qed
qed

lemma mark_free_same: "zone_same z z' \<Longrightarrow> mark_descriptors_free z' m p n = mark_descriptors_free z m p n"
  using zone_sameD(5) [of z z'] by (simp add: mark_descriptors_free_def)

definition freeable :: "BuddyZone \<Rightarrow> phys_mem \<Rightarrow> free_lists \<Rightarrow> nat \<Rightarrow> nat \<Rightarrow> bool" where
  "freeable z m L p k \<longleftrightarrow> hole (bz_total_frames z) L p k \<and> (\<forall>q \<in> block p k. \<not> bit (zflags z m q) 13)"

lemma free_pages_ok:
  assumes rel: "zone_rel z m L" and f: "freeable z m L p k"
  shows "\<exists>z' m'. BuddyZone_free_pages z m (addr z p div 4096) k = (Ok (), z', m') \<and>
    zone_same z z' \<and> zone_rel z' m' (abs_free L p k) \<and> footprint z m m'"
proof -
  note r = zone_relD [OF rel]
  have h: "hole (bz_total_frames z) L p k" and nores: "\<forall>q \<in> block p k. \<not> bit (zflags z m q) 13"
    using f by (simp_all add: freeable_def)
  then have k12: "k \<le> 12" and pn: "p + 2 ^ k \<le> bz_total_frames z" and dv: "2 ^ k dvd p"
    and dis: "block p k \<inter> covered L = {}" by (simp_all add: hole_def)
  have inb: "q < bz_total_frames z" if "q \<in> block p k" for q using that pn by (simp add: block_def)
  have a: "addr z p div 4096 * 4096 = addr z p" using r(1) by (auto simp: zone_geom_def)
  have checks: "contains_block z (addr z p) k" "is_aligned (addr z p - bz_phys_start z) (4096 * 2 ^ k)"
      "\<not> descriptors_range_has_reserved z m p (2 ^ k)" "bitmap_range_is_allocated z p (2 ^ k)"
      "descriptors_range_is_allocated z m p (2 ^ k)"
    using contains_aligned_iff [OF r(1), of p k] k12 pn dv nores r(4) dis inb geom_covers [OF r(1)]
    by (auto simp: contains_aligned_block_def descriptors_range_has_reserved_iff bitmap_range_is_allocated_iff
        bitmap_is_allocated_iff descriptors_range_is_allocated_iff zone_bits_def split: if_splits)
  define z1 where "z1 = bitmap_clear_range z p (2 ^ k)"
  define m1 where "m1 = mark_descriptors_free z m p (2 ^ k)"
  have s1: "zone_same z z1" by (simp add: z1_def)
  note e1 = zone_sameD [OF s1]
  have b1: "zone_bits z1 m1 (covered L \<union> block p k)"
    using zone_bits_free [OF r(1,4) pn] mark_free_same [OF s1] by (simp add: z1_def m1_def)
  have l1: "zone_lists z1 m1 L" using r(3) zone_lists_same [OF s1] by (simp add: z1_def m1_def)
  obtain z2 m2 c j where ml: "merge_loop z1 m1 (addr z1 p) k = (z2, m2, c, j)" by (metis prod_cases4)
  obtain q M where mr: "c = addr z1 q" "zone_same z1 z2" "bz_free_frames z2 = bz_free_frames z1"
    "zone_lists z2 m2 M" "lists_ok (bz_total_frames z1) M" "hole (bz_total_frames z1) M q j"
    "zone_bits z2 m2 (covered M \<union> block q j)" "abs_free L p k = M(j := q # M j)" "footprint z1 m1 m2"
    using merge_loop_rel [OF _ _ l1 _ b1 ml] r(1,2) h e1 by auto
  note e2 = zone_sameD [OF mr(2)]
  obtain z3 m3 where pb: "push_block z2 m2 (addr z2 q) j = (z3, m3)" by fastforce
  note ps = push_block_same [OF pb]
  have j12: "j \<le> 12" using mr(6) by (simp add: hole_def)
  have l3: "zone_lists z3 m3 (abs_free L p k)"
    unfolding mr(8) using push_block_lists [OF mr(5,4) j12 _ pb] hole_not_listed [OF mr(6)] by blast
  note af = abs_free_ok [OF r(2) h]
  have "covered M \<union> block q j = covered (abs_free L p k)" unfolding mr(8) covered_upd_cons [OF j12] ..
  then have b3: "zone_bits z3 m3 (covered (abs_free L p k))"
    using mr(7) zone_bits_cong [OF ps(1)] ps(3,4) by simp
  define z4 where "z4 = z3\<lparr>bz_free_frames := bz_free_frames z3 + 2 ^ k, bz_free_count := bz_free_count z3 + 1\<rparr>"
  have s4: "zone_same z3 z4" by (simp add: z4_def zone_same_def)
  have s: "zone_same z z4" using s1 mr(2) ps(1) s4 zone_same_trans by metis
  have "card (covered (abs_free L p k)) = card (covered L) + 2 ^ k"
    using af dis card_Un_disjoint [of "covered L" "block p k"] finite_covered [OF r(2)] by (simp add: Int_commute)
  then have "bz_free_frames z4 = of_nat (card (covered (abs_free L p k)))"
    using ps(2) mr(3) r(5) by (simp add: z4_def z1_def)
  moreover have "zone_bits z4 m3 (covered (abs_free L p k))"
    using b3 zone_bits_cong [OF s4] by (simp add: z4_def bitmap_is_free_iff covers_def)
  moreover have "zone_lists z4 m3 (abs_free L p k)" using l3 zone_lists_same [OF s4] by (simp add: z4_def)
  ultimately have rel4: "zone_rel z4 m3 (abs_free L p k)"
    using af r(1) zone_sameD [OF s] by (simp add: zone_rel_def)
  have "free_inner z m1 (addr z p) k = (z3, m3)"
    using ml pb mr(1) e1(2) e2(2) by (simp add: free_inner_def z1_def)
  then have "BuddyZone_free_pages z m (addr z p div 4096) k = (Ok (), z4, m3)"
    using k12 r(1) checks
    unfolding BuddyZone_free_pages_def PAGE_SIZE_def a addr_pfn
    by (simp add: zone_geom_def Let_def z4_def m1_def)
  moreover have "footprint z m m3"
  proof -
    have "q \<notin> set (M j)" "q < bz_total_frames z2"
      using mr(6) hole_not_listed [OF mr(6) _ j12] block_less e2 by (auto simp: hole_def)
    then have "footprint z2 m2 m3" using push_block_footprint [OF _ mr(4) j12 _ _ pb] mr(5) e2 by simp
    then have "footprint z m2 m3" using footprint_same mr(2) s1 by metis
    moreover have "footprint z m1 m2" using mr(9) footprint_same [OF s1] by simp
    moreover have "footprint z m m1" using footprint_mark [OF r(1) pn] by (simp add: m1_def)
    ultimately show ?thesis using footprint_trans by blast
  qed
  ultimately show ?thesis using rel4 s by blast
qed

lemma free_pages_err:
  assumes rel: "zone_rel z m L" and f: "\<not> freeable z m L p k"
  shows "BuddyZone_free_pages z m (addr z p div 4096) k = (Err InvalidParams, bump_fail z, m)"
proof -
  note r = zone_relD [OF rel]
  have a: "addr z p div 4096 * 4096 = addr z p" using r(1) by (auto simp: zone_geom_def)
  have "False" if c: "k \<le> 12" "contains_block z (addr z p) k"
    "is_aligned (addr z p - bz_phys_start z) (4096 * 2 ^ k)"
    "\<not> descriptors_range_has_reserved z m p (2 ^ k)" "bitmap_range_is_allocated z p (2 ^ k)"
  proof -
    have "2 ^ k dvd p" "p + 2 ^ k \<le> bz_total_frames z"
      using contains_aligned_iff [OF r(1), of p k] c(2,3) by (auto simp: contains_aligned_block_def)
    moreover have "block p k \<inter> covered L = {}"
      using c(5) r(4) by (auto simp: bitmap_range_is_allocated_iff bitmap_is_allocated_iff zone_bits_def)
    ultimately show False using f c(1,4) by (auto simp: freeable_def hole_def descriptors_range_has_reserved_iff)
  qed
  then show ?thesis using r(1)
    unfolding BuddyZone_free_pages_def PAGE_SIZE_def a addr_pfn
    by (auto simp: zone_geom_def Let_def)
qed

section \<open>Populating a zone\<close>

lemma add_free_block_rel:
  assumes rel: "zone_rel z m L" and h: "hole (bz_total_frames z) L p k"
  shows "\<exists>z' m'. add_free_block z m (addr z p) k = (z', m') \<and> zone_same z z' \<and> zone_rel z' m' (L(k := p # L k)) \<and>
    footprint z m m'"
proof -
  note r = zone_relD [OF rel]
  have k12: "k \<le> 12" and pn: "p + 2 ^ k \<le> bz_total_frames z" and dv: "2 ^ k dvd p"
    and dis: "block p k \<inter> covered L = {}" using h by (simp_all add: hole_def)
  have inb: "q < bz_total_frames z" if "q \<in> block p k" for q using that pn by (simp add: block_def)
  have checks: "contains_aligned_block z (addr z p) k" "bitmap_range_is_allocated z p (2 ^ k)"
    using contains_aligned_iff [OF r(1), of p k] k12 pn dv r(4) dis inb geom_covers [OF r(1)]
    by (auto simp: bitmap_range_is_allocated_iff bitmap_is_allocated_iff zone_bits_def)
  obtain z1 m1 where pb: "push_block z m (addr z p) k = (z1, m1)" by fastforce
  note ps = push_block_same [OF pb]
  note e1 = zone_sameD [OF ps(1)]
  let ?L = "L(k := p # L k)"
  have l1: "zone_lists z1 m1 ?L" using push_block_lists [OF r(2,3) k12 _ pb] hole_not_listed [OF h] by blast
  have b1: "zone_bits z1 m1 (covered L)" using r(4) zone_bits_cong [OF ps(1)] ps(3,4) by simp
  define z2 where "z2 = bitmap_clear_range z1 p (2 ^ k)"
  define m2 where "m2 = mark_descriptors_free z2 m1 p (2 ^ k)"
  have s2: "zone_same z1 z2" by (simp add: z2_def)
  have b2: "zone_bits z2 m2 (covered ?L)"
    using zone_bits_free [of z1 m1 "covered L" p k] b1 r(1) pn e1 covered_upd_cons [OF k12]
    by (simp add: z2_def m2_def)
  define z3 where "z3 = z2\<lparr>bz_free_frames := bz_free_frames z2 + of_nat (2 ^ k)\<rparr>"
  have s3: "zone_same z2 z3" by (simp add: z3_def zone_same_def)
  have s: "zone_same z z3" using ps(1) s2 s3 zone_same_trans by metis
  have "card (covered ?L) = card (covered L) + 2 ^ k"
    using covered_upd_cons [OF k12] dis card_Un_disjoint [of "covered L" "block p k"] finite_covered [OF r(2)]
    by (simp add: Int_commute)
  then have "bz_free_frames z3 = of_nat (card (covered ?L))" using ps(2) r(5) by (simp add: z3_def z2_def)
  moreover have "zone_bits z3 m2 (covered ?L)"
    using b2 zone_bits_cong [OF s3] by (simp add: z3_def bitmap_is_free_iff covers_def)
  moreover have "zone_lists z3 m2 ?L"
    using l1 zone_lists_same [OF zone_same_trans [OF s2 s3], of m2 m1 ?L] by (simp add: z3_def z2_def m2_def)
  ultimately have "zone_rel z3 m2 ?L" using lists_ok_cons [OF r(2) h] r(1) zone_sameD [OF s] by (simp add: zone_rel_def)
  moreover have "add_free_block z m (addr z p) k = (z3, m2)"
    using k12 checks pb by (simp add: add_free_block_def Let_def z3_def z2_def m2_def)
  moreover have "footprint z m m2"
  proof -
    have "p \<notin> set (L k)" using hole_not_listed [OF h _ k12] by blast
    then have "footprint z m m1" using push_block_footprint [OF r(2,3) k12 _ block_less [OF pn] pb] by simp
    moreover have "zone_same z z2" using zone_same_trans [OF ps(1) s2] .
    then have "footprint z m1 m2"
      using footprint_mark [of z2 p "2 ^ k" m1] footprint_same [of z z2] zone_sameD [of z z2] r(1) pn
      by (simp add: m2_def)
    ultimately show ?thesis using footprint_trans by blast
  qed
  ultimately show ?thesis using s by blast
qed

lemma trailing_zeros_dvd: "n \<noteq> 0 \<Longrightarrow> 2 ^ trailing_zeros n dvd n"
proof (induction n rule: trailing_zeros.induct)
  case (1 n)
  show ?case
  proof (cases "odd n")
    case False
    then obtain h where h: "n = 2 * h" by (auto elim: evenE)
    then have "2 ^ trailing_zeros h dvd h" using 1 False by simp
    moreover have "trailing_zeros n = Suc (trailing_zeros h)"
      using h False 1(2) by (subst trailing_zeros.simps) simp
    ultimately show ?thesis using h by simp
  qed (use 1 in \<open>simp add: trailing_zeros.simps [of n]\<close>)
qed

lemma ilog2_le: "0 < n \<Longrightarrow> 2 ^ ilog2 n \<le> n"
proof (induction n rule: ilog2.induct)
  case (1 n)
  show ?case
  proof (cases "n \<le> 1")
    case False
    then have "2 ^ ilog2 (n div 2) \<le> n div 2" using 1 by simp
    then show ?thesis using False by (simp add: ilog2.simps [of n])
  qed (use 1 in \<open>simp add: ilog2.simps [of n]\<close>)
qed

lemma claim_order_Some:
  "claim_order z p k = Some j \<Longrightarrow> j \<le> k \<and> (\<forall>q \<in> block p j. bitmap_is_allocated z q)"
  by (induction k) (auto simp: bitmap_range_is_allocated_iff [of _ _ 0, simplified]
      bitmap_range_is_allocated_iff [of _ _ "Suc _", simplified] split: if_splits)

lemma claim_order_None: "claim_order z p k = None \<Longrightarrow> \<not> bitmap_is_allocated z p"
  by (induction k) (auto simp: bitmap_range_is_allocated_def split: if_splits)

lemma add_free_range_rel:
  assumes "zone_rel z m L" "last_pfn \<le> bz_total_frames z"
  shows "\<exists>z' m' L'. add_free_range z m pfn last_pfn = (z', m') \<and> zone_same z z' \<and> zone_rel z' m' L' \<and>
    covered L' = covered L \<union> {pfn ..< last_pfn} \<and> footprint z m m'"
  using assms
proof (induction "last_pfn - pfn" arbitrary: z m L pfn rule: less_induct)
  case less
  show ?case
  proof (cases "pfn < last_pfn")
    case False
    then show ?thesis using less.prems by (subst add_free_range.simps) auto
  next
    case True
    note r = zone_relD [OF less.prems(1)]
    define c where "c = min (min (if pfn = 0 then 12 else trailing_zeros pfn) (ilog2 (last_pfn - pfn))) 12"
    have unf: "add_free_range z m pfn last_pfn =
        (case claim_order z pfn c of
           Some o' \<Rightarrow> let (z, m) = add_free_block z m (addr z pfn) o' in add_free_range z m (pfn + 2 ^ o') last_pfn
         | None \<Rightarrow> add_free_range z m (pfn + 1) last_pfn)"
      using True unfolding add_free_range.simps [of z m pfn last_pfn] c_def PAGE_SIZE_def BUDDY_MAX_ORDER_def Let_def
      by simp
    show ?thesis
    proof (cases "claim_order z pfn c")
      case None
      have "pfn < bz_total_frames z" using True less.prems(2) by simp
      then have "pfn \<in> covered L"
        using claim_order_None [OF None] r(4) geom_covers [OF r(1)]
        by (auto simp: bitmap_is_allocated_iff zone_bits_def)
      then have ins: "covered L \<union> {pfn + 1 ..< last_pfn} = covered L \<union> {pfn ..< last_pfn}"
        using True by (auto simp: Suc_le_eq le_less)
      have "last_pfn - (pfn + 1) < last_pfn - pfn" using True by simp
      from less.hyps [OF this less.prems] show ?thesis using unf None ins by simp
    next
      case (Some j)
      note cl = claim_order_Some [OF Some]
      have "2 ^ j dvd pfn"
      proof (cases "pfn = 0")
        case False
        then have "j \<le> trailing_zeros pfn" using cl by (simp add: c_def)
        then show ?thesis using trailing_zeros_dvd [OF False] power_le_dvd by blast
      qed simp
      moreover have le: "pfn + 2 ^ j \<le> last_pfn"
      proof -
        have "j \<le> ilog2 (last_pfn - pfn)" using cl by (simp add: c_def)
        then have "(2::nat) ^ j \<le> last_pfn - pfn"
          using ilog2_le [of "last_pfn - pfn"] True power_increasing [of j _ "2::nat"] by (meson le_trans one_le_numeral zero_less_diff)
        then show ?thesis using True by simp
      qed
      moreover have "j \<le> 12" using cl by (simp add: c_def)
      moreover have "block pfn j \<inter> covered L = {}"
        using cl r(4) by (auto simp: bitmap_is_allocated_iff zone_bits_def)
      ultimately have h: "hole (bz_total_frames z) L pfn j" using less.prems(2) by (simp add: hole_def)
      obtain z1 m1 where ab: "add_free_block z m (addr z pfn) j = (z1, m1)" and s1: "zone_same z z1"
        and r1: "zone_rel z1 m1 (L(j := pfn # L j))" and f1: "footprint z m m1"
        using add_free_block_rel [OF less.prems(1) h] by blast
      have "last_pfn - (pfn + 2 ^ j) < last_pfn - pfn" "last_pfn \<le> bz_total_frames z1"
        using True less.prems(2) zone_sameD [OF s1] diff_less_mono2 [of pfn "pfn + 2 ^ j" last_pfn] by simp_all
      then obtain z' m' L' where ih: "add_free_range z1 m1 (pfn + 2 ^ j) last_pfn = (z', m')" "zone_same z1 z'"
        "zone_rel z' m' L'" "covered L' = covered (L(j := pfn # L j)) \<union> {pfn + 2 ^ j ..< last_pfn}" "footprint z1 m1 m'"
        using less.hyps [OF _ r1] by blast
      have "covered L' = covered L \<union> {pfn ..< last_pfn}"
        unfolding ih(4) covered_upd_cons [OF \<open>j \<le> 12\<close>] block_def using le by auto
      moreover have "footprint z m m'" using f1 ih(5) footprint_same [OF s1] footprint_trans by blast
      ultimately show ?thesis using unf Some ab ih zone_same_trans [OF s1 ih(2)] by auto
    qed
  qed
qed

lemma init_heads:
  "foldl (\<lambda>h k. h(Head i k := (h (Head i k))\<lparr>fn_next := Head i k, fn_prev := Head i k\<rparr>)) h [0..<n] =
    (\<lambda>x. case x of Head j k \<Rightarrow> if j = i \<and> k < n then (h x)\<lparr>fn_next := x, fn_prev := x\<rparr> else h x | _ \<Rightarrow> h x)"
proof (induction n)
  case 0
  show ?case by (simp add: fun_eq_iff split: node_ptr.splits)
next
  case (Suc n)
  then show ?case by (auto simp: fun_eq_iff less_Suc_eq split: node_ptr.splits)
qed

lemma init_rel:
  assumes "4096 dvd s" "s \<le> e" "e \<le> 2097152 * 4096" "(e - s) div 4096 \<le> 64 * w"
    and nofree: "\<And>f. \<not> bit (pm_desc m f) 0"
    and st: "BuddyZone_init (BuddyZone_new_uninit i) m zt nn s e (Some b) w = (z, m')"
  shows "zone_rel z m' (\<lambda>k. [])" "bz_id z = i" "bz_phys_start z = s" "bz_phys_end z = e" "bz_numa_node z = nn" "pm_desc m' = pm_desc m"
    "j \<noteq> i \<Longrightarrow> pm_heap m' (Head j k) = pm_heap m (Head j k)" "pm_heap m' (Blk a) = pm_heap m (Blk a)"
proof -
  have z: "z = (BuddyZone_new_uninit i)\<lparr>bz_zone_type := zt, bz_numa_node := nn, bz_phys_start := s,
      bz_phys_end := e, bz_total_frames := (e - s) div 4096,
      bz_bitmap := Some (\<lambda>i. if i < w then - 1 else b i), bz_bitmap_words := w, bz_initialized := True\<rparr>"
    and m': "m' = m\<lparr>pm_heap := (\<lambda>x. case x of Head j k \<Rightarrow> if j = i \<and> k < 13
        then (pm_heap m x)\<lparr>fn_next := x, fn_prev := x\<rparr> else pm_heap m x | _ \<Rightarrow> pm_heap m x)\<rparr>"
    using st unfolding BuddyZone_init_def Let_def init_heads BuddyZone_new_uninit_def PAGE_SIZE_def
      BuddyZone.update_convs BuddyZone.select_convs by auto
  show "bz_id z = i" "bz_phys_start z = s" "bz_phys_end z = e" "bz_numa_node z = nn" "pm_desc m' = pm_desc m"
    "j \<noteq> i \<Longrightarrow> pm_heap m' (Head j k) = pm_heap m (Head j k)" "pm_heap m' (Blk a) = pm_heap m (Blk a)"
    by (simp_all add: z m' BuddyZone_new_uninit_def)
  have "zone_geom z" using assms(1-4) by (simp add: z zone_geom_def)
  moreover have cov: "covered (\<lambda>k. []) = {}" by (simp add: covered_def)
  moreover have "zone_lists z m' (\<lambda>k. [])"
    by (simp add: zone_lists_def dll_def z m' BuddyZone_new_uninit_def)
  moreover have "\<not> bitmap_is_free z p" for p
    by (auto simp: bitmap_is_free_iff covers_def z bit_minus_1_iff)
  then have "zone_bits z m' {}" using nofree by (simp add: zone_bits_def m' desc_flags_def)
  ultimately show "zone_rel z m' (\<lambda>k. [])"
    by (simp add: zone_rel_def lists_ok_def z BuddyZone_new_uninit_def)
qed

end
