(* ===== verification/Frame_Source.thy ===== *)
theory Frame_Source
  imports Buddy_Blocks
begin

text \<open>
  The contract between a source of page frames and its clients.  A source hands out aligned
  runs of \<open>2^k\<close> frames and takes them back; the locale states what its two operations do to
  the set of available frames.  From the contract alone it follows that clients who release
  only what they hold can never be given overlapping frames, and that no frame is ever lost
  or invented.  The buddy zone and the global allocator are both proved to be sources.
\<close>

section \<open>Clients\<close>

datatype page_op = AllocOp nat u32 | FreeOp nat nat

text \<open>Holdings are runs of frames; they are apart from each other and from a set of frames.\<close>

fun apart :: "nat set \<Rightarrow> (nat \<times> nat) list \<Rightarrow> bool" where
  "apart A [] = True"
| "apart A ((f, k) # own) = (block f k \<inter> A = {} \<and> list_all (\<lambda>(g, j). block f k \<inter> block g j = {}) own \<and> apart A own)"

definition held :: "(nat \<times> nat) list \<Rightarrow> nat set" where
  "held own = (\<Union>(f, k) \<in> set own. block f k)"

definition page_step :: "('s \<Rightarrow> nat \<Rightarrow> u32 \<Rightarrow> ('e, nat) result \<times> 's) \<Rightarrow> ('s \<Rightarrow> nat \<Rightarrow> nat \<Rightarrow> ('e, unit) result \<times> 's)
    \<Rightarrow> 's \<times> (nat \<times> nat) list \<Rightarrow> page_op \<Rightarrow> 's \<times> (nat \<times> nat) list" where
  "page_step alloc free st op =
    (case (st, op) of
       ((s, own), AllocOp k fl) \<Rightarrow>
         (case alloc s k fl of (Inr f, s') \<Rightarrow> (s', (f, k) # own) | (Inl _, s') \<Rightarrow> (s', own))
     | ((s, own), FreeOp f k) \<Rightarrow>
         if (f, k) \<in> set own then
           (case free s f k of (Inr _, s') \<Rightarrow> (s', remove1 (f, k) own) | (Inl _, s') \<Rightarrow> (s', own))
         else (s, own))"

definition page_run :: "('s \<Rightarrow> nat \<Rightarrow> u32 \<Rightarrow> ('e, nat) result \<times> 's) \<Rightarrow> ('s \<Rightarrow> nat \<Rightarrow> nat \<Rightarrow> ('e, unit) result \<times> 's)
    \<Rightarrow> 's \<times> (nat \<times> nat) list \<Rightarrow> page_op list \<Rightarrow> 's \<times> (nat \<times> nat) list" where
  "page_run alloc free = foldl (page_step alloc free)"

lemma held_Nil [simp]: "held [] = {}"
  and held_Cons [simp]: "held ((f, k) # own) = block f k \<union> held own"
  by (simp_all add: held_def)

lemma held_mem: "(f, k) \<in> set own \<Longrightarrow> block f k \<subseteq> held own"
  by (auto simp: held_def)

lemma apart_Cons: "apart A ((f, k) # own) \<longleftrightarrow> block f k \<inter> A = {} \<and> block f k \<inter> held own = {} \<and> apart A own"
proof -
  have "list_all (\<lambda>(g, j). block f k \<inter> block g j = {}) own \<longleftrightarrow> block f k \<inter> held own = {}"
    by (induction own) auto
  then show ?thesis by simp
qed

lemmas [simp del] = apart.simps(2)
lemmas [simp] = apart_Cons

lemma apart_held: "apart A own \<Longrightarrow> held own \<inter> A = {}"
  by (induction A own rule: apart.induct) (simp_all add: Int_Un_distrib2)

lemma apart_mono: "apart A own \<Longrightarrow> B \<inter> held own = {} \<Longrightarrow> apart B own"
proof (induction A own rule: apart.induct)
  case (2 A f k own)
  then show ?case by (simp add: Int_Un_distrib Int_commute)
qed simp

lemma apart_disjoint:
  assumes "apart A own" "i < j" "j < length own" "own ! i = (f, k)" "own ! j = (g, l)"
  shows "block f k \<inter> block g l = {}"
  using assms
proof (induction own arbitrary: i j)
  case (Cons a own)
  obtain a1 a2 where a: "a = (a1, a2)" by fastforce
  obtain j' where j: "j = Suc j'" using Cons.prems(2) by (cases j) auto
  show ?case
  proof (cases i)
    case 0
    have "(g, l) \<in> set own" using Cons.prems(3,5) j nth_mem [of j' own] by simp
    then show ?thesis using held_mem [of g l own] Cons.prems(1,4) 0 a by auto
  next
    case (Suc i')
    then show ?thesis using Cons.IH [of i' j'] Cons.prems j a by simp
  qed
qed simp

lemma held_remove:
  assumes "apart A own" "(f, k) \<in> set own"
  shows "held (remove1 (f, k) own) = held own - block f k \<and> apart A (remove1 (f, k) own)"
  using assms
proof (induction A own rule: apart.induct)
  case (2 A a b own)
  then have ap: "block a b \<inter> A = {}" "block a b \<inter> held own = {}" "apart A own" by simp_all
  show ?case
  proof (cases "(a, b) = (f, k)")
    case True
    then have "remove1 (f, k) ((a, b) # own) = own" "held ((a, b) # own) = block f k \<union> held own" by simp_all
    then show ?thesis using True ap by auto
  next
    case False
    then have fin: "(f, k) \<in> set own" using "2.prems"(2) by auto
    have ih: "held (remove1 (f, k) own) = held own - block f k" "apart A (remove1 (f, k) own)"
      using "2.IH" [OF ap(3) fin] by simp_all
    have dis: "block a b \<inter> block f k = {}" using ap(2) held_mem [OF fin] by blast
    have e: "remove1 (f, k) ((a, b) # own) = (a, b) # remove1 (f, k) own" using False by auto
    show ?thesis unfolding e held_Cons apart_Cons ih(1) using ih(2) ap dis by blast
  qed
qed simp

section \<open>The contract\<close>

locale frame_source =
  fixes alloc :: "'s \<Rightarrow> nat \<Rightarrow> u32 \<Rightarrow> ('e, nat) result \<times> 's"
    and free :: "'s \<Rightarrow> nat \<Rightarrow> nat \<Rightarrow> ('e, unit) result \<times> 's"
    and inv :: "'s \<Rightarrow> bool"
    and avail :: "'s \<Rightarrow> nat set"
  assumes alloc_ok: "inv s \<Longrightarrow> alloc s k fl = (Inr f, s') \<Longrightarrow>
      inv s' \<and> block f k \<subseteq> avail s \<and> avail s' = avail s - block f k"
    and alloc_err: "inv s \<Longrightarrow> alloc s k fl = (Inl e, s') \<Longrightarrow> inv s' \<and> avail s' = avail s"
    and free_ok: "inv s \<Longrightarrow> free s f k = (Inr u, s') \<Longrightarrow>
      inv s' \<and> block f k \<inter> avail s = {} \<and> avail s' = avail s \<union> block f k"
    and free_err: "inv s \<Longrightarrow> free s f k = (Inl e, s') \<Longrightarrow> inv s' \<and> avail s' = avail s"
begin

lemma step_safe:
  assumes "inv s" "apart (avail s) own" "page_step alloc free (s, own) op = (s', own')"
  shows "inv s' \<and> apart (avail s') own' \<and> avail s' \<union> held own' = avail s \<union> held own"
proof (cases op)
  case (AllocOp k fl)
  obtain r t where a: "alloc s k fl = (r, t)" by fastforce
  show ?thesis
  proof (cases r)
    case (Inl e)
    have "s' = t" "own' = own" using AllocOp a Inl assms(3) by (simp_all add: page_step_def)
    then show ?thesis using alloc_err [OF assms(1) a [unfolded Inl]] assms(2) by simp
  next
    case (Inr f)
    have o: "s' = t" "own' = (f, k) # own" using AllocOp a Inr assms(3) by (simp_all add: page_step_def)
    note l = alloc_ok [OF assms(1) a [unfolded Inr]]
    have "held own \<inter> avail s = {}" using apart_held [OF assms(2)] .
    then have "block f k \<inter> held own = {}" using l by blast
    moreover have "apart (avail t) own" using l \<open>held own \<inter> avail s = {}\<close> by (intro apart_mono [OF assms(2)]) blast
    moreover have "block f k \<inter> avail t = {}" "avail t \<union> (block f k \<union> held own) = avail s \<union> held own" using l by blast+
    ultimately show ?thesis using o l by simp
  qed
next
  case (FreeOp f k)
  show ?thesis
  proof (cases "(f, k) \<in> set own")
    case False
    then show ?thesis using FreeOp assms by (simp add: page_step_def)
  next
    case True
    obtain r t where a: "free s f k = (r, t)" by fastforce
    show ?thesis
    proof (cases r)
      case (Inl e)
      have "s' = t" "own' = own" using FreeOp True a Inl assms(3) by (simp_all add: page_step_def)
      then show ?thesis using free_err [OF assms(1) a [unfolded Inl]] assms(2) by simp
    next
      case (Inr u)
      have o: "s' = t" "own' = remove1 (f, k) own" using FreeOp True a Inr assms(3) by (simp_all add: page_step_def)
      note l = free_ok [OF assms(1) a [unfolded Inr]] and hr = held_remove [OF assms(2) True]
      have sub: "block f k \<subseteq> held own" using held_mem [OF True] .
      have "avail t \<inter> held own' = {}" using o(2) hr l apart_held [OF assms(2)] by blast
      then have "apart (avail t) own'" using apart_mono [of "avail s" own'] hr o(2) by simp
      moreover have "avail t \<union> held own' = avail s \<union> held own" using o(2) hr l sub by blast
      ultimately show ?thesis using o(1) l by simp
    qed
  qed
qed

lemma run_safe:
  assumes "inv s" "apart (avail s) own" "page_run alloc free (s, own) ops = (s', own')"
  shows "inv s' \<and> apart (avail s') own' \<and> avail s' \<union> held own' = avail s \<union> held own"
  using assms
proof (induction ops arbitrary: s own)
  case Nil
  then show ?case by (simp add: page_run_def)
next
  case (Cons op ops)
  obtain t own1 where st: "page_step alloc free (s, own) op = (t, own1)" by fastforce
  note s1 = step_safe [OF Cons.prems(1,2) st]
  have "page_run alloc free (t, own1) ops = (s', own')" using Cons.prems(3) st by (simp add: page_run_def)
  then show ?case using Cons.IH [of t own1] s1 by simp
qed

end

end
