(* ===== verification/Buddy_Coalesce.thy ===== *)
theory Buddy_Coalesce
  imports Buddy_Blocks
begin

text \<open>
  Complete coalescing.  When no order lists both halves of a larger block, an aligned run of
  free frames is always inside one listed block, so a request can only fail when no aligned
  run of its size is free.  Allocation and release keep this condition.
\<close>

section \<open>Definitions\<close>

definition coalesced :: "free_lists \<Rightarrow> bool" where
  "coalesced L \<longleftrightarrow> (\<forall>k<12. \<forall>p \<in> set (L k). buddy p k \<notin> set (L k))"

section \<open>Preservation\<close>

lemma coalesced_mono: "coalesced L \<Longrightarrow> (\<And>k. k < 12 \<Longrightarrow> set (M k) \<subseteq> set (L k)) \<Longrightarrow> coalesced M"
  unfolding coalesced_def by blast

lemma buddy_neq: "2 ^ k dvd p \<Longrightarrow> buddy p k \<noteq> p"
  using buddy_block(2) [of k p] block_self [of p k] by auto

lemma abs_free_coalesced:
  assumes "lists_ok n L" "hole n L p k" "coalesced L"
  shows "coalesced (abs_free L p k)"
  using assms
proof (induction L p k rule: abs_free.induct)
  case (1 L p k)
  let ?b = "buddy p k"
  have dv: "2 ^ k dvd p" and k12: "k \<le> 12" using 1(3) by (simp_all add: hole_def)
  show ?case
  proof (cases "k < 12 \<and> ?b \<in> set (L k)")
    case True
    let ?L = "L(k := remove1 ?b (L k))"
    have "coalesced ?L" by (rule coalesced_mono [OF 1(4)]) (simp add: set_remove1_subset)
    moreover have "lists_ok n ?L" using lists_ok_remove [OF 1(2) k12] .
    moreover have "hole n ?L (min p ?b) (Suc k)" using merge_hole [OF 1(2,3)] True by blast
    ultimately have "coalesced (abs_free ?L (min p ?b) (Suc k))" using 1(1) [OF True] by blast
    then show ?thesis using True by (subst abs_free.simps) simp
  next
    case False
    have "buddy q k \<noteq> p" if "q \<in> set (L k)" "k < 12" for q
    proof
      assume "buddy q k = p"
      then have "?b = q" using buddy_involution lists_okD(2) [OF 1(2) k12 that(1)] by blast
      then show False using False that by simp
    qed
    then have "coalesced (L(k := p # L k))"
      using 1(4) False buddy_neq [OF dv] by (auto simp: coalesced_def)
    then show ?thesis using False by (subst abs_free.simps) auto
  qed
qed

lemma abs_alloc_coalesced:
  assumes "lists_ok n L" "coalesced L" "abs_alloc L order = Some (p, M)"
  shows "coalesced M"
proof -
  obtain k where fk: "find (\<lambda>k. L k \<noteq> []) [order..<13] = Some k" and p: "p = hd (L k)"
    and M: "M = abs_split (L(k := tl (L k))) p (rev [order..<k])"
    using assms(3) by (auto simp: abs_alloc_def split: option.splits)
  then have k: "order \<le> k" "k < 13" "L k \<noteq> []" "\<And>j. order \<le> j \<Longrightarrow> j < k \<Longrightarrow> L j = []"
    by (auto simp: find_upt_Some_iff)
  define d where "d = k - order"
  have kd: "k = order + d" using k(1) by (simp add: d_def)
  have Mj: "M j = (if order \<le> j \<and> j < k then [p + 2 ^ j] else if j = k then tl (L k) else L j)" for j
    using abs_split_lists [of "L(k := tl (L k))" p order d j] k(4) [of j] M kd by auto
  have dp: "2 ^ k dvd p" using lists_okD(2) [OF assms(1), of k p] k(2,3) p by simp
  have "buddy q j \<notin> set (M j)" if "j < 12" "q \<in> set (M j)" for j q
  proof (cases "order \<le> j \<and> j < k")
    case True
    then have "2 ^ j dvd p" using dp power_le_dvd [of 2 k p j] by simp
    then have "2 ^ j dvd p + 2 ^ j" by simp
    then show ?thesis using True that Mj [of j] buddy_neq by auto
  next
    case False
    then have "set (M j) \<subseteq> set (L j)" using Mj [of j] by (auto dest: list.set_sel(2) [OF k(3)])
    then show ?thesis using that assms(2) by (auto simp: coalesced_def)
  qed
  then show ?thesis by (simp add: coalesced_def)
qed

section \<open>Completeness\<close>

lemma coalesced_complete:
  assumes ok: "lists_ok n L" and co: "coalesced L" and dq: "2 ^ k dvd q" and k12: "k \<le> 12"
    and run: "block q k \<subseteq> covered L"
  shows "\<exists>j. k \<le> j \<and> j \<le> 12 \<and> L j \<noteq> []"
proof (rule ccontr)
  assume none: "\<not> ?thesis"
  have inside: "j < k \<and> block p j \<subseteq> block q k"
    if "p \<in> set (L j)" "j \<le> 12" "x \<in> block p j" "x \<in> block q k" for p j x
  proof -
    have "j < k" using none that(1,2) by (metis empty_iff empty_set not_le)
    then show ?thesis
      using block_nested [OF dq lists_okD(2) [OF ok that(2,1)]] that(3,4) less_imp_le by blast
  qed
  let ?P = "\<lambda>j. j \<le> 12 \<and> (\<exists>p \<in> set (L j). p \<in> block q k)"
  obtain i r where r: "r \<in> set (L i)" "q \<in> block r i" "i \<le> 12"
    using run block_self [of q k] unfolding subset_iff covered_iff by blast
  then have "?P i" using inside [OF r(1,3,2) block_self] block_self [of r i] by blast
  define j where "j = (LEAST j. ?P j)"
  have Pj: "?P j" unfolding j_def by (rule LeastI) fact
  have least: "j \<le> i" if "?P i" for i unfolding j_def using that by (rule Least_le)
  obtain p where p: "p \<in> set (L j)" "p \<in> block q k" and j12: "j \<le> 12" using Pj by blast
  have jk: "j < k" using inside [OF p(1) j12 block_self p(2)] by blast
  have dp: "2 ^ j dvd p" using lists_okD(2) [OF ok j12 p(1)] .
  let ?b = "buddy p j"
  note bb = buddy_block [OF dp]
  have pm: "p \<in> block (min p ?b) (Suc j)" "?b \<in> block (min p ?b) (Suc j)"
    using bb(1) block_self [of p j] block_self [of ?b j] by blast+
  have "block (min p ?b) (Suc j) \<subseteq> block q k"
    using block_nested [OF dq bb(3)] jk pm(1) p(2) by (meson Suc_leI disjoint_iff)
  then have bq: "?b \<in> block q k" using pm(2) by blast
  then obtain i r where r: "r \<in> set (L i)" "?b \<in> block r i" "i \<le> 12"
    using run unfolding subset_iff covered_iff by blast
  have dr: "2 ^ i dvd r" using lists_okD(2) [OF ok r(3,1)] .
  have "r \<in> block q k" using inside [OF r(1,3,2) bq] block_self [of r i] by blast
  then have ji: "j \<le> i" using least r by blast
  show False
  proof (cases "j = i")
    case True
    have meet: "block ?b j \<inter> block r j \<noteq> {}" using r(2) block_self [of ?b j] True by blast
    have drj: "2 ^ j dvd r" using dr True by simp
    have "block r j \<subseteq> block ?b j" using block_nested [OF bb(4) drj le_refl meet] .
    moreover have "block ?b j \<subseteq> block r j" using block_nested [OF drj bb(4) le_refl] meet by (simp add: Int_commute)
    ultimately have "r \<in> block ?b j" "?b \<in> block r j" using block_self [of r j] block_self [of ?b j] by blast+
    then have "r = ?b" by (simp add: block_def)
    then show False using co p(1) r(1) True jk k12 by (auto simp: coalesced_def)
  next
    case False
    then have "block (min p ?b) (Suc j) \<subseteq> block r i"
      using block_nested [OF dr bb(3)] ji pm(2) r(2) by (meson disjoint_iff le_neq_implies_less Suc_leI)
    then have "p \<in> block r i" using pm(1) by blast
    moreover have "block p j \<inter> block r i = {}" using lists_okD(4) [OF ok j12 p(1) r(1,3)] False by simp
    ultimately show False using block_self [of p j] by blast
  qed
qed

end
