(* ===== verification/Buddy_Props.thy ===== *)
theory Buddy_Props
  imports Buddy_Refine Frame_Source Buddy_Coalesce
begin

text \<open>
  What one buddy zone guarantees: it is a frame source in the sense of \<open>Frame_Source\<close>, it
  serves a request whenever a large enough block is free, it coalesces maximally, it rejects
  double frees, and its free-frame counter is exact.  Two behaviours of the source that fall
  short of its comments are stated as well.
\<close>

section \<open>The zone as a frame source\<close>

definition base_frame :: "BuddyZone \<Rightarrow> nat" where
  "base_frame z = bz_phys_start z div 4096"

definition zone_inv :: "BuddyZone \<times> phys_mem \<Rightarrow> bool" where
  "zone_inv s \<longleftrightarrow> (\<exists>L. zone_rel (fst s) (snd s) L)"

definition zone_avail :: "BuddyZone \<Rightarrow> nat set" where
  "zone_avail z = (+) (base_frame z) ` {p \<in> {..<bz_total_frames z}. bitmap_is_free z p}"

definition zone_alloc :: "BuddyZone \<times> phys_mem \<Rightarrow> nat \<Rightarrow> AllocFlags \<Rightarrow> (AllocError, nat) result \<times> BuddyZone \<times> phys_mem" where
  "zone_alloc s order flags = (case s of (z, m) \<Rightarrow> BuddyZone_alloc_pages z m order flags)"

definition zone_free :: "BuddyZone \<times> phys_mem \<Rightarrow> nat \<Rightarrow> nat \<Rightarrow> (AllocError, unit) result \<times> BuddyZone \<times> phys_mem" where
  "zone_free s frame order = (case s of (z, m) \<Rightarrow> BuddyZone_free_pages z m frame order)"

lemma zone_avail_rel: "zone_rel z m L \<Longrightarrow> zone_avail z = (+) (base_frame z) ` covered L"
  using covered_less [OF zone_relD(2), of z m L] zone_relD(4) [of z m L]
  by (auto simp: zone_avail_def zone_bits_def)

lemma block_shift: "(+) s ` block p k = block (s + p) k"
  by (simp add: block_def ac_simps)

lemma addr_frame: "zone_geom z \<Longrightarrow> addr z p div 4096 = base_frame z + p"
  by (auto simp: base_frame_def zone_geom_def)

lemma zone_avail_cong:
  assumes "zone_same z z'" "\<And>p. bitmap_is_free z' p = bitmap_is_free z p"
  shows "zone_avail z' = zone_avail z"
  using assms by (simp add: zone_avail_def base_frame_def zone_same_def)

lemma bump_fail_avail [simp]: "zone_avail (bump_fail z) = zone_avail z"
  by (rule zone_avail_cong) (simp_all add: zone_same_def bitmap_is_free_iff covers_def)

lemma zone_same_bump_fail [simp]: "zone_same z (bump_fail z)"
  by (simp add: zone_same_def)

lemma zone_alloc_cases:
  assumes rel: "zone_rel z m L" and st: "BuddyZone_alloc_pages z m order flags = (r, z', m')"
  shows "zone_same z z' \<and> footprint z m m' \<and>
    (\<exists>L'. zone_rel z' m' L' \<and>
      (case r of Inl e \<Rightarrow> z' = bump_fail z \<and> L' = L
       | Inr f \<Rightarrow> \<exists>p. f = base_frame z + p \<and> abs_alloc L order = Some (p, L')))"
proof (cases "order \<le> 12")
  case False
  then show ?thesis using assms by (auto simp: BuddyZone_alloc_pages_def)
next
  case True
  note g = zone_relD(1) [OF rel]
  show ?thesis
  proof (cases "abs_alloc L order")
    case None
    then show ?thesis using alloc_pages_rel [OF rel True, of flags] assms by auto
  next
    case (Some pl)
    then show ?thesis using alloc_pages_rel [OF rel True, of flags] assms addr_frame [OF g]
      by (cases pl) auto
  qed
qed

lemma zone_free_cases:
  assumes rel: "zone_rel z m L" and st: "BuddyZone_free_pages z m frame order = (r, z', m')"
  shows "(\<exists>p. frame = base_frame z + p \<and> freeable z m L p order \<and> r = Ok () \<and> zone_same z z' \<and>
       zone_rel z' m' (abs_free L p order) \<and> footprint z m m') \<or>
    ((\<forall>p. frame = base_frame z + p \<longrightarrow> \<not> freeable z m L p order) \<and> r = Err InvalidParams \<and> z' = bump_fail z \<and> m' = m)"
proof (cases "base_frame z \<le> frame")
  case True
  define p where "p = frame - base_frame z"
  have f: "frame = base_frame z + p" using True by (simp add: p_def)
  then have a: "addr z p div 4096 = frame" using addr_frame [OF zone_relD(1) [OF rel]] by simp
  have u: "q = p" if "frame = base_frame z + q" for q using that f by simp
  show ?thesis
  proof (cases "freeable z m L p order")
    case True
    then show ?thesis using free_pages_ok [OF rel True] st f a by auto
  next
    case False
    then show ?thesis using free_pages_err [OF rel False] st a u by auto
  qed
next
  case False
  then have "frame * 4096 < bz_phys_start z"
    using zone_relD(1) [OF rel] by (auto simp: base_frame_def zone_geom_def)
  then have "\<not> contains_block z (frame * 4096) order" by (simp add: contains_block_def)
  then have "BuddyZone_free_pages z m frame order = (Err InvalidParams, bump_fail z, m)"
    using zone_relD(1) [OF rel] unfolding BuddyZone_free_pages_def PAGE_SIZE_def Let_def by (simp add: zone_geom_def)
  then show ?thesis using st False by auto
qed

lemma zone_alloc_ok:
  assumes "zone_rel z m L" "abs_alloc L order = Some (p, L')" "zone_rel z' m' L'" "zone_same z z'"
  shows "block (base_frame z + p) order \<subseteq> zone_avail z \<and>
    zone_avail z' = zone_avail z - block (base_frame z + p) order"
proof -
  note al = abs_alloc_Some [OF zone_relD(2) [OF assms(1)] assms(2)]
  have b: "base_frame z' = base_frame z" using zone_sameD(2) [OF assms(4)] by (simp add: base_frame_def)
  have "zone_avail z = zone_avail z' \<union> block (base_frame z + p) order"
    unfolding zone_avail_rel [OF assms(1)] zone_avail_rel [OF assms(3)] b al(3)
    by (simp add: image_Un block_shift [symmetric])
  moreover have "zone_avail z' \<inter> block (base_frame z + p) order = {}"
    unfolding zone_avail_rel [OF assms(3)] b block_shift [symmetric] using al(4) by auto
  ultimately show ?thesis by blast
qed

lemma zone_free_ok:
  assumes "zone_rel z m L" "freeable z m L p order" "zone_rel z' m' (abs_free L p order)" "zone_same z z'"
  shows "block (base_frame z + p) order \<inter> zone_avail z = {} \<and>
    zone_avail z' = zone_avail z \<union> block (base_frame z + p) order"
proof -
  have h: "hole (bz_total_frames z) L p order" using assms(2) by (simp add: freeable_def)
  note af = abs_free_ok [OF zone_relD(2) [OF assms(1)] h]
  have b: "base_frame z' = base_frame z" using zone_sameD(2) [OF assms(4)] by (simp add: base_frame_def)
  have "zone_avail z' = zone_avail z \<union> block (base_frame z + p) order"
    unfolding zone_avail_rel [OF assms(1)] zone_avail_rel [OF assms(3)] b conjunct2 [OF af]
    by (simp add: image_Un block_shift [symmetric])
  moreover have "block (base_frame z + p) order \<inter> zone_avail z = {}"
    unfolding zone_avail_rel [OF assms(1)] block_shift [symmetric] using h by (auto simp: hole_def)
  ultimately show ?thesis by blast
qed

interpretation bz: frame_source zone_alloc zone_free zone_inv "\<lambda>s. zone_avail (fst s)"
proof
  fix s :: "BuddyZone \<times> phys_mem" and k fl f s'
  assume inv: "zone_inv s" and st: "zone_alloc s k fl = (Inr f, s')"
  obtain z m z' m' L where s: "s = (z, m)" "s' = (z', m')" and rel: "zone_rel z m L"
    using inv by (cases s; cases s') (auto simp: zone_inv_def)
  have "BuddyZone_alloc_pages z m k fl = (Inr f, z', m')" using st s by (simp add: zone_alloc_def)
  from zone_alloc_cases [OF rel this] obtain L' p where
    "zone_same z z'" "zone_rel z' m' L'" "f = base_frame z + p" "abs_alloc L k = Some (p, L')" by auto
  then show "zone_inv s' \<and> block f k \<subseteq> zone_avail (fst s) \<and> zone_avail (fst s') = zone_avail (fst s) - block f k"
    using zone_alloc_ok [OF rel] s by (auto simp: zone_inv_def)
next
  fix s :: "BuddyZone \<times> phys_mem" and k fl e s'
  assume inv: "zone_inv s" and st: "zone_alloc s k fl = (Inl e, s')"
  obtain z m z' m' L where s: "s = (z, m)" "s' = (z', m')" and rel: "zone_rel z m L"
    using inv by (cases s; cases s') (auto simp: zone_inv_def)
  have "BuddyZone_alloc_pages z m k fl = (Inl e, z', m')" using st s by (simp add: zone_alloc_def)
  from zone_alloc_cases [OF rel this] show "zone_inv s' \<and> zone_avail (fst s') = zone_avail (fst s)"
    using s by (auto simp: zone_inv_def)
next
  fix s :: "BuddyZone \<times> phys_mem" and f k u s'
  assume inv: "zone_inv s" and st: "zone_free s f k = (Inr u, s')"
  obtain z m z' m' L where s: "s = (z, m)" "s' = (z', m')" and rel: "zone_rel z m L"
    using inv by (cases s; cases s') (auto simp: zone_inv_def)
  have "BuddyZone_free_pages z m f k = (Inr u, z', m')" using st s by (simp add: zone_free_def)
  from zone_free_cases [OF rel this] obtain p where "f = base_frame z + p" "freeable z m L p k"
    "zone_same z z'" "zone_rel z' m' (abs_free L p k)" by auto
  then show "zone_inv s' \<and> block f k \<inter> zone_avail (fst s) = {} \<and> zone_avail (fst s') = zone_avail (fst s) \<union> block f k"
    using zone_free_ok [OF rel] s by (auto simp: zone_inv_def)
next
  fix s :: "BuddyZone \<times> phys_mem" and f k e s'
  assume inv: "zone_inv s" and st: "zone_free s f k = (Inl e, s')"
  obtain z m z' m' L where s: "s = (z, m)" "s' = (z', m')" and rel: "zone_rel z m L"
    using inv by (cases s; cases s') (auto simp: zone_inv_def)
  have "BuddyZone_free_pages z m f k = (Inl e, z', m')" using st s by (simp add: zone_free_def)
  from zone_free_cases [OF rel this] show "zone_inv s' \<and> zone_avail (fst s') = zone_avail (fst s)"
    using s rel by (auto simp: zone_inv_def)
qed

section \<open>A sample zone\<close>

definition sample_mem :: phys_mem where
  "sample_mem = \<lparr>pm_heap = (\<lambda>x. \<lparr>fn_next = NullPtr, fn_prev = NullPtr, fn_order = 0\<rparr>), pm_desc = (\<lambda>f. 0)\<rparr>"

text \<open>128 frames, of which two separate runs of 16 are free, as blocks of order 4.\<close>

definition sample_zone_at :: "nat \<Rightarrow> nat \<Rightarrow> BuddyZone \<times> phys_mem" where
  "sample_zone_at i s =
    (let (z, m) = BuddyZone_init (BuddyZone_new_uninit i) sample_mem Normal 0 s (s + 524288) (Some (\<lambda>i. 0)) 2;
         (z, m) = add_free_block z m s 4
     in add_free_block z m (s + 32 * 4096) 4)"

definition sample_zone :: "BuddyZone \<times> phys_mem" where
  "sample_zone = sample_zone_at 1 16777216"

definition sample_lists :: free_lists where
  "sample_lists = (\<lambda>k. [])(4 := [32, 0])"

lemma sample_zone_at_rel:
  assumes s: "4096 dvd s" "s + 524288 \<le> 2097152 * 4096"
  obtains z m where "sample_zone_at i s = (z, m)" "zone_rel z m sample_lists" "bz_phys_start z = s"
    "bz_phys_end z = s + 524288" "bz_total_frames z = 128" "bz_id z = i" "bz_numa_node z = 0"
proof -
  obtain a m1 where ini: "BuddyZone_init (BuddyZone_new_uninit i) sample_mem Normal 0 s (s + 524288) (Some (\<lambda>i. 0)) 2 = (a, m1)"
    by fastforce
  have r1: "zone_rel a m1 (\<lambda>k. [])" "bz_phys_start a = s" "bz_phys_end a = s + 524288" "bz_id a = i" "bz_numa_node a = 0"
    using init_rel(1-5) [OF s(1) _ s(2) _ _ ini] by (simp_all add: sample_mem_def)
  have n1: "bz_total_frames a = 128" using zone_relD(1) [OF r1(1)] r1(2,3) by (simp add: zone_geom_def)
  have "hole (bz_total_frames a) (\<lambda>k. []) 0 4" by (simp add: hole_def n1 covered_def)
  from add_free_block_rel [OF r1(1) this] obtain b m2 where
    b: "add_free_block a m1 s 4 = (b, m2)" "zone_same a b" "zone_rel b m2 ((\<lambda>k. [])(4 := [0]))"
    by (auto simp: r1(2))
  have e: "bz_phys_start b = s" "bz_phys_end b = s + 524288" "bz_total_frames b = 128" "bz_id b = i" "bz_numa_node b = 0"
    using b(2) r1(2-5) n1 by (simp_all add: zone_same_def)
  have "covered ((\<lambda>k. [])(4 := [0])) = block 0 4"
    using covered_upd_cons [of 4 "\<lambda>k. []" 0] by (simp add: covered_def)
  then have "hole (bz_total_frames b) ((\<lambda>k. [])(4 := [0])) 32 4" by (auto simp: hole_def e block_def)
  from add_free_block_rel [OF b(3) this] obtain c m3 where
    c: "add_free_block b m2 (s + 32 * 4096) 4 = (c, m3)" "zone_same b c" "zone_rel c m3 sample_lists"
    by (auto simp: e sample_lists_def)
  have "sample_zone_at i s = (c, m3)" using ini b(1) c(1) by (simp add: sample_zone_at_def)
  then show thesis using that c e by (simp add: zone_same_def)
qed

lemma sample_zone_rel:
  obtains z m where "sample_zone = (z, m)" "zone_rel z m sample_lists" "bz_phys_start z = 16777216"
    "bz_phys_end z = 16777216 + 524288" "bz_total_frames z = 128" "bz_id z = 1"
proof -
  have "4096 dvd (16777216::nat)" "16777216 + 524288 \<le> (2097152 * 4096 :: nat)" by simp_all
  then obtain z m where "sample_zone_at 1 16777216 = (z, m)" "zone_rel z m sample_lists" "bz_phys_start z = 16777216"
    "bz_phys_end z = 16777216 + 524288" "bz_total_frames z = 128" "bz_id z = 1" "bz_numa_node z = 0"
    by (rule sample_zone_at_rel)
  then show thesis using that unfolding sample_zone_def by blast
qed

lemma sample_covered: "covered sample_lists = {0..<16} \<union> {32..<48}"
proof -
  have "covered sample_lists = block 0 4 \<union> block 32 4"
    using covered_upd_cons [of 4 "\<lambda>k. []" 0] covered_upd_cons [of 4 "(\<lambda>k. [])(4 := [0])" 32]
    by (simp add: covered_def sample_lists_def)
  then show ?thesis by (simp add: block_def)
qed

lemma sample_coalesced: "coalesced sample_lists"
proof -
  have "buddy 0 4 = 16" "buddy 32 4 = 48" by (simp_all add: buddy_eq)
  then show ?thesis by (auto simp: coalesced_def sample_lists_def)
qed

lemma sample_alloc: "abs_alloc sample_lists 3 = Some (32, (\<lambda>k. [])(4 := [0], 3 := [40]))"
  by (simp add: abs_alloc_def sample_lists_def abs_split_def upt_rec fun_upd_twist)

lemma sample_alloc_run:
  obtains z m z1 m1 where "sample_zone = (z, m)" "zone_inv (z, m)"
    "BuddyZone_alloc_pages z m 3 0 = (Ok 4128, z1, m1)"
proof -
  obtain z m where z: "sample_zone = (z, m)" "zone_rel z m sample_lists" "bz_phys_start z = 16777216"
    by (rule sample_zone_rel)
  show thesis using that [OF z(1)] alloc_pages_rel [OF z(2), of 3 0] z(2,3)
    by (auto simp: sample_alloc zone_inv_def)
qed

section \<open>Properties of allocation and release\<close>

text \<open>
  C1: Allocation refines the block-list specification.  On a zone related to the block lists,
  \<open>alloc_pages\<close> pops the first block of the smallest sufficient order, splits it down, returns
  its first frame and leaves a related zone; when no sufficient order has a block it reports
  \<open>OutOfMemory\<close> and changes nothing but the failure counter.
\<close>

theorem alloc_pages_refines:
  assumes "zone_rel z m L" "order \<le> 12"
  shows "case abs_alloc L order of
      None \<Rightarrow> BuddyZone_alloc_pages z m order flags = (Err OutOfMemory, bump_fail z, m)
    | Some (p, L') \<Rightarrow> \<exists>z' m'. BuddyZone_alloc_pages z m order flags = (Ok (base_frame z + p), z', m') \<and>
        zone_rel z' m' L' \<and> lists_ok (bz_total_frames z) L' \<and> hole (bz_total_frames z) L' p order \<and>
        covered L = covered L' \<union> block p order"
proof (cases "abs_alloc L order")
  case (Some pl)
  obtain p L' where pl: "pl = (p, L')" by fastforce
  then show ?thesis
    using Some alloc_pages_rel [OF assms, of flags] abs_alloc_Some [OF zone_relD(2) [OF assms(1)], of order p L']
      addr_frame [OF zone_relD(1) [OF assms(1)]] by auto
qed (use alloc_pages_rel [OF assms, of flags] in simp)

theorem alloc_pages_refines_witness:
  "case sample_zone of (z, m) \<Rightarrow> case BuddyZone_alloc_pages z m 3 0 of (r, z', m') \<Rightarrow>
    r = Ok 4128 \<and> zone_rel z' m' ((\<lambda>k. [])(4 := [0], 3 := [40]))"
proof -
  obtain z m where z: "sample_zone = (z, m)" "zone_rel z m sample_lists" "bz_phys_start z = 16777216"
    by (rule sample_zone_rel)
  show ?thesis unfolding z(1) prod.case
    using alloc_pages_refines [OF z(2), of 3 0] z(3) by (auto simp: sample_alloc base_frame_def)
qed

text \<open>
  C2: Release refines the specification and rejects everything else.  Freeing frame \<open>p\<close> at
  order \<open>k\<close> succeeds exactly when the block is aligned, inside the zone, wholly allocated and
  free of reserved frames; the block is then merged with its buddies as far as they are free.
  Every other request returns \<open>InvalidParams\<close> and changes nothing but the failure counter.
\<close>

theorem free_pages_refines:
  assumes "zone_rel z m L"
  shows "if freeable z m L p k
    then \<exists>z' m'. BuddyZone_free_pages z m (base_frame z + p) k = (Ok (), z', m') \<and>
        zone_rel z' m' (abs_free L p k) \<and> covered (abs_free L p k) = covered L \<union> block p k
    else BuddyZone_free_pages z m (base_frame z + p) k = (Err InvalidParams, bump_fail z, m)"
  using free_pages_ok [OF assms, of p k] free_pages_err [OF assms, of p k] addr_frame [OF zone_relD(1) [OF assms]]
    abs_free_ok [OF zone_relD(2) [OF assms], of p k] by (auto simp: freeable_def)

theorem free_pages_refines_witness:
  "case sample_zone of (z, m) \<Rightarrow> BuddyZone_free_pages z m 4096 0 = (Err InvalidParams, bump_fail z, m)"
proof -
  obtain z m where z: "sample_zone = (z, m)" "zone_rel z m sample_lists" "bz_phys_start z = 16777216"
    by (rule sample_zone_rel)
  have "\<not> freeable z m sample_lists 0 0"
    by (simp add: freeable_def hole_def sample_covered block_def)
  then show ?thesis unfolding z(1) prod.case
    using free_pages_refines [OF z(2), of 0 0] z(3) by (simp add: base_frame_def)
qed

text \<open>
  C11: A coalesced zone serves every request it could serve.  If no order lists both halves of a
  larger block, a request of order at most 12 succeeds if and only if some aligned run of
  \<open>2^order\<close> frames of the zone is free.
\<close>

theorem alloc_succeeds_iff_run_free:
  assumes rel: "zone_rel z m L" and co: "coalesced L" and o12: "order \<le> 12"
  shows "is_ok (fst (BuddyZone_alloc_pages z m order flags)) \<longleftrightarrow>
    (\<exists>q. 2 ^ order dvd q \<and> block (base_frame z + q) order \<subseteq> zone_avail z)"
proof -
  note r = zone_relD [OF rel]
  have sub: "block (base_frame z + q) order \<subseteq> zone_avail z \<longleftrightarrow> block q order \<subseteq> covered L" for q
    unfolding zone_avail_rel [OF rel] block_shift [symmetric] by (auto simp: inj_image_subset_iff)
  have ok: "is_ok (fst (BuddyZone_alloc_pages z m order flags)) \<longleftrightarrow> abs_alloc L order \<noteq> None"
    using alloc_pages_rel [OF rel o12, of flags] by (auto split: option.splits)
  show ?thesis unfolding ok sub
  proof
    assume "abs_alloc L order \<noteq> None"
    then obtain p L' where "abs_alloc L order = Some (p, L')" by auto
    from abs_alloc_Some [OF r(2) this] show "\<exists>q. 2 ^ order dvd q \<and> block q order \<subseteq> covered L"
      by (auto simp: hole_def)
  next
    assume "\<exists>q. 2 ^ order dvd q \<and> block q order \<subseteq> covered L"
    then obtain j where "order \<le> j" "j \<le> 12" "L j \<noteq> []" using coalesced_complete [OF r(2) co _ o12] by blast
    then show "abs_alloc L order \<noteq> None" unfolding abs_alloc_None_iff by force
  qed
qed

theorem alloc_succeeds_iff_run_free_witness:
  "case sample_zone of (z, m) \<Rightarrow> is_ok (fst (BuddyZone_alloc_pages z m 4 0))"
proof -
  obtain z m where z: "sample_zone = (z, m)" "zone_rel z m sample_lists"
    by (rule sample_zone_rel)
  have "block (base_frame z + 0) 4 \<subseteq> zone_avail z"
    unfolding zone_avail_rel [OF z(2)] block_shift [symmetric] sample_covered
    by (rule image_mono) (auto simp: block_def)
  then have "\<exists>q. 2 ^ 4 dvd q \<and> block (base_frame z + q) 4 \<subseteq> zone_avail z" by (intro exI [of _ 0]) simp
  then show ?thesis using alloc_succeeds_iff_run_free [OF z(2) sample_coalesced, of 4 0]
    unfolding z(1) prod.case by simp
qed

definition zone_compact :: "BuddyZone \<times> phys_mem \<Rightarrow> bool" where
  "zone_compact s \<longleftrightarrow> (\<exists>L. zone_rel (fst s) (snd s) L \<and> coalesced L)"

lemma compact_step:
  assumes "zone_compact s" "page_step zone_alloc zone_free (s, own) op = (s', own')"
  shows "zone_compact s'"
proof -
  obtain z m L where s: "s = (z, m)" and rel: "zone_rel z m L" and co: "coalesced L"
    using assms(1) by (cases s) (auto simp: zone_compact_def)
  note ok = zone_relD(2) [OF rel]
  show ?thesis
  proof (cases op)
    case (AllocOp k fl)
    obtain r z' m' where a: "BuddyZone_alloc_pages z m k fl = (r, z', m')" by (metis prod_cases3)
    have s': "s' = (z', m')" using assms(2) AllocOp a s by (auto simp: page_step_def zone_alloc_def split: sum.splits)
    show ?thesis using zone_alloc_cases [OF rel a] abs_alloc_coalesced [OF ok co] co s'
      by (cases r) (auto simp: zone_compact_def)
  next
    case (FreeOp f k)
    obtain r z' m' where a: "BuddyZone_free_pages z m f k = (r, z', m')" by (metis prod_cases3)
    have s': "s' = (z', m') \<or> s' = s" using assms(2) FreeOp a s
      by (auto simp: page_step_def zone_free_def split: sum.splits if_splits)
    have "zone_compact (z', m')"
      using zone_free_cases [OF rel a] abs_free_coalesced [OF ok _ co] co rel
      by (auto simp: zone_compact_def freeable_def)
    then show ?thesis using s' assms(1) by auto
  qed
qed

text \<open>
  C14: Coalescing is kept.  Starting from a coalesced zone, any sequence of allocations and of
  releases by holders leaves a coalesced zone: merging on release is complete, not just local.
\<close>

theorem coalescing_is_complete:
  assumes "zone_compact s" "page_run zone_alloc zone_free (s, own) ops = (s', own')"
  shows "zone_compact s'"
  using assms
proof (induction ops arbitrary: s own)
  case Nil
  then show ?case by (simp add: page_run_def)
next
  case (Cons op ops)
  obtain t o1 where st: "page_step zone_alloc zone_free (s, own) op = (t, o1)" by fastforce
  have "page_run zone_alloc zone_free (t, o1) ops = (s', own')" using Cons.prems(2) st by (simp add: page_run_def)
  then show ?case using Cons.IH compact_step [OF Cons.prems(1) st] by blast
qed

theorem coalescing_is_complete_witness:
  "zone_compact (fst (page_run zone_alloc zone_free (sample_zone, []) [AllocOp 3 0, AllocOp 0 0]))"
proof -
  have "zone_compact sample_zone"
    using sample_zone_rel sample_coalesced by (metis fst_conv snd_conv zone_compact_def)
  then show ?thesis using coalescing_is_complete by (metis prod.collapse)
qed

text \<open>What the holder of a run of frames may change.\<close>

definition client_write :: "phys_mem \<Rightarrow> phys_mem \<Rightarrow> nat \<Rightarrow> nat \<Rightarrow> bool" where
  "client_write m m' f k \<longleftrightarrow> pm_desc m' = pm_desc m \<and> (\<forall>i j. pm_heap m' (Head i j) = pm_heap m (Head i j)) \<and>
     (\<forall>a. a div 4096 \<notin> block f k \<longrightarrow> pm_heap m' (Blk a) = pm_heap m (Blk a))"

lemma alloc_then_free:
  assumes inv: "zone_inv (z, m)" and al: "BuddyZone_alloc_pages z m k flags = (Ok f, z1, m1)"
    and wr: "client_write m1 m2 f k"
  shows "\<exists>z2 m3. BuddyZone_free_pages z1 m2 f k = (Ok (), z2, m3) \<and> zone_inv (z2, m3) \<and>
    zone_avail z2 = zone_avail z \<and> bz_free_frames z2 = bz_free_frames z"
proof -
  obtain L where rel: "zone_rel z m L" using inv by (auto simp: zone_inv_def)
  have k12: "k \<le> 12" using al by (auto simp: BuddyZone_alloc_pages_def split: if_splits)
  note r = zone_relD [OF rel]
  obtain p L' where ab: "abs_alloc L k = Some (p, L')" and f: "f = base_frame z + p" and same: "zone_same z z1"
    and rel1: "zone_rel z1 m1 L'"
    using zone_alloc_cases [OF rel al] by auto
  note abs = abs_alloc_Some [OF r(2) ab]
  have fl: "zflags z m1 q = (zflags z m q AND NOT FrameFlags_FREE) OR
      (if q = p \<and> (AllocFlags_contains flags AllocFlags_DMA \<or> AllocFlags_contains flags AllocFlags_DMA32)
       then FrameFlags_DMA_PINNED else 0)" if "q \<in> block p k" "q < bz_total_frames z" for q
    using alloc_pages_rel [OF rel k12, of flags] al ab that by auto
  have e: "base_frame z1 = base_frame z" using zone_sameD(2) [OF same] by (simp add: base_frame_def)
  have rel2: "zone_rel z1 m2 L'"
  proof (rule zone_rel_scribble [OF rel1])
    fix q assume q: "q \<in> covered L'"
    then have "q \<notin> block p k" using abs(4) by blast
    moreover have "addr z1 q div 4096 = base_frame z + q" using addr_frame [OF zone_relD(1) [OF rel1]] e by simp
    ultimately show "pm_heap m2 (node z1 q) = pm_heap m1 (node z1 q)" using wr f
      by (simp add: client_write_def block_def)
  qed (use wr in \<open>simp_all add: client_write_def desc_flags_def\<close>)
  have "freeable z1 m2 L' p k"
  proof -
    have "\<not> bit (zflags z1 m2 q) 13" if "q \<in> block p k" for q
    proof -
      have "q \<in> covered L" "q < bz_total_frames z" using that abs(2,3) by (auto simp: hole_def block_def)
      then show ?thesis using r(4) fl [OF that] wr zone_sameD(5) [OF same]
        by (auto simp: zone_bits_def client_write_def desc_flags_def)
    qed
    then show ?thesis using abs(2) zone_sameD(3) [OF same] by (simp add: freeable_def)
  qed
  from free_pages_ok [OF rel2 this] obtain z2 m3 where fr: "BuddyZone_free_pages z1 m2 f k = (Ok (), z2, m3)"
    "zone_same z1 z2" "zone_rel z2 m3 (abs_free L' p k)"
    using addr_frame [OF zone_relD(1) [OF rel2]] e f by auto
  have cov: "covered (abs_free L' p k) = covered L"
    using abs_free_ok [OF abs(1,2)] abs(3) by simp
  then have "zone_avail z2 = zone_avail z"
    using zone_avail_rel [OF fr(3)] zone_avail_rel [OF rel] zone_sameD(2) [OF fr(2)] e by (simp add: base_frame_def)
  moreover have "bz_free_frames z2 = bz_free_frames z" using zone_relD(5) [OF fr(3)] r(5) cov by simp
  ultimately show ?thesis using fr by (auto simp: zone_inv_def)
qed

text \<open>
  C15: Double frees are caught.  After a successful release, any release of a block that meets
  the released one is rejected with \<open>InvalidParams\<close> and leaves zone and memory as they were, up
  to the failure counter.
\<close>

theorem overlapping_free_rejected:
  assumes "zone_inv (z, m)" "BuddyZone_free_pages z m f k = (Ok (), z1, m1)" "block g j \<inter> block f k \<noteq> {}"
  shows "BuddyZone_free_pages z1 m1 g j = (Err InvalidParams, bump_fail z1, m1)"
proof -
  obtain L where rel: "zone_rel z m L" using assms(1) by (auto simp: zone_inv_def)
  obtain p where p: "f = base_frame z + p" "freeable z m L p k" "zone_same z z1" "zone_rel z1 m1 (abs_free L p k)"
    using zone_free_cases [OF rel assms(2)] by auto
  obtain r z2 m2 where st: "BuddyZone_free_pages z1 m1 g j = (r, z2, m2)" by (metis prod_cases3)
  have av: "block f k \<subseteq> zone_avail z1" using zone_free_ok [OF rel p(2,4,3)] p(1) by auto
  have "\<not> (\<exists>q. g = base_frame z1 + q \<and> freeable z1 m1 (abs_free L p k) q j)"
  proof
    assume "\<exists>q. g = base_frame z1 + q \<and> freeable z1 m1 (abs_free L p k) q j"
    then obtain q where q: "g = base_frame z1 + q" "freeable z1 m1 (abs_free L p k) q j" by blast
    then have "block g j \<inter> zone_avail z1 = {}"
      unfolding zone_avail_rel [OF p(4)] q(1) block_shift [symmetric] by (auto simp: freeable_def hole_def)
    then show False using av assms(3) by blast
  qed
  then show ?thesis using zone_free_cases [OF p(4) st] st by auto
qed

theorem overlapping_free_rejected_witness:
  "case sample_zone of (z, m) \<Rightarrow> case BuddyZone_alloc_pages z m 3 0 of (_, z1, m1) \<Rightarrow>
    case BuddyZone_free_pages z1 m1 4128 3 of (_, z2, m2) \<Rightarrow>
      BuddyZone_free_pages z2 m2 4128 3 = (Err InvalidParams, bump_fail z2, m2) \<and>
      BuddyZone_free_pages z2 m2 4130 1 = (Err InvalidParams, bump_fail z2, m2)"
proof -
  obtain z m z1 m1 where z: "sample_zone = (z, m)" "zone_inv (z, m)"
    "BuddyZone_alloc_pages z m 3 0 = (Ok 4128, z1, m1)" by (rule sample_alloc_run)
  have "client_write m1 m1 4128 3" by (simp add: client_write_def)
  then obtain z2 m2 where f: "BuddyZone_free_pages z1 m1 4128 3 = (Ok (), z2, m2)"
    using alloc_then_free [OF z(2,3)] by blast
  have "zone_inv (z1, m1)" using bz.alloc_ok [of "(z, m)" 3 0 4128 "(z1, m1)"] z(2,3) by (simp add: zone_alloc_def)
  note o = overlapping_free_rejected [OF this f]
  have "4130 \<in> block 4130 1 \<inter> block 4128 3" by (simp add: block_def)
  then have "block 4130 1 \<inter> block 4128 3 \<noteq> {}" by blast
  then show ?thesis unfolding z(1) prod.case z(3) f using o [of 4128 3] o [of 4130 1] by simp
qed

text \<open>
  C16: Allocation and release are inverse.  A block obtained from a zone can be given back
  whatever its holder wrote into it, and the zone then has the same free frames and the same
  free-frame count as before the allocation.
\<close>

theorem alloc_free_round_trip:
  assumes "zone_inv (z, m)" "BuddyZone_alloc_pages z m k flags = (Ok f, z1, m1)" "client_write m1 m2 f k"
  shows "\<exists>z2 m3. BuddyZone_free_pages z1 m2 f k = (Ok (), z2, m3) \<and> zone_inv (z2, m3) \<and>
    zone_avail z2 = zone_avail z \<and> bz_free_frames z2 = bz_free_frames z"
  using assms by (rule alloc_then_free)

theorem alloc_free_round_trip_witness:
  "case sample_zone of (z, m) \<Rightarrow> case BuddyZone_alloc_pages z m 3 0 of (r, z1, m1) \<Rightarrow>
    case BuddyZone_free_pages z1 m1 4128 3 of (r', z2, m2) \<Rightarrow>
      r = Ok 4128 \<and> r' = Ok () \<and> zone_avail z2 = zone_avail z"
proof -
  obtain z m z1 m1 where z: "sample_zone = (z, m)" "zone_inv (z, m)"
    "BuddyZone_alloc_pages z m 3 0 = (Ok 4128, z1, m1)" by (rule sample_alloc_run)
  have "client_write m1 m1 4128 3" by (simp add: client_write_def)
  from alloc_free_round_trip [OF z(2,3) this] obtain z2 m2
    where f: "BuddyZone_free_pages z1 m1 4128 3 = (Ok (), z2, m2)" "zone_avail z2 = zone_avail z" by blast
  then show ?thesis unfolding z(1) prod.case z(3) f(1) by simp
qed

section \<open>Behaviour that falls short of the comments\<close>

lemma reserved_bit: "bit (f OR FrameFlags_RESERVED) 13"
  unfolding FrameFlags_RESERVED_def push_bit_of_1 by (simp add: bit_simps)

lemma zone_alloc_flags:
  assumes rel: "zone_rel z m L" and al: "BuddyZone_alloc_pages z m k flags = (Ok f, z1, m1)" and x: "x \<in> block f k"
  shows "desc_flags m1 x = (desc_flags m x AND NOT FrameFlags_FREE) OR
    (if x = f \<and> (AllocFlags_contains flags AllocFlags_DMA \<or> AllocFlags_contains flags AllocFlags_DMA32)
     then FrameFlags_DMA_PINNED else 0)"
proof -
  have k12: "k \<le> 12" using al by (auto simp: BuddyZone_alloc_pages_def split: if_splits)
  note r = zone_relD [OF rel]
  obtain p L' where ab: "abs_alloc L k = Some (p, L')" and f: "f = base_frame z + p"
    using zone_alloc_cases [OF rel al] by auto
  define q where "q = x - base_frame z"
  have q: "x = base_frame z + q" "q \<in> block p k" using x f by (auto simp: q_def block_def)
  then have "q < bz_total_frames z" using abs_alloc_Some(2) [OF r(2) ab] by (auto simp: hole_def block_def)
  moreover have "pfn_to_frame z q = x" using q(1) r(1) by (auto simp: pfn_to_frame_def base_frame_def zone_geom_def)
  ultimately show ?thesis using alloc_pages_rel [OF rel k12, of flags] al ab q f by auto
qed

text \<open>
  Only the first frame of a DMA block is pinned.  An allocation with the \<open>DMA\<close> or
  \<open>DMA32\<close> flag sets \<open>DMA_PINNED\<close> on the first frame of the run; every other frame of the run
  merely loses its \<open>FREE\<close> flag.
\<close>

theorem dma_pins_first_frame_only:
  assumes "zone_inv (z, m)" "BuddyZone_alloc_pages z m k flags = (Ok f, z1, m1)"
    "AllocFlags_contains flags AllocFlags_DMA \<or> AllocFlags_contains flags AllocFlags_DMA32"
  shows "FrameFlags_contains (desc_flags m1 f) FrameFlags_DMA_PINNED \<and>
    (\<forall>x \<in> block f k - {f}. desc_flags m1 x = desc_flags m x AND NOT FrameFlags_FREE)"
proof -
  obtain L where rel: "zone_rel z m L" using assms(1) by (auto simp: zone_inv_def)
  note fl = zone_alloc_flags [OF rel assms(2)]
  have "desc_flags m1 f = (desc_flags m f AND NOT FrameFlags_FREE) OR FrameFlags_DMA_PINNED"
    using fl [OF block_self] assms(3) by auto
  then have "FrameFlags_contains (desc_flags m1 f) FrameFlags_DMA_PINNED"
    by (simp add: FrameFlags_contains_def bit_eq_iff bit_and_iff bit_or_iff) blast
  then show ?thesis using fl by auto
qed

theorem dma_pins_first_frame_only_witness:
  "case sample_zone of (z, m) \<Rightarrow> case BuddyZone_alloc_pages z m 3 AllocFlags_DMA of (r, z1, m1) \<Rightarrow>
    r = Ok 4128 \<and> desc_flags m1 4129 = desc_flags m 4129 AND NOT FrameFlags_FREE"
proof -
  obtain z m where z: "sample_zone = (z, m)" "zone_rel z m sample_lists" "bz_phys_start z = 16777216"
    by (rule sample_zone_rel)
  obtain z1 m1 where al: "BuddyZone_alloc_pages z m 3 AllocFlags_DMA = (Ok 4128, z1, m1)"
    using alloc_pages_rel [OF z(2), of 3 AllocFlags_DMA] z(3) by (auto simp: sample_alloc)
  have "zone_inv (z, m)" using z(2) by (auto simp: zone_inv_def)
  moreover have "AllocFlags_contains AllocFlags_DMA AllocFlags_DMA" by (simp add: AllocFlags_contains_def)
  ultimately have "\<forall>x \<in> block 4128 3 - {4128}. desc_flags m1 x = desc_flags m x AND NOT FrameFlags_FREE"
    using dma_pins_first_frame_only [OF _ al] by blast
  moreover have "4129 \<in> block 4128 3 - {4128}" by (simp add: block_def)
  ultimately have "desc_flags m1 4129 = desc_flags m 4129 AND NOT FrameFlags_FREE" by blast
  then show ?thesis unfolding z(1) prod.case al by simp
qed

text \<open>
  C36: Reserving a free frame makes allocation lose blocks.  If a frame of the first listed block
  of order \<open>k\<close> is reserved and no larger block is listed, a request of order \<open>k\<close> fails even
  when other blocks of order \<open>k\<close> are free, and the refused block is gone from the lists while
  the bitmap and the free-frame counter still report its frames as free.
\<close>

theorem reserved_frame_starves_order:
  assumes rel: "zone_rel z m L" and k: "k \<le> 12" and Lk: "L k = p # ps"
    and up: "\<And>j. k < j \<Longrightarrow> j \<le> 12 \<Longrightarrow> L j = []" and q: "q \<in> block p k"
  shows "\<exists>z' m'. BuddyZone_alloc_pages z (reserve_frame_descriptor m (base_frame z + q)) k flags = (Err OutOfMemory, z', m') \<and>
    zone_lists z' m' (L(k := ps)) \<and> zone_avail z' = zone_avail z \<and> bz_free_frames z' = bz_free_frames z"
proof -
  note r = zone_relD [OF rel]
  let ?m = "reserve_frame_descriptor m (base_frame z + q)"
  let ?m1 = "?m\<lparr>pm_heap := FreeNode_remove (pm_heap m) (node z p)\<rparr>"
  let ?z1 = "z\<lparr>bz_counts := (bz_counts z)(k := bz_counts z k - 1)\<rparr>"
  have pin: "p \<in> set (L k)" using Lk by simp
  have pn: "p + 2 ^ k \<le> bz_total_frames z" using lists_okD(3) [OF r(2) k pin] .
  then have qn: "q < bz_total_frames z" using q by (simp add: block_def)
  have hp: "pm_heap ?m = pm_heap m"
    by (simp add: reserve_frame_descriptor_def desc_set_flag_def desc_clear_flag_def Let_def)
  have pop: "FreeNode_pop (pm_heap m) (Head (bz_id z) k) = Some (node z p, FreeNode_remove (pm_heap m) (node z p))"
    using pop_dll [OF zone_listsD(1) [OF r(3) k]] Lk by simp
  have fr: "pfn_to_frame ?z1 q = base_frame z + q" using r(1) by (auto simp: pfn_to_frame_def base_frame_def zone_geom_def)
  have "bit (zflags ?z1 ?m1 q) 13"
    unfolding fr by (simp add: reserve_frame_descriptor_def desc_set_flag_def desc_clear_flag_def desc_flags_def Let_def
        reserved_bit)
  then have res: "descriptors_range_has_reserved ?z1 ?m1 p (2 ^ k)"
    using q unfolding descriptors_range_has_reserved_iff by blast
  have zl: "zone_lists ?z1 (m\<lparr>pm_heap := FreeNode_remove (pm_heap m) (node z p)\<rparr>) (L(k := ps))"
    using remove_block_lists [OF r(2,3) k pin] Lk by simp
  let ?z2 = "bump_fail ?z1"
  have zl2: "zone_lists ?z2 ?m1 (L(k := ps))"
    using zl by (subst zone_lists_cong [where z = ?z1 and m = "m\<lparr>pm_heap := FreeNode_remove (pm_heap m) (node z p)\<rparr>"]) simp_all
  have "alloc_inner z ?m k k = alloc_inner ?z2 ?m1 k (Suc k)"
    using k pop res hp addr_pfn [of ?z1 p] by (subst alloc_inner.simps) (simp add: Let_def node_phys_def)
  also have "\<dots> = alloc_inner ?z2 ?m1 k (Suc k + (12 - k))"
    using up k by (intro alloc_inner_skip [OF zl2]) auto
  also have "\<dots> = (Err OutOfMemory, ?z2, ?m1)" using k by (simp add: alloc_inner.simps [of _ _ _ 13])
  finally have "BuddyZone_alloc_pages z ?m k flags = (Err OutOfMemory, bump_fail ?z2, ?m1)"
    using k r(1) by (simp add: BuddyZone_alloc_pages_def zone_geom_def)
  moreover have "zone_lists (bump_fail ?z2) ?m1 (L(k := ps))"
    using zl2 by (subst zone_lists_cong [where z = ?z2 and m = ?m1]) simp_all
  moreover have "zone_avail (bump_fail ?z2) = zone_avail z"
    by (rule zone_avail_cong) (simp_all add: zone_same_def bitmap_is_free_iff covers_def)
  ultimately show ?thesis by (intro exI [of _ "bump_fail ?z2"] exI [of _ ?m1]) simp
qed

theorem reserved_frame_starves_order_witness:
  "case sample_zone of (z, m) \<Rightarrow>
    case BuddyZone_alloc_pages z (reserve_frame_descriptor m (base_frame z + 33)) 4 0 of (r, z', m') \<Rightarrow>
      r = Err OutOfMemory \<and> zone_lists z' m' ((\<lambda>k. [])(4 := [0]))"
proof -
  obtain z m where z: "sample_zone = (z, m)" "zone_rel z m sample_lists" by (rule sample_zone_rel)
  have "33 \<in> block 32 4" by (simp add: block_def)
  from reserved_frame_starves_order [OF z(2) _ _ _ this, of "[0]" 0] show ?thesis
    unfolding z(1) prod.case by (auto simp: sample_lists_def)
qed

end
