(* ===== verification/Buddy_Global.thy ===== *)
theory Buddy_Global
  imports Buddy_Props
begin

text \<open>
  The global buddy allocator (\<open>GlobalBuddyAllocator\<close> and the module functions of
  \<open>kernel/src/memory/physical/allocator/buddy.rs\<close>): four zones over one memory, routing by
  allocation flags with fallback, release by address, and boot-time population.  Zones with
  disjoint address ranges do not disturb each other, so the whole is again a frame source and
  its clients can never be given overlapping frames, whatever zones serve them.
\<close>

section \<open>Definitions\<close>

record GlobalBuddyAllocator =
  gb_zones :: "BuddyZone list"
  gb_initialized :: bool

type_synonym buddy_state = "GlobalBuddyAllocator \<times> phys_mem"

definition GlobalBuddyAllocator_new :: GlobalBuddyAllocator where
  "GlobalBuddyAllocator_new = \<lparr>gb_zones = map BuddyZone_new_uninit [0..<4], gb_initialized = False\<rparr>"

definition ZoneType_index :: "ZoneType \<Rightarrow> nat" where
  "ZoneType_index t = (case t of Dma \<Rightarrow> 0 | Dma32 \<Rightarrow> 1 | Normal \<Rightarrow> 2 | High \<Rightarrow> 3 | Movable \<Rightarrow> 4)"

definition zone_index_for :: "AllocFlags \<Rightarrow> nat" where
  "zone_index_for flags =
    (case required_zone flags of Dma \<Rightarrow> 0 | Dma32 \<Rightarrow> 1 | Movable \<Rightarrow> 3 | _ \<Rightarrow> 2)"

text \<open>A call of \<open>self.zones[idx].alloc_pages\<close>.\<close>

definition alloc_at :: "buddy_state \<Rightarrow> nat \<Rightarrow> nat \<Rightarrow> AllocFlags \<Rightarrow> (AllocError, nat) result \<times> buddy_state" where
  "alloc_at s idx order flags =
    (let (g, m) = s;
         (r, z, m) = BuddyZone_alloc_pages (gb_zones g ! idx) m order flags
     in (r, g\<lparr>gb_zones := (gb_zones g)[idx := z]\<rparr>, m))"

text \<open>The two fallback loops: the first success is returned, failures are passed over.\<close>

fun try_zones :: "buddy_state \<Rightarrow> nat list \<Rightarrow> nat \<Rightarrow> AllocFlags \<Rightarrow> nat option \<times> buddy_state" where
  "try_zones s [] order flags = (None, s)"
| "try_zones s (idx # idxs) order flags =
    (let (r, s) = alloc_at s idx order flags
     in case r of Inr f \<Rightarrow> (Some f, s) | Inl _ \<Rightarrow> try_zones s idxs order flags)"

definition Global_alloc_pages :: "buddy_state \<Rightarrow> nat \<Rightarrow> AllocFlags \<Rightarrow> (AllocError, nat) result \<times> buddy_state" where
  "Global_alloc_pages s order flags =
    (let zone_idx = zone_index_for flags;
         (result, s) = alloc_at s zone_idx order flags
     in if is_ok result then (result, s)
        else
          let (up, s) = (if \<not> AllocFlags_contains flags AllocFlags_DMA
                         then try_zones s [zone_idx + 1..<4] order flags else (None, s))
          in case up of
               Some f \<Rightarrow> (Ok f, s)
             | None \<Rightarrow>
                 let (down, s) = (if zone_idx > 1 then try_zones s (rev [1..<zone_idx]) order flags else (None, s))
                 in case down of Some f \<Rightarrow> (Ok f, s) | None \<Rightarrow> (result, s))"

definition zone_covers :: "BuddyZone \<Rightarrow> nat \<Rightarrow> bool" where
  "zone_covers z phys \<longleftrightarrow> bz_initialized z \<and> bz_phys_start z \<le> phys \<and> phys < bz_phys_end z"

definition Global_free_pages :: "buddy_state \<Rightarrow> nat \<Rightarrow> nat \<Rightarrow> (AllocError, unit) result \<times> buddy_state" where
  "Global_free_pages s frame order =
    (let (g, m) = s; phys = frame * PAGE_SIZE
     in case find (\<lambda>i. zone_covers (gb_zones g ! i) phys) [0..<length (gb_zones g)] of
          None \<Rightarrow> (Err ZoneUnavailable, s)
        | Some i \<Rightarrow>
            let (r, z, m) = BuddyZone_free_pages (gb_zones g ! i) m frame order
            in (r, g\<lparr>gb_zones := (gb_zones g)[i := z]\<rparr>, m))"

fun try_node :: "buddy_state \<Rightarrow> nat list \<Rightarrow> nat \<Rightarrow> AllocFlags \<Rightarrow> u8 \<Rightarrow> nat option \<times> buddy_state" where
  "try_node s [] order flags numa_node = (None, s)"
| "try_node s (idx # idxs) order flags numa_node =
    (let z = gb_zones (fst s) ! idx
     in if \<not> bz_initialized z \<or> bz_numa_node z \<noteq> numa_node then try_node s idxs order flags numa_node
        else let (r, s) = alloc_at s idx order flags
             in case r of Inr f \<Rightarrow> (Some f, s) | Inl _ \<Rightarrow> try_node s idxs order flags numa_node)"

definition Global_alloc_on_node :: "buddy_state \<Rightarrow> nat \<Rightarrow> AllocFlags \<Rightarrow> u8 \<Rightarrow> (AllocError, nat) result \<times> buddy_state" where
  "Global_alloc_on_node s order flags numa_node =
    (let (loc, s) = try_node s [0..<length (gb_zones (fst s))] order flags numa_node
     in case loc of Some f \<Rightarrow> (Ok f, s) | None \<Rightarrow> Global_alloc_pages s order flags)"

definition total_free_frames :: "GlobalBuddyAllocator \<Rightarrow> u64" where
  "total_free_frames g = sum_list (map bz_free_frames (filter bz_initialized (gb_zones g)))"

definition total_frames :: "GlobalBuddyAllocator \<Rightarrow> nat" where
  "total_frames g = sum_list (map bz_total_frames (filter bz_initialized (gb_zones g)))"

definition mark_initialized :: "GlobalBuddyAllocator \<Rightarrow> GlobalBuddyAllocator" where
  "mark_initialized g = g\<lparr>gb_initialized := True\<rparr>"

definition init_zone :: "buddy_state \<Rightarrow> ZoneType \<Rightarrow> nat \<Rightarrow> nat \<Rightarrow> (nat \<Rightarrow> u64) option \<Rightarrow> nat \<Rightarrow> buddy_state" where
  "init_zone s zone_type phys_start phys_end bitmap_buf bitmap_words =
    (let (g, m) = s;
         idx = min (ZoneType_index zone_type) 3;
         (z, m) = BuddyZone_init (gb_zones g ! idx) m zone_type 0 phys_start phys_end bitmap_buf bitmap_words
     in (g\<lparr>gb_zones := (gb_zones g)[idx := z]\<rparr>, m))"

text \<open>The body of the loop of \<open>add_free_zone_region\<close>, for the zone of one index.\<close>

definition add_region_to :: "nat \<Rightarrow> nat \<Rightarrow> buddy_state \<Rightarrow> nat \<Rightarrow> buddy_state" where
  "add_region_to rs re s i =
    (let (g, m) = s; z = gb_zones g ! i; zs = bz_phys_start z; ze = bz_phys_end z in
     if \<not> bz_initialized z then s
     else if rs \<ge> ze \<or> re \<le> zs then s
     else let cs = max rs zs; ce = min re ze in
       if cs \<ge> ce then s
       else let first_pfn = (cs - zs) div PAGE_SIZE; last_pfn = (ce - zs) div PAGE_SIZE;
                (z, m) = add_free_range z m first_pfn last_pfn
            in (g\<lparr>gb_zones := (gb_zones g)[i := z]\<rparr>, m))"

definition add_free_zone_region :: "buddy_state \<Rightarrow> nat \<Rightarrow> nat \<Rightarrow> buddy_state" where
  "add_free_zone_region s rs re = foldl (add_region_to rs re) s [0..<length (gb_zones (fst s))]"

definition Global_zone :: "GlobalBuddyAllocator \<Rightarrow> ZoneType \<Rightarrow> BuddyZone option" where
  "Global_zone g zone_type =
    (let look = (\<lambda>idx. let z = gb_zones g ! idx in if bz_initialized z then Some z else None)
     in case zone_type of Dma \<Rightarrow> look 0 | Dma32 \<Rightarrow> look 1 | Normal \<Rightarrow> look 2 | Movable \<Rightarrow> look 3 | High \<Rightarrow> None)"

definition alloc_page :: "buddy_state \<Rightarrow> AllocFlags \<Rightarrow> (AllocError, nat) result \<times> buddy_state" where
  "alloc_page s flags = Global_alloc_pages s 0 flags"

definition free_page :: "buddy_state \<Rightarrow> nat \<Rightarrow> (AllocError, unit) result \<times> buddy_state" where
  "free_page s frame = Global_free_pages s frame 0"

definition reserve_frames :: "phys_mem \<Rightarrow> nat list \<Rightarrow> phys_mem" where
  "reserve_frames m frames = foldl reserve_frame_descriptor m frames"

section \<open>Zones do not disturb each other\<close>

definition zone_range :: "BuddyZone \<Rightarrow> nat set" where
  "zone_range z = {bz_phys_start z ..< bz_phys_end z}"

definition global_inv :: "buddy_state \<Rightarrow> bool" where
  "global_inv s \<longleftrightarrow> length (gb_zones (fst s)) = 4 \<and>
     (\<forall>i<4. bz_id (gb_zones (fst s) ! i) = i \<and>
        (bz_initialized (gb_zones (fst s) ! i) \<longrightarrow> zone_inv (gb_zones (fst s) ! i, snd s))) \<and>
     (\<forall>i<4. \<forall>j<4. i \<noteq> j \<longrightarrow> bz_initialized (gb_zones (fst s) ! i) \<longrightarrow> bz_initialized (gb_zones (fst s) ! j) \<longrightarrow>
        zone_range (gb_zones (fst s) ! i) \<inter> zone_range (gb_zones (fst s) ! j) = {})"

definition global_avail :: "buddy_state \<Rightarrow> nat set" where
  "global_avail s = (\<Union>i \<in> {i \<in> {..<4}. bz_initialized (gb_zones (fst s) ! i)}. zone_avail (gb_zones (fst s) ! i))"

text \<open>The frames of a zone are those of its address range.\<close>

lemma zone_extent:
  assumes "zone_geom z"
  shows "addr z (bz_total_frames z) \<le> bz_phys_end z"
  using assms by (auto simp: zone_geom_def)

lemma other_zone_kept:
  assumes zi: "zone_inv (z', m)" and fp: "footprint z m m'" and g: "zone_geom z" and id: "bz_id z' \<noteq> bz_id z"
    and dis: "zone_range z' \<inter> zone_range z = {}"
  shows "zone_inv (z', m')"
proof -
  obtain L where rel: "zone_rel z' m L" using zi by (auto simp: zone_inv_def)
  note r = zone_relD [OF rel]
  have out: "addr z' q \<notin> {addr z 0 ..< addr z (bz_total_frames z)}" if "q < bz_total_frames z'" for q
  proof -
    have "addr z' q \<in> zone_range z'" using addr_in_zone [OF r(1) that] by (simp add: zone_range_def)
    then have "addr z' q \<notin> zone_range z" using dis by blast
    then show ?thesis using zone_extent [OF g] by (auto simp: zone_range_def)
  qed
  have "zone_rel z' m' L"
  proof (rule zone_rel_scribble [OF rel])
    fix q assume "q \<in> covered L"
    then have "q < bz_total_frames z'" using covered_less [OF r(2)] by auto
    then show "pm_heap m' (node z' q) = pm_heap m (node z' q)" using out fp by (simp add: footprint_def)
  next
    fix q assume q: "q < bz_total_frames z'"
    let ?f = "bz_phys_start z' div 4096 + q"
    have "?f \<notin> {bz_phys_start z div 4096 ..< bz_phys_start z div 4096 + bz_total_frames z}"
    proof
      assume a: "?f \<in> {bz_phys_start z div 4096 ..< bz_phys_start z div 4096 + bz_total_frames z}"
      have "?f * 4096 = addr z' q" "bz_phys_start z div 4096 * 4096 = bz_phys_start z"
        using r(1) g by (auto simp: zone_geom_def algebra_simps)
      moreover have "bz_phys_start z div 4096 * 4096 \<le> ?f * 4096"
        "?f * 4096 < (bz_phys_start z div 4096 + bz_total_frames z) * 4096" using a by auto
      ultimately show False using out [OF q] by (simp add: add_mult_distrib)
    qed
    then show "bit (zflags z' m' q) 0 = bit (zflags z' m q) 0 \<and> bit (zflags z' m' q) 13 = bit (zflags z' m q) 13"
      using fp geom_frame [OF r(1) q] by (simp add: footprint_def desc_flags_def)
  qed (use fp id in \<open>simp add: footprint_def\<close>)
  then show ?thesis by (auto simp: zone_inv_def)
qed

lemma avail_in_range:
  assumes "zone_inv (z, m)" "f \<in> zone_avail z"
  shows "f * 4096 \<in> zone_range z"
proof -
  obtain L where rel: "zone_rel z m L" using assms(1) by (auto simp: zone_inv_def)
  note g = zone_relD(1) [OF rel]
  obtain p where p: "p < bz_total_frames z" "f = base_frame z + p" using assms(2) by (auto simp: zone_avail_def)
  then have "f * 4096 = addr z p" using g by (auto simp: base_frame_def zone_geom_def algebra_simps)
  then show ?thesis using addr_in_zone [OF g p(1)] by (simp add: zone_range_def)
qed

lemma global_invD:
  assumes "global_inv (g, m)"
  shows "length (gb_zones g) = 4" "i < 4 \<Longrightarrow> bz_id (gb_zones g ! i) = i"
    "i < 4 \<Longrightarrow> bz_initialized (gb_zones g ! i) \<Longrightarrow> zone_inv (gb_zones g ! i, m)"
    "i < 4 \<Longrightarrow> j < 4 \<Longrightarrow> i \<noteq> j \<Longrightarrow> bz_initialized (gb_zones g ! i) \<Longrightarrow> bz_initialized (gb_zones g ! j) \<Longrightarrow>
      zone_range (gb_zones g ! i) \<inter> zone_range (gb_zones g ! j) = {}"
  using assms by (auto simp: global_inv_def)

lemma global_invI:
  assumes "length Z = 4" "\<And>i. i < 4 \<Longrightarrow> bz_id (Z ! i) = i"
    "\<And>i. i < 4 \<Longrightarrow> bz_initialized (Z ! i) \<Longrightarrow> zone_inv (Z ! i, m)"
    "\<And>i j. i < 4 \<Longrightarrow> j < 4 \<Longrightarrow> i \<noteq> j \<Longrightarrow> bz_initialized (Z ! i) \<Longrightarrow> bz_initialized (Z ! j) \<Longrightarrow>
      zone_range (Z ! i) \<inter> zone_range (Z ! j) = {}"
    "gb_zones g = Z"
  shows "global_inv (g, m)"
  using assms by (simp add: global_inv_def)

lemma avail_disjoint:
  assumes "global_inv (g, m)" "i < 4" "j < 4" "i \<noteq> j" "bz_initialized (gb_zones g ! i)" "bz_initialized (gb_zones g ! j)"
  shows "zone_avail (gb_zones g ! i) \<inter> zone_avail (gb_zones g ! j) = {}"
  using avail_in_range [OF global_invD(3) [OF assms(1,2,5)]] avail_in_range [OF global_invD(3) [OF assms(1,3,6)]]
    global_invD(4) [OF assms] by blast

text \<open>Replacing one zone by the result of an operation on it.\<close>

lemma zone_update_inv:
  assumes inv: "global_inv (g, m)" and i: "i < 4" and ini: "bz_initialized (gb_zones g ! i)"
    and same: "zone_same (gb_zones g ! i) z'" and fp: "footprint (gb_zones g ! i) m m'" and zi: "zone_inv (z', m')"
  shows "global_inv (g\<lparr>gb_zones := (gb_zones g)[i := z']\<rparr>, m')"
proof -
  let ?z = "gb_zones g ! i"
  note gi = global_invD [OF inv]
  have geom: "zone_geom ?z" using gi(3) [OF i ini] by (auto simp: zone_inv_def zone_rel_def)
  have sm: "bz_id z' = bz_id ?z" "bz_initialized z' = bz_initialized ?z" "zone_range z' = zone_range ?z"
    using same by (simp_all add: zone_same_def zone_range_def)
  have keep: "zone_inv (gb_zones g ! j, m')" if j: "j < 4" "j \<noteq> i" "bz_initialized (gb_zones g ! j)" for j
    using other_zone_kept [OF gi(3) [OF j(1,3)] fp geom] gi(2) [OF i] gi(2) [OF j(1)] gi(4) [OF j(1) i j(2,3) ini] j(2)
    by simp
  have nth: "(gb_zones g)[i := z'] ! j = (if j = i then z' else gb_zones g ! j)" if "j < 4" for j
    using that gi(1) i by (simp add: nth_list_update)
  show ?thesis
  proof (rule global_invI [where Z = "(gb_zones g)[i := z']"])
    show "length ((gb_zones g)[i := z']) = 4" using gi(1) by simp
  next
    fix j :: nat assume j: "j < 4"
    show "bz_id ((gb_zones g)[i := z'] ! j) = j" using nth [OF j] gi(2) [OF j] sm by auto
    assume "bz_initialized ((gb_zones g)[i := z'] ! j)"
    then show "zone_inv ((gb_zones g)[i := z'] ! j, m')" using nth [OF j] keep [OF j] zi by (auto split: if_splits)
  next
    fix j k :: nat
    assume j: "j < 4" and k: "k < 4" and jk: "j \<noteq> k" and "bz_initialized ((gb_zones g)[i := z'] ! j)"
      and "bz_initialized ((gb_zones g)[i := z'] ! k)"
    then have "bz_initialized (gb_zones g ! j)" "bz_initialized (gb_zones g ! k)"
      using nth [OF j] nth [OF k] sm ini by (auto split: if_splits)
    from gi(4) [OF j k jk this] show "zone_range ((gb_zones g)[i := z'] ! j) \<inter> zone_range ((gb_zones g)[i := z'] ! k) = {}"
      using nth [OF j] nth [OF k] sm by auto
  qed simp
qed

lemma zone_update_avail:
  assumes inv: "global_inv (g, m)" and i: "i < 4" and ini: "bz_initialized (gb_zones g ! i)"
    and same: "zone_same (gb_zones g ! i) z'"
  shows "\<exists>R. R \<inter> zone_avail (gb_zones g ! i) = {} \<and> global_avail (g, m) = R \<union> zone_avail (gb_zones g ! i) \<and>
    global_avail (g\<lparr>gb_zones := (gb_zones g)[i := z']\<rparr>, m') = R \<union> zone_avail z' \<and>
    (\<forall>x \<in> R. x * 4096 \<notin> zone_range (gb_zones g ! i))"
proof -
  note gi = global_invD [OF inv]
  define R where "R = (\<Union>j \<in> {j \<in> {..<4}. j \<noteq> i \<and> bz_initialized (gb_zones g ! j)}. zone_avail (gb_zones g ! j))"
  have ini': "bz_initialized z'" using same ini by (simp add: zone_same_def)
  have nth: "(gb_zones g)[i := z'] ! j = (if j = i then z' else gb_zones g ! j)" if "j < 4" for j
    using that gi(1) i by (simp add: nth_list_update)
  have "global_avail (g, m) = R \<union> zone_avail (gb_zones g ! i)"
    using i ini by (auto simp: global_avail_def R_def)
  moreover have "global_avail (g\<lparr>gb_zones := (gb_zones g)[i := z']\<rparr>, m') = R \<union> zone_avail z'"
  proof -
    have "{j \<in> {..<4}. bz_initialized ((gb_zones g)[i := z'] ! j)} =
        insert i {j \<in> {..<4}. j \<noteq> i \<and> bz_initialized (gb_zones g ! j)}"
      using nth i ini' by auto
    then have "global_avail (g\<lparr>gb_zones := (gb_zones g)[i := z']\<rparr>, m') = zone_avail ((gb_zones g)[i := z'] ! i) \<union>
        (\<Union>j \<in> {j \<in> {..<4}. j \<noteq> i \<and> bz_initialized (gb_zones g ! j)}. zone_avail ((gb_zones g)[i := z'] ! j))"
      by (simp add: global_avail_def)
    also have "(\<Union>j \<in> {j \<in> {..<4}. j \<noteq> i \<and> bz_initialized (gb_zones g ! j)}. zone_avail ((gb_zones g)[i := z'] ! j)) = R"
      unfolding R_def by (rule SUP_cong [OF refl]) (use nth in auto)
    finally show ?thesis using nth [OF i] by (simp add: Un_commute)
  qed
  moreover have out: "x * 4096 \<notin> zone_range (gb_zones g ! i)" if x: "x \<in> R" for x
  proof -
    obtain j where j: "j < 4" "j \<noteq> i" "bz_initialized (gb_zones g ! j)" "x \<in> zone_avail (gb_zones g ! j)" using x unfolding R_def by blast
    show ?thesis using avail_in_range [OF gi(3) [OF j(1,3)] j(4)] gi(4) [OF j(1) i j(2,3) ini] by blast
  qed
  moreover have "R \<inter> zone_avail (gb_zones g ! i) = {}"
    using out avail_in_range [OF gi(3) [OF i ini]] by blast
  ultimately show ?thesis by (intro exI [of _ R]) simp
qed

text \<open>An uninitialised zone refuses every request.\<close>

lemma uninit_zone:
  assumes inv: "global_inv (g, m)" and i: "i < 4" and ini: "\<not> bz_initialized (gb_zones g ! i)"
    and z': "bz_id z' = bz_id (gb_zones g ! i)" "\<not> bz_initialized z'"
  shows "global_inv (g\<lparr>gb_zones := (gb_zones g)[i := z']\<rparr>, m) \<and>
    global_avail (g\<lparr>gb_zones := (gb_zones g)[i := z']\<rparr>, m) = global_avail (g, m)"
proof -
  note gi = global_invD [OF inv]
  have nth: "(gb_zones g)[i := z'] ! j = (if j = i then z' else gb_zones g ! j)" if "j < 4" for j
    using that gi(1) i by (simp add: nth_list_update)
  have ini': "bz_initialized ((gb_zones g)[i := z'] ! j) \<longleftrightarrow> bz_initialized (gb_zones g ! j) \<and> j \<noteq> i" if "j < 4" for j
    using nth [OF that] z'(2) ini by auto
  have "global_inv (g\<lparr>gb_zones := (gb_zones g)[i := z']\<rparr>, m)"
  proof (rule global_invI [where Z = "(gb_zones g)[i := z']"])
    fix j :: nat assume j: "j < 4"
    show "bz_id ((gb_zones g)[i := z'] ! j) = j" using nth [OF j] gi(2) [OF j] z'(1) by auto
    assume "bz_initialized ((gb_zones g)[i := z'] ! j)"
    then show "zone_inv ((gb_zones g)[i := z'] ! j, m)" using ini' [OF j] nth [OF j] gi(3) [OF j] by simp
  next
    fix j k :: nat
    assume jk: "j < 4" "k < 4" "j \<noteq> k" and "bz_initialized ((gb_zones g)[i := z'] ! j)"
      and "bz_initialized ((gb_zones g)[i := z'] ! k)"
    then show "zone_range ((gb_zones g)[i := z'] ! j) \<inter> zone_range ((gb_zones g)[i := z'] ! k) = {}"
      using ini' [OF jk(1)] ini' [OF jk(2)] nth [OF jk(1)] nth [OF jk(2)] gi(4) [OF jk] by simp
  qed (use gi(1) in simp_all)
  moreover have "global_avail (g\<lparr>gb_zones := (gb_zones g)[i := z']\<rparr>, m) = global_avail (g, m)"
  proof -
    have "{j \<in> {..<4}. bz_initialized ((gb_zones g)[i := z'] ! j)} = {j \<in> {..<4}. bz_initialized (gb_zones g ! j)}"
      using ini' ini by auto
    then have "global_avail (g\<lparr>gb_zones := (gb_zones g)[i := z']\<rparr>, m) =
        (\<Union>j \<in> {j \<in> {..<4}. bz_initialized (gb_zones g ! j)}. zone_avail ((gb_zones g)[i := z'] ! j))"
      by (simp add: global_avail_def)
    also have "\<dots> = global_avail (g, m)"
      unfolding global_avail_def fst_conv by (rule SUP_cong [OF refl]) (use nth ini in auto)
    finally show ?thesis .
  qed
  ultimately show ?thesis by blast
qed

definition alloc_effect :: "buddy_state \<Rightarrow> nat \<Rightarrow> nat option \<Rightarrow> buddy_state \<Rightarrow> bool" where
  "alloc_effect s order r s' \<longleftrightarrow> global_inv s' \<and>
     (case r of None \<Rightarrow> global_avail s' = global_avail s
      | Some f \<Rightarrow> block f order \<subseteq> global_avail s \<and> global_avail s' = global_avail s - block f order)"

lemma alloc_effect_trans: "alloc_effect s k None s' \<Longrightarrow> alloc_effect s' k r s'' \<Longrightarrow> alloc_effect s k r s''"
  by (cases r) (simp_all add: alloc_effect_def)

lemma alloc_at_effect:
  assumes inv: "global_inv s" and i: "i < 4" and st: "alloc_at s i order flags = (r, s')"
  shows "alloc_effect s order (case r of Inl e \<Rightarrow> None | Inr f \<Rightarrow> Some f) s'"
proof -
  obtain g m where s: "s = (g, m)" by fastforce
  let ?z = "gb_zones g ! i"
  obtain z' m' where a: "BuddyZone_alloc_pages ?z m order flags = (r, z', m')" using st s by (auto simp: alloc_at_def split: prod.splits)
  have s': "s' = (g\<lparr>gb_zones := (gb_zones g)[i := z']\<rparr>, m')" using st s a by (simp add: alloc_at_def)
  have gi: "global_inv (g, m)" using inv s by simp
  show ?thesis
  proof (cases "bz_initialized ?z")
    case False
    then have "(\<exists>e. r = Inl e) \<and> m' = m \<and> (z' = ?z \<or> z' = bump_fail ?z)"
      using a by (auto simp: BuddyZone_alloc_pages_def split: if_splits)
    then show ?thesis
      using uninit_zone [OF gi i False, of z'] False s s' by (auto simp: alloc_effect_def)
  next
    case True
    obtain L where rel: "zone_rel ?z m L" using global_invD(3) [OF gi i True] by (auto simp: zone_inv_def)
    obtain L' where za: "zone_same ?z z'" "footprint ?z m m'" "zone_rel z' m' L'"
      and res: "case r of Inl e \<Rightarrow> z' = bump_fail ?z \<and> L' = L
        | Inr f \<Rightarrow> \<exists>p. f = base_frame ?z + p \<and> abs_alloc L order = Some (p, L')"
      using zone_alloc_cases [OF rel a] by blast
    have "zone_inv (z', m')" using za(3) by (auto simp: zone_inv_def)
    then have gi': "global_inv s'" unfolding s' by (rule zone_update_inv [OF gi i True za(1,2)])
    obtain R where R: "R \<inter> zone_avail ?z = {}" "global_avail s = R \<union> zone_avail ?z" "global_avail s' = R \<union> zone_avail z'"
      using zone_update_avail [OF gi i True za(1)] s s' by metis
    show ?thesis
    proof (cases r)
      case (Inl e)
      then show ?thesis using gi' R res by (simp add: alloc_effect_def)
    next
      case (Inr f)
      then obtain p where "f = base_frame ?z + p" "abs_alloc L order = Some (p, L')" using res by auto
      then have "block f order \<subseteq> zone_avail ?z \<and> zone_avail z' = zone_avail ?z - block f order"
        using zone_alloc_ok [OF rel _ za(3,1)] by blast
      then show ?thesis using gi' R Inr by (simp add: alloc_effect_def) blast
    qed
  qed
qed

lemma try_zones_effect:
  assumes "global_inv s" "\<forall>i \<in> set idxs. i < 4" "try_zones s idxs order flags = (r, s')"
  shows "alloc_effect s order r s'"
  using assms
proof (induction s idxs order flags rule: try_zones.induct)
  case (1 s order flags)
  then show ?case by (auto simp: alloc_effect_def)
next
  case (2 s i idxs order flags)
  obtain r1 s1 where a: "alloc_at s i order flags = (r1, s1)" by (metis surj_pair)
  have e: "alloc_effect s order (case r1 of Inl e \<Rightarrow> None | Inr f \<Rightarrow> Some f) s1"
    using alloc_at_effect [OF "2.prems"(1) _ a] "2.prems"(2) by simp
  show ?case
  proof (cases r1)
    case (Inl x)
    then have "alloc_effect s order None s1" using e by simp
    moreover from this have "global_inv s1" by (simp add: alloc_effect_def)
    then have "alloc_effect s1 order r s'"
      using "2.IH" [OF a [symmetric] refl Inl] "2.prems"(2,3) a Inl by simp
    ultimately show ?thesis by (rule alloc_effect_trans)
  next
    case (Inr f)
    then show ?thesis using e "2.prems"(3) a by simp
  qed
qed

lemma zone_index_less: "zone_index_for flags < 4"
  by (auto simp: zone_index_for_def split: ZoneType.splits)

lemma Global_alloc_effect:
  assumes inv: "global_inv s" and st: "Global_alloc_pages s order flags = (r, s')"
  shows "alloc_effect s order (case r of Inl e \<Rightarrow> None | Inr f \<Rightarrow> Some f) s'"
proof -
  let ?i = "zone_index_for flags"
  obtain r1 s1 where a: "alloc_at s ?i order flags = (r1, s1)" by (metis surj_pair)
  note e1 = alloc_at_effect [OF inv zone_index_less a]
  show ?thesis
  proof (cases r1)
    case (Inr f)
    then show ?thesis using e1 st a by (auto simp: Global_alloc_pages_def)
  next
    case (Inl e)
    then have n1: "alloc_effect s order None s1" and i1: "global_inv s1" using e1 by (simp_all add: alloc_effect_def)
    obtain up s2 where u: "(if \<not> AllocFlags_contains flags AllocFlags_DMA
        then try_zones s1 [?i + 1..<4] order flags else (None, s1)) = (up, s2)" by (metis surj_pair)
    have e2: "alloc_effect s1 order up s2"
      using try_zones_effect [OF i1, of "[?i + 1..<4]"] u i1 by (auto simp: alloc_effect_def split: if_splits)
    show ?thesis
    proof (cases up)
      case (Some f)
      then have "r = Inr f" "s' = s2" using st a Inl u by (simp_all add: Global_alloc_pages_def)
      then show ?thesis using alloc_effect_trans [OF n1] e2 Some by simp
    next
      case None
      then have n2: "alloc_effect s order None s2" using alloc_effect_trans [OF n1, of None s2] e2 by simp
      then have i2: "global_inv s2" by (simp add: alloc_effect_def)
      obtain down s3 where d: "(if ?i > 1 then try_zones s2 (rev [1..<?i]) order flags else (None, s2)) = (down, s3)" by (metis surj_pair)
      have "alloc_effect s2 order down s3"
        using try_zones_effect [OF i2, of "rev [1..<?i]"] d i2 zone_index_less [of flags]
        by (auto simp: alloc_effect_def split: if_splits)
      then have e3: "alloc_effect s order down s3" by (rule alloc_effect_trans [OF n2])
      have "(r, s') = (case down of Some f \<Rightarrow> Ok f | None \<Rightarrow> Inl e, s3)"
        using st a Inl u None d by (simp add: Global_alloc_pages_def split: option.splits)
      then show ?thesis using e3 by (auto split: option.splits)
    qed
  qed
qed

lemma Global_free_effect:
  assumes inv: "global_inv s" and st: "Global_free_pages s frame order = (r, s')"
  shows "global_inv s' \<and> (case r of Inl e \<Rightarrow> global_avail s' = global_avail s
    | Inr u \<Rightarrow> block frame order \<inter> global_avail s = {} \<and> global_avail s' = global_avail s \<union> block frame order)"
proof -
  obtain g m where s: "s = (g, m)" by fastforce
  have gi: "global_inv (g, m)" using inv s by simp
  show ?thesis
  proof (cases "find (\<lambda>i. zone_covers (gb_zones g ! i) (frame * 4096)) [0..<length (gb_zones g)]")
    case None
    then show ?thesis using st inv s by (auto simp: Global_free_pages_def)
  next
    case (Some i)
    let ?z = "gb_zones g ! i"
    have i: "i < 4" and cov: "zone_covers ?z (frame * 4096)"
      using Some global_invD(1) [OF gi] by (auto simp: find_upt_Some_iff)
    then have ini: "bz_initialized ?z" by (simp add: zone_covers_def)
    obtain z' m' where f: "BuddyZone_free_pages ?z m frame order = (r, z', m')"
      and s': "s' = (g\<lparr>gb_zones := (gb_zones g)[i := z']\<rparr>, m')"
      using st s Some by (auto simp: Global_free_pages_def split: prod.splits)
    obtain L where rel: "zone_rel ?z m L" using global_invD(3) [OF gi i ini] by (auto simp: zone_inv_def)
    have same: "zone_same ?z z'" and fp: "footprint ?z m m'" and zi: "zone_inv (z', m')"
      using zone_free_cases [OF rel f] rel by (auto simp: zone_inv_def)
    have gi': "global_inv s'" unfolding s' by (rule zone_update_inv [OF gi i ini same fp zi])
    obtain R where R: "R \<inter> zone_avail ?z = {}" "global_avail s = R \<union> zone_avail ?z" "global_avail s' = R \<union> zone_avail z'"
      "\<forall>x \<in> R. x * 4096 \<notin> zone_range ?z"
      using zone_update_avail [OF gi i ini same] s s' by metis
    from zone_free_cases [OF rel f] show ?thesis
    proof
      assume "\<exists>p. frame = base_frame ?z + p \<and> freeable ?z m L p order \<and> r = Ok () \<and> zone_same ?z z' \<and>
        zone_rel z' m' (abs_free L p order) \<and> footprint ?z m m'"
      then obtain p where p: "frame = base_frame ?z + p" "freeable ?z m L p order" "r = Ok ()"
        "zone_rel z' m' (abs_free L p order)" by blast
      note zf = zone_free_ok [OF rel p(2,4) same, folded p(1)]
      have "block frame order \<inter> R = {}"
      proof -
        have "x * 4096 \<in> zone_range ?z" if "x \<in> block frame order" for x
          using avail_in_range [OF zi] zf that same by (auto simp: zone_range_def zone_same_def)
        then show ?thesis using R(4) by blast
      qed
      then show ?thesis using gi' R zf p(3) by auto
    next
      assume "(\<forall>p. frame = base_frame ?z + p \<longrightarrow> \<not> freeable ?z m L p order) \<and> r = Err InvalidParams \<and>
        z' = bump_fail ?z \<and> m' = m"
      then show ?thesis using gi' R by simp
    qed
  qed
qed

interpretation gb: frame_source Global_alloc_pages Global_free_pages global_inv global_avail
proof
  fix s k fl f s'
  assume "global_inv s" "Global_alloc_pages s k fl = (Inr f, s')"
  from Global_alloc_effect [OF this] show "global_inv s' \<and> block f k \<subseteq> global_avail s \<and> global_avail s' = global_avail s - block f k"
    by (simp add: alloc_effect_def)
next
  fix s k fl e s'
  assume "global_inv s" "Global_alloc_pages s k fl = (Inl e, s')"
  from Global_alloc_effect [OF this] show "global_inv s' \<and> global_avail s' = global_avail s" by (simp add: alloc_effect_def)
next
  fix s f k u s'
  assume "global_inv s" "Global_free_pages s f k = (Inr u, s')"
  from Global_free_effect [OF this] show "global_inv s' \<and> block f k \<inter> global_avail s = {} \<and> global_avail s' = global_avail s \<union> block f k"
    by simp
next
  fix s f k e s'
  assume "global_inv s" "Global_free_pages s f k = (Inl e, s')"
  from Global_free_effect [OF this] show "global_inv s' \<and> global_avail s' = global_avail s" by simp
qed

section \<open>Population at boot\<close>

definition region_frames :: "BuddyZone \<Rightarrow> nat \<Rightarrow> nat \<Rightarrow> nat set" where
  "region_frames z rs re =
    (if bz_initialized z then {max rs (bz_phys_start z) div 4096 ..< min re (bz_phys_end z) div 4096} else {})"

definition zones_same :: "GlobalBuddyAllocator \<Rightarrow> GlobalBuddyAllocator \<Rightarrow> bool" where
  "zones_same g g' \<longleftrightarrow> (\<forall>j<4. zone_same (gb_zones g ! j) (gb_zones g' ! j))"

lemma region_frames_same: "zone_same z z' \<Longrightarrow> region_frames z' rs re = region_frames z rs re"
  by (simp add: region_frames_def zone_same_def)

lemma add_region_zone:
  assumes rel: "zone_rel z m L" and ov: "\<not> (rs \<ge> bz_phys_end z \<or> re \<le> bz_phys_start z)"
    and st: "add_free_range z m ((max rs (bz_phys_start z) - bz_phys_start z) div 4096)
      ((min re (bz_phys_end z) - bz_phys_start z) div 4096) = (z', m')"
  shows "zone_same z z' \<and> footprint z m m' \<and> zone_inv (z', m') \<and> zone_avail z' = zone_avail z \<union> region_frames z rs re"
proof -
  let ?a = "(max rs (bz_phys_start z) - bz_phys_start z) div 4096"
  let ?b = "(min re (bz_phys_end z) - bz_phys_start z) div 4096"
  note g = zone_relD(1) [OF rel]
  have "?b \<le> bz_total_frames z" using g by (auto simp: zone_geom_def intro: div_le_mono)
  from add_free_range_rel [OF rel this, of ?a] obtain L' where
    r: "zone_same z z'" "zone_rel z' m' L'" "covered L' = covered L \<union> {?a ..< ?b}" "footprint z m m'"
    using st by auto
  obtain t where t: "bz_phys_start z = 4096 * t" using g by (auto simp: zone_geom_def)
  have "x \<ge> bz_phys_start z \<Longrightarrow> base_frame z + (x - bz_phys_start z) div 4096 = x div 4096" for x
    using t by (auto simp: base_frame_def le_iff_add)
  then have "base_frame z + ?a = max rs (bz_phys_start z) div 4096" "base_frame z + ?b = min re (bz_phys_end z) div 4096"
    using ov g by (auto simp: zone_geom_def)
  then have "(+) (base_frame z) ` {?a ..< ?b} = region_frames z rs re"
    using g by (simp add: region_frames_def zone_geom_def add.commute)
  moreover have "base_frame z' = base_frame z" using zone_sameD(2) [OF r(1)] by (simp add: base_frame_def)
  ultimately have "zone_avail z' = zone_avail z \<union> region_frames z rs re"
    unfolding zone_avail_rel [OF r(2)] zone_avail_rel [OF rel] r(3) image_Un by simp
  then show ?thesis using r by (auto simp: zone_inv_def)
qed

lemma add_region_to_effect:
  assumes inv: "global_inv (g, m)" and i: "i < 4" and st: "add_region_to rs re (g, m) i = (g', m')"
  shows "global_inv (g', m') \<and> zones_same g g' \<and>
    global_avail (g', m') = global_avail (g, m) \<union> region_frames (gb_zones g ! i) rs re"
proof (cases "\<not> bz_initialized (gb_zones g ! i) \<or> rs \<ge> bz_phys_end (gb_zones g ! i) \<or> re \<le> bz_phys_start (gb_zones g ! i) \<or>
    max rs (bz_phys_start (gb_zones g ! i)) \<ge> min re (bz_phys_end (gb_zones g ! i))")
  case True
  then have "region_frames (gb_zones g ! i) rs re = {}"
    using div_le_mono [of "min re (bz_phys_end (gb_zones g ! i))" "max rs (bz_phys_start (gb_zones g ! i))" 4096]
    by (auto simp: region_frames_def)
  moreover have "g' = g" "m' = m" using st True by (auto simp: add_region_to_def Let_def split: if_splits)
  ultimately show ?thesis using inv by (simp add: zones_same_def)
next
  case False
  let ?z = "gb_zones g ! i"
  have ini: "bz_initialized ?z" and ov: "\<not> (rs \<ge> bz_phys_end ?z \<or> re \<le> bz_phys_start ?z)" using False by auto
  obtain z' where a: "add_free_range ?z m ((max rs (bz_phys_start ?z) - bz_phys_start ?z) div 4096)
      ((min re (bz_phys_end ?z) - bz_phys_start ?z) div 4096) = (z', m')" and g': "g' = g\<lparr>gb_zones := (gb_zones g)[i := z']\<rparr>"
    using st False unfolding add_region_to_def Let_def PAGE_SIZE_def by (auto split: prod.splits)
  obtain L where rel: "zone_rel ?z m L" using global_invD(3) [OF inv i ini] by (auto simp: zone_inv_def)
  have z: "zone_same ?z z'" "footprint ?z m m'" "zone_inv (z', m')" "zone_avail z' = zone_avail ?z \<union> region_frames ?z rs re"
    using add_region_zone [OF rel ov a] by simp_all
  have "global_inv (g', m')" unfolding g' by (rule zone_update_inv [OF inv i ini z(1-3)])
  moreover have "zones_same g g'" using z(1) global_invD(1) [OF inv] i by (simp add: zones_same_def g' nth_list_update)
  moreover obtain R where "global_avail (g, m) = R \<union> zone_avail ?z" "global_avail (g', m') = R \<union> zone_avail z'"
    using zone_update_avail [OF inv i ini z(1)] g' by metis
  ultimately show ?thesis using z(4) by auto
qed

lemma zones_same_trans: "zones_same a b \<Longrightarrow> zones_same b c \<Longrightarrow> zones_same a c"
  unfolding zones_same_def using zone_same_trans by blast

lemma add_region_fold:
  assumes "global_inv s" "\<forall>i \<in> set idxs. i < 4" "foldl (add_region_to rs re) s idxs = s'"
  shows "global_inv s' \<and> zones_same (fst s) (fst s') \<and>
    global_avail s' = global_avail s \<union> (\<Union>i \<in> set idxs. region_frames (gb_zones (fst s) ! i) rs re)"
  using assms
proof (induction idxs arbitrary: s)
  case Nil
  then show ?case by (simp add: zones_same_def)
next
  case (Cons i idxs)
  obtain g m where s: "s = (g, m)" by fastforce
  obtain g1 m1 where s1: "add_region_to rs re (g, m) i = (g1, m1)" by fastforce
  have e: "global_inv (g1, m1)" "zones_same g g1"
    "global_avail (g1, m1) = global_avail (g, m) \<union> region_frames (gb_zones g ! i) rs re"
    using add_region_to_effect [OF _ _ s1] Cons.prems(1,2) s by simp_all
  note ih = Cons.IH [OF e(1)]
  have ih: "global_inv s' \<and> zones_same g1 (fst s') \<and>
    global_avail s' = global_avail (g1, m1) \<union> (\<Union>i \<in> set idxs. region_frames (gb_zones g1 ! i) rs re)"
    using ih Cons.prems(2,3) s s1 by simp
  have "region_frames (gb_zones g1 ! j) rs re = region_frames (gb_zones g ! j) rs re" if "j \<in> set idxs" for j
    using e(2) that Cons.prems(2) region_frames_same by (simp add: zones_same_def)
  then have "global_avail s' = global_avail (g, m) \<union> (\<Union>j \<in> set (i # idxs). region_frames (gb_zones g ! j) rs re)"
    using ih e(3) by auto
  then show ?case using ih zones_same_trans [OF e(2)] s by simp
qed

section \<open>Sample allocators\<close>

text \<open>An allocator with a single initialised zone.\<close>

definition sample_global :: "nat \<Rightarrow> nat \<Rightarrow> buddy_state" where
  "sample_global i s = (case sample_zone_at i s of (z, m) \<Rightarrow>
     (GlobalBuddyAllocator_new\<lparr>gb_zones := (gb_zones GlobalBuddyAllocator_new)[i := z]\<rparr>, m))"

lemma sample_global_zones:
  assumes "i < 4" "4096 dvd s" "s + 524288 \<le> 2097152 * 4096"
  obtains z g m where "sample_global i s = (g, m)" "gb_zones g ! i = z" "zone_rel z m sample_lists"
    "bz_phys_start z = s" "bz_numa_node z = 0" "global_inv (g, m)"
    "\<And>j. j < 4 \<Longrightarrow> j \<noteq> i \<Longrightarrow> gb_zones g ! j = BuddyZone_new_uninit j"
proof -
  obtain z m where z: "sample_zone_at i s = (z, m)" "zone_rel z m sample_lists" "bz_phys_start z = s"
    "bz_numa_node z = 0" "bz_id z = i" using sample_zone_at_rel [OF assms(2,3), of i] by metis
  define Z where "Z = (map BuddyZone_new_uninit [0..<4])[i := z]"
  have nth: "Z ! j = (if j = i then z else BuddyZone_new_uninit j)" if "j < 4" for j
    using that assms(1) unfolding Z_def by (simp add: nth_list_update)
  let ?g = "GlobalBuddyAllocator_new\<lparr>gb_zones := Z\<rparr>"
  have un: "bz_id (BuddyZone_new_uninit j) = j" "\<not> bz_initialized (BuddyZone_new_uninit j)" for j
    by (simp_all add: BuddyZone_new_uninit_def)
  have gi: "global_inv (?g, m)"
  proof (rule global_invI [where Z = Z])
    fix j :: nat assume j: "j < 4"
    show "bz_id (Z ! j) = j" using nth [OF j] z(5) un(1) by simp
    assume "bz_initialized (Z ! j)"
    then show "zone_inv (Z ! j, m)" using nth [OF j] un(2) z(2) by (auto simp: zone_inv_def split: if_splits)
  next
    fix j k :: nat assume "j < 4" "k < 4" "j \<noteq> k" "bz_initialized (Z ! j)" "bz_initialized (Z ! k)"
    then show "zone_range (Z ! j) \<inter> zone_range (Z ! k) = {}" using nth un(2) by (auto split: if_splits)
  qed (simp_all add: Z_def)
  have "sample_global i s = (?g, m)" by (simp add: sample_global_def z(1) GlobalBuddyAllocator_new_def Z_def)
  then show thesis using that [of ?g m z] z gi nth assms(1) by simp
qed

lemma sample_global_inv:
  "i < 4 \<Longrightarrow> 4096 dvd s \<Longrightarrow> s + 524288 \<le> 2097152 * 4096 \<Longrightarrow> global_inv (sample_global i s)"
  by (metis sample_global_zones)

lemma sample_alloc_at:
  assumes "i < 4" "4096 dvd s" "s + 524288 \<le> 2097152 * 4096"
  shows "\<exists>s'. alloc_at (sample_global i s) i 3 flags = (Ok (s div 4096 + 32), s')"
proof -
  obtain z g m where z: "sample_global i s = (g, m)" "gb_zones g ! i = z" "zone_rel z m sample_lists" "bz_phys_start z = s"
    by (rule sample_global_zones [OF assms])
  obtain z' m' where "BuddyZone_alloc_pages z m 3 flags = (Ok (s div 4096 + 32), z', m')"
    using alloc_pages_rel [OF z(3), of 3 flags] z(4) assms(2) by (auto simp: sample_alloc)
  then show ?thesis using z by (simp add: alloc_at_def)
qed

lemma sample_uninit_at:
  assumes "i < 4" "4096 dvd s" "s + 524288 \<le> 2097152 * 4096" "j < 4" "j \<noteq> i"
  shows "alloc_at (sample_global i s) j 3 flags = (Err NotInitialized, sample_global i s)"
proof -
  obtain z g m where z: "sample_global i s = (g, m)" "gb_zones g ! i = z" "zone_rel z m sample_lists" "bz_phys_start z = s"
    "bz_numa_node z = 0" "global_inv (g, m)" "\<And>j. j < 4 \<Longrightarrow> j \<noteq> i \<Longrightarrow> gb_zones g ! j = BuddyZone_new_uninit j"
    by (rule sample_global_zones [OF assms(1-3)]) blast
  have "BuddyZone_alloc_pages (gb_zones g ! j) m 3 flags = (Err NotInitialized, gb_zones g ! j, m)"
    using z(7) [OF assms(4,5)] by (simp add: BuddyZone_alloc_pages_def BuddyZone_new_uninit_def)
  moreover have "g\<lparr>gb_zones := (gb_zones g)[j := gb_zones g ! j]\<rparr> = g" by simp
  ultimately show ?thesis using z(1) by (simp add: alloc_at_def)
qed

lemma try_node_effect:
  assumes "global_inv s" "\<forall>i \<in> set idxs. i < 4" "try_node s idxs order flags numa = (r, s')"
  shows "alloc_effect s order r s'"
  using assms
proof (induction s idxs order flags numa rule: try_node.induct)
  case (1 s order flags numa)
  then show ?case by (auto simp: alloc_effect_def)
next
  case (2 s i idxs order flags numa)
  show ?case
  proof (cases "\<not> bz_initialized (gb_zones (fst s) ! i) \<or> bz_numa_node (gb_zones (fst s) ! i) \<noteq> numa")
    case True
    then show ?thesis using "2.IH"(1) [OF refl True "2.prems"(1)] "2.prems"(2,3) by simp
  next
    case False
    obtain r1 s1 where a: "alloc_at s i order flags = (r1, s1)" by (metis surj_pair)
    have e: "alloc_effect s order (case r1 of Inl e \<Rightarrow> None | Inr f \<Rightarrow> Some f) s1"
      using alloc_at_effect [OF "2.prems"(1) _ a] "2.prems"(2) by simp
    show ?thesis
    proof (cases r1)
      case (Inl x)
      then have n: "alloc_effect s order None s1" and "global_inv s1" using e by (simp_all add: alloc_effect_def)
      then have "alloc_effect s1 order r s'"
        using "2.IH"(2) [OF refl False a [symmetric] refl Inl] "2.prems"(2,3) a Inl False by simp
      then show ?thesis by (rule alloc_effect_trans [OF n])
    next
      case (Inr f)
      then show ?thesis using e "2.prems"(3) a False by simp
    qed
  qed
qed

section \<open>Properties\<close>

text \<open>
  C37: Physical frames are never shared.  Whatever sequence of allocation and release requests
  with whatever orders and flags reaches the global allocator, as long as clients release only
  runs they hold, the runs held are disjoint from each other and from the frames still free, no
  frame is lost, and none is invented.
\<close>

theorem frames_never_shared:
  assumes "global_inv s" "page_run Global_alloc_pages Global_free_pages (s, []) ops = (s', own)"
  shows "global_inv s' \<and> apart (global_avail s') own \<and> global_avail s' \<union> held own = global_avail s"
  using gb.run_safe [OF assms(1) _ assms(2)] by simp

theorem frames_never_shared_witness:
  "case page_run Global_alloc_pages Global_free_pages (sample_global 2 5368709120, [])
      [AllocOp 3 0, AllocOp 4 0, FreeOp 1310752 3, AllocOp 0 0] of
    (s', own) \<Rightarrow> apart (global_avail s') own"
  using frames_never_shared [OF sample_global_inv [of 2 5368709120]] by (auto split: prod.splits)



text \<open>
  The zone limits of other requests are not enforced.  With only a zone above 4 GiB
  initialised, a \<open>DMA32\<close> request is answered with a frame at 5 GiB and more, because the
  fallback loop moves to higher zones; and the node-local allocator answers even a \<open>DMA\<close>
  request from that zone.
\<close>

theorem zone_limits_not_enforced:
  "fst (Global_alloc_pages (sample_global 2 5368709120) 3 AllocFlags_DMA32) = Ok 1310752 \<and>
   fst (Global_alloc_on_node (sample_global 2 5368709120) 3 AllocFlags_DMA 0) = Ok 1310752"
proof
  let ?s = "sample_global 2 5368709120"
  have dma: "\<not> AllocFlags_contains AllocFlags_DMA32 AllocFlags_DMA" "AllocFlags_contains AllocFlags_DMA32 AllocFlags_DMA32"
    by (simp_all add: AllocFlags_contains_def AllocFlags_DMA_def AllocFlags_DMA32_def)
  then have i1: "zone_index_for AllocFlags_DMA32 = 1" by (simp add: zone_index_for_def required_zone_def)
  have un: "alloc_at ?s j 3 flags = (Err NotInitialized, ?s)" if "j < 4" "j \<noteq> 2" for j flags
    using sample_uninit_at [of 2 5368709120 j flags] that by simp
  have ok: "\<exists>s'. alloc_at ?s 2 3 flags = (Ok 1310752, s')" for flags
    using sample_alloc_at [of 2 5368709120 flags] by auto
  obtain s2 where s2: "alloc_at ?s 2 3 AllocFlags_DMA32 = (Ok 1310752, s2)" using ok by blast
  have "[Suc (Suc 0)..<4] = [2, 3]" by (simp add: upt_rec)
  then have "try_zones ?s [Suc (Suc 0)..<4] 3 AllocFlags_DMA32 = (Some 1310752, s2)" using s2 by simp
  then show "fst (Global_alloc_pages ?s 3 AllocFlags_DMA32) = Ok 1310752"
    using un [of 1 AllocFlags_DMA32] dma i1 by (simp add: Global_alloc_pages_def)
  obtain z g m where z: "?s = (g, m)" "gb_zones g ! 2 = z" "zone_rel z m sample_lists" "bz_phys_start z = 5368709120"
    "bz_numa_node z = 0" "global_inv (g, m)" "\<And>j. j < 4 \<Longrightarrow> j \<noteq> 2 \<Longrightarrow> gb_zones g ! j = BuddyZone_new_uninit j"
    by (rule sample_global_zones [of 2 5368709120]) (simp, simp, simp, blast)
  have "\<not> bz_initialized (gb_zones g ! 0)" "\<not> bz_initialized (gb_zones g ! 1)"
    using z(7) [of 0] z(7) [of 1] by (simp_all add: BuddyZone_new_uninit_def)
  moreover have "bz_initialized (gb_zones g ! 2)" using zone_relD(1) [OF z(3)] z(2) by (simp add: zone_geom_def)
  moreover have "bz_numa_node (gb_zones g ! 2) = 0" using z(2,5) by simp
  moreover have "length (gb_zones g) = 4" using global_invD(1) [OF z(6)] .
  moreover have "[0::nat..<4] = [0, 1, 2, 3]" by (simp add: upt_rec)
  ultimately show "fst (Global_alloc_on_node ?s 3 AllocFlags_DMA 0) = Ok 1310752"
    using ok [of AllocFlags_DMA] z(1) by (auto simp: Global_alloc_on_node_def)
qed

text \<open>
  Population adds exactly the frames of the region.  Reporting a usable region makes
  available, zone by zone, the frames from the one containing the first byte of the region (an
  unaligned start is rounded down) up to the last one that ends within it, whatever parts of it
  were available before, and keeps the allocator consistent.
\<close>

theorem region_population:
  assumes "global_inv s"
  shows "global_inv (add_free_zone_region s rs re) \<and>
    global_avail (add_free_zone_region s rs re) = global_avail s \<union>
      {f. \<exists>i<4. bz_initialized (gb_zones (fst s) ! i) \<and>
        max rs (bz_phys_start (gb_zones (fst s) ! i)) div 4096 \<le> f \<and> f < min re (bz_phys_end (gb_zones (fst s) ! i)) div 4096}"
proof -
  have len: "length (gb_zones (fst s)) = 4" using assms by (simp add: global_inv_def)
  have "(\<Union>i \<in> set [0..<4]. region_frames (gb_zones (fst s) ! i) rs re) =
      {f. \<exists>i<4. bz_initialized (gb_zones (fst s) ! i) \<and>
        max rs (bz_phys_start (gb_zones (fst s) ! i)) div 4096 \<le> f \<and> f < min re (bz_phys_end (gb_zones (fst s) ! i)) div 4096}"
    by (auto simp: region_frames_def split: if_splits)
  then show ?thesis
    using add_region_fold [OF assms, of "[0..<4]" rs re] len by (simp add: add_free_zone_region_def)
qed

theorem region_population_witness:
  "global_inv (add_free_zone_region (sample_global 2 5368709120) 5368713217 5368800000)"
  using region_population [OF sample_global_inv [of 2 5368709120]] by simp

end
