(* ===== verification/Sched_Task.thy ===== *)
theory Sched_Task
  imports Exo_Prelude
begin

text \<open>
  Thread control blocks as the scheduler sees them (\<open>kernel/src/scheduler/core/task.rs\<close> and the
  CPU masks of \<open>kernel/src/scheduler/smp/affinity.rs\<close>): priorities and weights, policies, the
  state and flag bits packed into \<open>sched_state\<close>, CPU affinity, virtual run time.  Fields used
  only by the context switch (stacks, page tables, FPU) are not represented.
\<close>

section \<open>Definitions\<close>

type_synonym Priority = u8
type_synonym CpuId = u32

definition Priority_from_nice :: "int \<Rightarrow> Priority" where
  "Priority_from_nice nice = of_int (120 + max (- 20) (min 19 nice))"

definition Priority_is_realtime :: "Priority \<Rightarrow> bool" where
  "Priority_is_realtime p = (p \<le> 99)"

definition prio_to_weight :: "nat list" where
  "prio_to_weight =
    [88761, 71755, 56483, 46273, 36291, 29154, 23254, 18705, 14949, 11916, 9548, 7620, 6100,
     4904, 3906, 3121, 2501, 1991, 1586, 1277, 1024, 820, 655, 526, 423, 335, 272, 215, 172,
     137, 110, 87, 70, 56, 45, 36, 29, 23, 18, 15]"

definition cfs_weight :: "Priority \<Rightarrow> u32" where
  "cfs_weight p =
    (if p < 100 then 1024
     else of_nat (prio_to_weight ! nat (max 0 (min 39 (int (unat p) - 120 + 20)))))"

datatype SchedPolicy = NormalPolicy | Batch | Fifo | RoundRobin | Deadline | IdlePolicy

datatype TaskState = Runnable | Running | Sleeping | Uninterruptible | Stopped | Zombie | Dead

definition TaskState_as_u8 :: "TaskState \<Rightarrow> u64" where
  "TaskState_as_u8 s = (case s of Runnable \<Rightarrow> 0 | Running \<Rightarrow> 1 | Sleeping \<Rightarrow> 2 | Uninterruptible \<Rightarrow> 3
     | Stopped \<Rightarrow> 4 | Zombie \<Rightarrow> 5 | Dead \<Rightarrow> 6)"

definition TaskState_from_u8 :: "u64 \<Rightarrow> TaskState" where
  "TaskState_from_u8 v = (if v = 0 then Runnable else if v = 1 then Running else if v = 2 then Sleeping
     else if v = 3 then Uninterruptible else if v = 4 then Stopped else if v = 5 then Zombie else Dead)"

definition SCHED_STATE_MASK :: u64 where "SCHED_STATE_MASK = 0xFF"
definition SCHED_SIGNAL_BIT :: u64 where "SCHED_SIGNAL_BIT = push_bit 8 1"
definition SCHED_KTHREAD_BIT :: u64 where "SCHED_KTHREAD_BIT = push_bit 9 1"
definition SCHED_FPU_LOADED_BIT :: u64 where "SCHED_FPU_LOADED_BIT = push_bit 10 1"
definition SCHED_NEED_RESCHED_BIT :: u64 where "SCHED_NEED_RESCHED_BIT = push_bit 11 1"
definition SCHED_EXITING_BIT :: u64 where "SCHED_EXITING_BIT = push_bit 12 1"
definition SCHED_IDLE_BIT :: u64 where "SCHED_IDLE_BIT = push_bit 13 1"
definition SCHED_QUEUED_BIT :: u64 where "SCHED_QUEUED_BIT = push_bit 15 1"

definition MAX_CPUS :: nat where [simp]: "MAX_CPUS = 256"

text \<open>The four mask words of \<open>CpuSet\<close>.\<close>

type_synonym CpuSet = "nat \<Rightarrow> u64"

definition CpuSet_empty :: CpuSet where
  "CpuSet_empty = (\<lambda>w. 0)"

definition CpuSet_set :: "CpuSet \<Rightarrow> CpuId \<Rightarrow> CpuSet" where
  "CpuSet_set m cpu =
    (let cpu = unat cpu in
     if cpu < MAX_CPUS then m(cpu div 64 := m (cpu div 64) OR push_bit (cpu mod 64) 1) else m)"

definition CpuSet_clear :: "CpuSet \<Rightarrow> CpuId \<Rightarrow> CpuSet" where
  "CpuSet_clear m cpu =
    (let cpu = unat cpu in
     if cpu < MAX_CPUS then m(cpu div 64 := m (cpu div 64) AND NOT (push_bit (cpu mod 64) 1)) else m)"

definition CpuSet_contains :: "CpuSet \<Rightarrow> CpuId \<Rightarrow> bool" where
  "CpuSet_contains m cpu =
    (let cpu = unat cpu in
     if cpu < MAX_CPUS then m (cpu div 64) AND push_bit (cpu mod 64) 1 \<noteq> 0 else False)"

definition CpuSet_single :: "CpuId \<Rightarrow> CpuSet" where
  "CpuSet_single cpu = CpuSet_set CpuSet_empty cpu"

record ThreadControlBlock =
  tcb_tid :: u64
  tcb_pid :: u32
  tcb_priority :: Priority
  tcb_policy :: SchedPolicy
  tcb_sched_state :: u64
  tcb_vruntime :: u64
  tcb_deadline_abs :: u64
  tcb_cpu_affinity :: CpuSet
  tcb_cpu_id :: u64
  tcb_signal_mask :: u64
  tcb_dl_runtime :: u64
  tcb_dl_period :: u64

definition TCB_new :: "u64 \<Rightarrow> u32 \<Rightarrow> SchedPolicy \<Rightarrow> Priority \<Rightarrow> ThreadControlBlock" where
  "TCB_new tid pid policy prio =
    \<lparr>tcb_tid = tid, tcb_pid = pid, tcb_priority = prio, tcb_policy = policy,
     tcb_sched_state = TaskState_as_u8 Runnable, tcb_vruntime = 0, tcb_deadline_abs = 0,
     tcb_cpu_affinity = (\<lambda>w. NOT 0), tcb_cpu_id = 0, tcb_signal_mask = 0, tcb_dl_runtime = 0, tcb_dl_period = 0\<rparr>"

definition TCB_new_kthread :: "u64 \<Rightarrow> ThreadControlBlock" where
  "TCB_new_kthread tid =
    (let t = TCB_new tid 0 NormalPolicy 120
     in t\<lparr>tcb_sched_state := tcb_sched_state t OR SCHED_KTHREAD_BIT\<rparr>)"

definition task_state :: "ThreadControlBlock \<Rightarrow> TaskState" where
  "task_state t = TaskState_from_u8 (tcb_sched_state t AND SCHED_STATE_MASK)"

definition set_task_state :: "ThreadControlBlock \<Rightarrow> TaskState \<Rightarrow> ThreadControlBlock" where
  "set_task_state t s =
    t\<lparr>tcb_sched_state := (tcb_sched_state t AND NOT SCHED_STATE_MASK) OR TaskState_as_u8 s\<rparr>"

definition try_transition :: "ThreadControlBlock \<Rightarrow> TaskState \<Rightarrow> TaskState \<Rightarrow> bool \<times> ThreadControlBlock" where
  "try_transition t src dst =
    (if tcb_sched_state t AND SCHED_STATE_MASK \<noteq> TaskState_as_u8 src then (False, t)
     else (True, t\<lparr>tcb_sched_state := (tcb_sched_state t AND NOT SCHED_STATE_MASK) OR TaskState_as_u8 dst\<rparr>))"

definition force_transition :: "ThreadControlBlock \<Rightarrow> TaskState \<Rightarrow> TaskState \<Rightarrow> ThreadControlBlock" where
  "force_transition t src dst =
    t\<lparr>tcb_sched_state := (tcb_sched_state t AND NOT SCHED_STATE_MASK) OR TaskState_as_u8 dst\<rparr>"

definition has_signal_pending :: "ThreadControlBlock \<Rightarrow> bool" where
  "has_signal_pending t = (tcb_sched_state t AND SCHED_SIGNAL_BIT \<noteq> 0)"

definition set_signal_pending :: "ThreadControlBlock \<Rightarrow> ThreadControlBlock" where
  "set_signal_pending t = t\<lparr>tcb_sched_state := tcb_sched_state t OR SCHED_SIGNAL_BIT\<rparr>"

definition clear_signal_pending :: "ThreadControlBlock \<Rightarrow> ThreadControlBlock" where
  "clear_signal_pending t = t\<lparr>tcb_sched_state := tcb_sched_state t AND NOT SCHED_SIGNAL_BIT\<rparr>"

definition is_kthread :: "ThreadControlBlock \<Rightarrow> bool" where
  "is_kthread t = (tcb_sched_state t AND SCHED_KTHREAD_BIT \<noteq> 0)"

definition fpu_loaded :: "ThreadControlBlock \<Rightarrow> bool" where
  "fpu_loaded t = (tcb_sched_state t AND SCHED_FPU_LOADED_BIT \<noteq> 0)"

definition need_resched :: "ThreadControlBlock \<Rightarrow> bool" where
  "need_resched t = (tcb_sched_state t AND SCHED_NEED_RESCHED_BIT \<noteq> 0)"

definition is_exiting :: "ThreadControlBlock \<Rightarrow> bool" where
  "is_exiting t = (tcb_sched_state t AND SCHED_EXITING_BIT \<noteq> 0)"

definition mark_exiting :: "ThreadControlBlock \<Rightarrow> ThreadControlBlock" where
  "mark_exiting t = t\<lparr>tcb_sched_state := tcb_sched_state t OR (SCHED_EXITING_BIT OR SCHED_NEED_RESCHED_BIT)\<rparr>"

definition is_idle :: "ThreadControlBlock \<Rightarrow> bool" where
  "is_idle t = (tcb_sched_state t AND SCHED_IDLE_BIT \<noteq> 0)"

definition is_queued :: "ThreadControlBlock \<Rightarrow> bool" where
  "is_queued t = (tcb_sched_state t AND SCHED_QUEUED_BIT \<noteq> 0)"

definition try_mark_queued :: "ThreadControlBlock \<Rightarrow> bool \<times> ThreadControlBlock" where
  "try_mark_queued t =
    (if tcb_sched_state t AND SCHED_QUEUED_BIT \<noteq> 0 then (False, t)
     else (True, t\<lparr>tcb_sched_state := tcb_sched_state t OR SCHED_QUEUED_BIT\<rparr>))"

definition clear_queued :: "ThreadControlBlock \<Rightarrow> ThreadControlBlock" where
  "clear_queued t = t\<lparr>tcb_sched_state := tcb_sched_state t AND NOT SCHED_QUEUED_BIT\<rparr>"

definition set_fpu_loaded :: "ThreadControlBlock \<Rightarrow> bool \<Rightarrow> ThreadControlBlock" where
  "set_fpu_loaded t loaded =
    (if loaded then t\<lparr>tcb_sched_state := tcb_sched_state t OR SCHED_FPU_LOADED_BIT\<rparr>
     else t\<lparr>tcb_sched_state := tcb_sched_state t AND NOT SCHED_FPU_LOADED_BIT\<rparr>)"

definition request_preemption :: "ThreadControlBlock \<Rightarrow> ThreadControlBlock" where
  "request_preemption t = t\<lparr>tcb_sched_state := tcb_sched_state t OR SCHED_NEED_RESCHED_BIT\<rparr>"

definition take_need_resched :: "ThreadControlBlock \<Rightarrow> bool \<times> ThreadControlBlock" where
  "take_need_resched t =
    (tcb_sched_state t AND SCHED_NEED_RESCHED_BIT \<noteq> 0,
     t\<lparr>tcb_sched_state := tcb_sched_state t AND NOT SCHED_NEED_RESCHED_BIT\<rparr>)"

definition current_cpu :: "ThreadControlBlock \<Rightarrow> CpuId" where
  "current_cpu t = ucast (tcb_cpu_id t)"

definition assign_cpu :: "ThreadControlBlock \<Rightarrow> CpuId \<Rightarrow> ThreadControlBlock" where
  "assign_cpu t cpu = t\<lparr>tcb_cpu_id := ucast cpu\<rparr>"

definition allowed_on :: "ThreadControlBlock \<Rightarrow> CpuId \<Rightarrow> bool" where
  "allowed_on t cpu = CpuSet_contains (tcb_cpu_affinity t) cpu"

definition set_cpu_affinity_single :: "ThreadControlBlock \<Rightarrow> CpuId \<Rightarrow> ThreadControlBlock" where
  "set_cpu_affinity_single t cpu = t\<lparr>tcb_cpu_affinity := CpuSet_single cpu\<rparr>"

definition advance_vruntime :: "ThreadControlBlock \<Rightarrow> u64 \<Rightarrow> u32 \<Rightarrow> ThreadControlBlock" where
  "advance_vruntime t delta_ns weight =
    (let weighted = (if weight = 0 then delta_ns else saturating_mul delta_ns 1024 div ucast weight)
     in t\<lparr>tcb_vruntime := tcb_vruntime t + weighted\<rparr>)"

section \<open>State and flag bits\<close>

lemma state_mask_bit: "bit SCHED_STATE_MASK n \<longleftrightarrow> n < 8"
proof -
  have "SCHED_STATE_MASK = mask 8" by (simp add: SCHED_STATE_MASK_def mask_eq_exp_minus_1)
  show ?thesis unfolding \<open>SCHED_STATE_MASK = mask 8\<close> bit_mask_iff by auto
qed

lemma state_small: "TaskState_as_u8 s AND SCHED_STATE_MASK = TaskState_as_u8 s"
  "TaskState_as_u8 s AND NOT SCHED_STATE_MASK = 0"
  by (cases s; simp add: TaskState_as_u8_def SCHED_STATE_MASK_def)+

lemma from_as_u8 [simp]: "TaskState_from_u8 (TaskState_as_u8 s) = s"
  by (cases s) (simp_all add: TaskState_as_u8_def TaskState_from_u8_def)

lemma replace_state: "((w AND NOT SCHED_STATE_MASK) OR TaskState_as_u8 s) AND SCHED_STATE_MASK = TaskState_as_u8 s"
proof -
  have "((w AND NOT SCHED_STATE_MASK) OR TaskState_as_u8 s) AND SCHED_STATE_MASK =
      (w AND (NOT SCHED_STATE_MASK AND SCHED_STATE_MASK)) OR (TaskState_as_u8 s AND SCHED_STATE_MASK)"
    by (simp add: bit.conj_disj_distrib2 and.assoc)
  then show ?thesis by (simp add: state_small)
qed

lemma state_no_high_bits: "8 \<le> n \<Longrightarrow> \<not> bit (TaskState_as_u8 s) n"
proof
  assume "8 \<le> n" "bit (TaskState_as_u8 s) n"
  then have "bit (TaskState_as_u8 s AND SCHED_STATE_MASK) n" by (simp add: state_small)
  then show False using \<open>8 \<le> n\<close> by (simp add: bit_and_iff state_mask_bit)
qed

lemma replace_state_bit:
  "8 \<le> n \<Longrightarrow> bit ((w AND NOT SCHED_STATE_MASK) OR TaskState_as_u8 s) n = bit w n"
  using state_no_high_bits [of n s]
  by (auto simp: bit_or_iff bit_and_iff bit_not_iff state_mask_bit dest: bit_imp_le_length)

lemma and_one_bit: "(w :: 'a::len word) AND push_bit n 1 \<noteq> 0 \<longleftrightarrow> bit w n"
  by (simp only: bit_iff_and_push_bit_not_eq_0)

lemmas sched_bits = SCHED_SIGNAL_BIT_def SCHED_KTHREAD_BIT_def SCHED_FPU_LOADED_BIT_def
  SCHED_NEED_RESCHED_BIT_def SCHED_EXITING_BIT_def SCHED_IDLE_BIT_def SCHED_QUEUED_BIT_def

lemma flag_reads:
  "has_signal_pending t \<longleftrightarrow> bit (tcb_sched_state t) 8"
  "is_idle t \<longleftrightarrow> bit (tcb_sched_state t) 13"
  "is_queued t \<longleftrightarrow> bit (tcb_sched_state t) 15"
  by (simp_all only: has_signal_pending_def is_idle_def is_queued_def sched_bits and_one_bit)

lemma set_state_reads [simp]:
  "task_state (set_task_state t s) = s" "is_queued (set_task_state t s) = is_queued t"
  "is_idle (set_task_state t s) = is_idle t"
  "has_signal_pending (set_task_state t s) = has_signal_pending t"
  by (simp_all add: task_state_def set_task_state_def flag_reads replace_state replace_state_bit)

lemma set_state_fields [simp]:
  "tcb_policy (set_task_state t s) = tcb_policy t" "tcb_priority (set_task_state t s) = tcb_priority t"
  "tcb_vruntime (set_task_state t s) = tcb_vruntime t" "tcb_deadline_abs (set_task_state t s) = tcb_deadline_abs t"
  by (simp_all add: set_task_state_def)

lemma state_of_flag_update:
  assumes "8 \<le> n"
  shows "(w OR push_bit n 1) AND SCHED_STATE_MASK = w AND SCHED_STATE_MASK"
    "(w AND NOT (push_bit n 1)) AND SCHED_STATE_MASK = w AND SCHED_STATE_MASK"
  using assms unfolding push_bit_of_1
  by (auto intro!: bit_word_eqI simp: bit_simps state_mask_bit bit_exp_iff)

lemma clear_queued_reads [simp]:
  "\<not> is_queued (clear_queued t)" "task_state (clear_queued t) = task_state t"
  "is_idle (clear_queued t) = is_idle t"
  "tcb_policy (clear_queued t) = tcb_policy t" "tcb_priority (clear_queued t) = tcb_priority t"
  "tcb_vruntime (clear_queued t) = tcb_vruntime t" "tcb_deadline_abs (clear_queued t) = tcb_deadline_abs t"
  unfolding task_state_def clear_queued_def flag_reads SCHED_QUEUED_BIT_def
  by (simp_all add: state_of_flag_update bit_clear_one del: push_bit_of_1)

lemma try_mark_queued_eq:
  "try_mark_queued t = (if is_queued t then (False, t)
     else (True, t\<lparr>tcb_sched_state := tcb_sched_state t OR SCHED_QUEUED_BIT\<rparr>))"
  by (simp add: try_mark_queued_def is_queued_def)

definition mark_queued :: "ThreadControlBlock \<Rightarrow> ThreadControlBlock" where
  "mark_queued t = t\<lparr>tcb_sched_state := tcb_sched_state t OR SCHED_QUEUED_BIT\<rparr>"

lemma mark_queued_reads [simp]:
  "is_queued (mark_queued t)" "task_state (mark_queued t) = task_state t" "is_idle (mark_queued t) = is_idle t"
  "tcb_policy (mark_queued t) = tcb_policy t" "tcb_priority (mark_queued t) = tcb_priority t"
  "tcb_vruntime (mark_queued t) = tcb_vruntime t" "tcb_deadline_abs (mark_queued t) = tcb_deadline_abs t"
  unfolding task_state_def mark_queued_def flag_reads SCHED_QUEUED_BIT_def
  by (simp_all add: state_of_flag_update bit_set_one del: push_bit_of_1)

lemma cfs_weight_bounds: "15 \<le> unat (cfs_weight p) \<and> unat (cfs_weight p) \<le> 88761"
proof (cases "p < 100")
  case True
  then show ?thesis by (simp add: cfs_weight_def)
next
  case False
  define i where "i = nat (max 0 (min 39 (int (unat p) - 120 + 20)))"
  have "\<forall>w \<in> set prio_to_weight. 15 \<le> w \<and> w \<le> 88761" by (simp add: prio_to_weight_def)
  moreover have "i < length prio_to_weight" by (simp add: i_def prio_to_weight_def)
  ultimately have "15 \<le> prio_to_weight ! i \<and> prio_to_weight ! i \<le> 88761" using nth_mem by blast
  then show ?thesis using False
    unfolding cfs_weight_def i_def [symmetric] by (simp add: unat_of_nat take_bit_nat_eq_self)
qed

end
