(* ===== verification/Sched_Queue.thy ===== *)
theory Sched_Queue
  imports Sched_Task "HOL-Library.Multiset"
begin

text \<open>
  The bounded pointer arrays behind the scheduler's sorted queues
  (\<open>kernel/src/scheduler/core/runqueue.rs\<close>, \<open>kernel/src/scheduler/timer/deadline_timer.rs\<close>):
  the slice move \<open>copy_within\<close>, the element-by-element shifts, and the relation between such an
  array and the list it holds.  The locale \<open>keyed_queue\<close> is the contract of a queue sorted by a
  key of its threads; it is interpreted on the fair queue and on the deadline queue.
\<close>

section \<open>Definitions\<close>

type_synonym ptr = nat
type_synonym heap = "ptr \<Rightarrow> ThreadControlBlock"
type_synonym ptr_array = "nat \<Rightarrow> ptr option"

text \<open>\<open>slice::copy_within\<close> of the standard library: the source range is read before it is written.\<close>

definition copy_within :: "ptr_array \<Rightarrow> nat \<Rightarrow> nat \<Rightarrow> nat \<Rightarrow> ptr_array" where
  "copy_within a from_i to_i dest =
    (\<lambda>i. if dest \<le> i \<and> i < dest + (to_i - from_i) then a (from_i + (i - dest)) else a i)"

function shift_left :: "ptr_array \<Rightarrow> nat \<Rightarrow> nat \<Rightarrow> ptr_array" where
  "shift_left a j n = (if j + 1 < n then shift_left (a(j := a (j + 1))) (j + 1) n else a)"
  by auto
termination by (relation "measure (\<lambda>(a, j, n). n - j)") auto

fun shift_right :: "ptr_array \<Rightarrow> nat \<Rightarrow> nat \<Rightarrow> ptr_array" where
  "shift_right a j pos = (if j > pos then shift_right (a(j := a (j - 1))) (j - 1) pos else a)"

function find_ptr :: "ptr_array \<Rightarrow> ptr \<Rightarrow> nat \<Rightarrow> nat \<Rightarrow> nat option" where
  "find_ptr a target i n =
    (if i < n then (if a i = Some target then Some i else find_ptr a target (i + 1) n) else None)"
  by auto
termination by (relation "measure (\<lambda>(a, t, i, n). n - i)") auto

declare shift_left.simps [simp del] shift_right.simps [simp del] find_ptr.simps [simp del]

text \<open>The array holds exactly the list, packed at its start.\<close>

definition holds :: "ptr_array \<Rightarrow> ptr list \<Rightarrow> bool" where
  "holds a xs = (\<forall>i. a i = (if i < length xs then Some (xs ! i) else None))"

definition insert_after :: "('a \<Rightarrow> 'k::linorder) \<Rightarrow> 'a \<Rightarrow> 'a list \<Rightarrow> 'a list" where
  "insert_after key x xs = takeWhile (\<lambda>y. key y \<le> key x) xs @ x # dropWhile (\<lambda>y. key y \<le> key x) xs"

section \<open>Shifts\<close>

lemma shift_left_eq: "shift_left a j n = copy_within a (j + 1) n j"
proof (induction a j n rule: shift_left.induct)
  case (1 a j n)
  show ?case
  proof (cases "j + 1 < n")
    case True
    then have "shift_left a j n = copy_within (a(j := a (j + 1))) (j + 1 + 1) n (j + 1)"
      unfolding 1 [OF True, symmetric] by (subst shift_left.simps) (simp only: if_True)
    also have "\<dots> = copy_within a (j + 1) n j"
      using True by (auto simp: copy_within_def fun_eq_iff)
    finally show ?thesis .
  next
    case False
    then show ?thesis by (subst shift_left.simps) (auto simp: copy_within_def fun_eq_iff)
  qed
qed

lemma shift_right_eq: "pos \<le> j \<Longrightarrow> shift_right a j pos = copy_within a pos j (pos + 1)"
proof (induction a j pos rule: shift_right.induct)
  case (1 a j pos)
  show ?case
  proof (cases "j > pos")
    case True
    then have "pos \<le> j - 1" by simp
    then have "shift_right a j pos = copy_within (a(j := a (j - 1))) pos (j - 1) (pos + 1)"
      using 1(1) [OF True] True by (subst shift_right.simps) (simp only: if_True)
    also have "\<dots> = copy_within a pos j (pos + 1)"
      using True by (auto simp: copy_within_def fun_eq_iff intro: arg_cong [of _ _ a])
    finally show ?thesis .
  next
    case False
    then show ?thesis using 1 by (subst shift_right.simps) (auto simp: copy_within_def fun_eq_iff)
  qed
qed

lemma holds_empty [simp]: "holds (\<lambda>i. None) []"
  by (simp add: holds_def)

lemma holds_nth: "holds a xs \<Longrightarrow> i < length xs \<Longrightarrow> a i = Some (xs ! i)"
  by (simp add: holds_def)

lemma holds_insert:
  assumes "holds a xs" "pos \<le> length xs"
  shows "holds ((copy_within a pos (length xs) (pos + 1))(pos := Some x)) (take pos xs @ x # drop pos xs)"
  unfolding holds_def
proof
  fix i
  consider "i < pos" | "i = pos" | k where "i = Suc (pos + k)" by (metis less_imp_Suc_add linorder_neqE_nat)
  then show "((copy_within a pos (length xs) (pos + 1))(pos := Some x)) i =
    (if i < length (take pos xs @ x # drop pos xs) then Some ((take pos xs @ x # drop pos xs) ! i) else None)"
    using assms by cases (auto simp: holds_def copy_within_def nth_append)
qed

lemma holds_delete:
  assumes "holds a xs" "i < length xs"
  shows "holds ((copy_within a (i + 1) (length xs) i)(length xs - 1 := None)) (take i xs @ drop (Suc i) xs)"
  using assms by (auto simp: holds_def copy_within_def nth_append)

lemma holds_remove1:
  assumes "holds a xs"
  shows "find_ptr a target i (length xs) =
    (if target \<in> set (drop i xs) then Some (i + length (takeWhile (\<lambda>y. y \<noteq> target) (drop i xs))) else None)"
  using assms
proof (induction a target i "length xs" rule: find_ptr.induct)
  case (1 a target i)
  show ?case
  proof (cases "i < length xs")
    case True
    then have d: "drop i xs = xs ! i # drop (Suc i) xs" by (simp add: Cons_nth_drop_Suc)
    have "a i = Some (xs ! i)" using 1 True by (simp add: holds_nth)
    then show ?thesis using 1 True unfolding d by (subst find_ptr.simps) auto
  next
    case False
    then show ?thesis by (subst find_ptr.simps) auto
  qed
qed

lemma take_drop_remove1:
  "target \<in> set xs \<Longrightarrow>
    take (length (takeWhile (\<lambda>y. y \<noteq> target) xs)) xs @ drop (Suc (length (takeWhile (\<lambda>y. y \<noteq> target) xs))) xs
      = remove1 target xs"
  by (induction xs) auto

lemma takeWhile_length_less: "target \<in> set xs \<Longrightarrow> length (takeWhile (\<lambda>y. y \<noteq> target) xs) < length xs"
  by (induction xs) auto

section \<open>Insertion after equal keys\<close>

lemma set_insert_after [simp]: "set (insert_after key x xs) = insert x (set xs)"
proof -
  have "set xs = set (takeWhile (\<lambda>y. key y \<le> key x) xs @ dropWhile (\<lambda>y. key y \<le> key x) xs)" by simp
  then show ?thesis unfolding set_append insert_after_def by auto
qed

lemma mset_insert_after [simp]: "mset (insert_after key x xs) = add_mset x (mset xs)"
proof -
  have "mset xs = mset (takeWhile (\<lambda>y. key y \<le> key x) xs @ dropWhile (\<lambda>y. key y \<le> key x) xs)" by simp
  then show ?thesis unfolding mset_append insert_after_def by simp
qed

lemma length_insert_after [simp]: "length (insert_after key x xs) = Suc (length xs)"
  by (simp flip: size_mset)

lemma insert_after_Cons:
  "insert_after key x (y # ys) = (if key y \<le> key x then y # insert_after key x ys else x # y # ys)"
  by (simp add: insert_after_def)

lemma sorted_insert_after:
  "sorted (map key xs) \<Longrightarrow> sorted (map key (insert_after key x xs))"
  by (induction xs) (auto simp: insert_after_Cons insert_after_def [of _ _ "[]"])

lemma filter_insert_after:
  assumes "sorted (map key xs)"
  shows "filter (\<lambda>y. k = key y) (insert_after key x xs)
    = filter (\<lambda>y. k = key y) xs @ (if k = key x then [x] else [])"
  using assms
proof (induction xs)
  case Nil
  then show ?case by (simp add: insert_after_def)
next
  case (Cons y ys)
  have "filter (\<lambda>z. key x = key z) (y # ys) = []" if "\<not> key y \<le> key x"
    using Cons.prems that by (fastforce simp: filter_empty_conv)
  then show ?case using Cons by (auto simp: insert_after_Cons)
qed

lemma insert_after_position:
  assumes "pos \<le> length xs" "\<forall>i < pos. key (xs ! i) \<le> key x" "\<forall>i. pos \<le> i \<and> i < length xs \<longrightarrow> key x < key (xs ! i)"
  shows "insert_after key x xs = take pos xs @ x # drop pos xs"
proof -
  have "takeWhile (\<lambda>y. key y \<le> key x) xs = take pos xs"
    using assms by (intro takeWhile_eq_take_P_nth) auto
  moreover have "dropWhile (\<lambda>y. key y \<le> key x) xs = drop pos xs"
    using calculation by (metis assms(1) dropWhile_eq_drop length_take min.absorb2)
  ultimately show ?thesis by (simp add: insert_after_def)
qed

lemma insert_after_cong:
  "(\<And>y. y \<in> insert x (set xs) \<Longrightarrow> key y = key' y) \<Longrightarrow> insert_after key x xs = insert_after key' x xs"
  by (induction xs) (auto simp: insert_after_Cons insert_after_def [of _ _ "[]"])

lemma distinct_insert_after: "distinct (insert_after key x xs) \<longleftrightarrow> x \<notin> set xs \<and> distinct xs"
  by (induction xs) (auto simp: insert_after_Cons insert_after_def [of _ _ "[]"])

definition arrivals :: "('a \<Rightarrow> 'k::linorder) \<Rightarrow> 'a list \<Rightarrow> 'a list \<Rightarrow> 'a list" where
  "arrivals key xs q = foldl (\<lambda>q x. insert_after key x q) q xs"

lemma arrivals_sorts: "arrivals key xs [] = sort_key key xs"
proof -
  have inv: "sorted (map key (arrivals key xs q)) \<and> mset (arrivals key xs q) = mset q + mset xs
      \<and> (\<forall>k. filter (\<lambda>y. k = key y) (arrivals key xs q) = filter (\<lambda>y. k = key y) q @ filter (\<lambda>y. k = key y) xs)"
    if "sorted (map key q)" for q
    using that
  proof (induction xs arbitrary: q)
    case Nil
    then show ?case by (simp add: arrivals_def)
  next
    case (Cons x xs)
    have "arrivals key (x # xs) q = arrivals key xs (insert_after key x q)" by (simp add: arrivals_def)
    then show ?case
      using Cons.IH [OF sorted_insert_after [OF Cons.prems, of x]] Cons.prems
      by (auto simp: filter_insert_after)
  qed
  show ?thesis
    using inv [of "[]"] by (intro properties_for_sort_key [symmetric]) simp_all
qed

section \<open>The contract of a sorted queue\<close>

text \<open>
  \<open>holds_in h q xs\<close>: in heap \<open>h\<close> the queue \<open>q\<close> stores the threads \<open>xs\<close>.  A full queue rejects and
  is unchanged; otherwise an arriving thread goes behind every thread whose key is not larger.
\<close>

locale keyed_queue =
  fixes holds_in :: "heap \<Rightarrow> 'q \<Rightarrow> ptr list \<Rightarrow> bool"
    and key :: "heap \<Rightarrow> ptr \<Rightarrow> u64"
    and cap :: nat
    and push :: "heap \<Rightarrow> 'q \<Rightarrow> ptr \<Rightarrow> bool \<times> 'q"
    and pop :: "heap \<Rightarrow> 'q \<Rightarrow> ptr option \<times> 'q \<times> heap"
  assumes push_full: "holds_in h q xs \<Longrightarrow> cap \<le> length xs \<Longrightarrow> push h q x = (False, q)"
    and push_ok: "holds_in h q xs \<Longrightarrow> length xs < cap \<Longrightarrow> sorted (map (key h) xs)
      \<Longrightarrow> \<exists>q'. push h q x = (True, q') \<and> holds_in h q' (insert_after (key h) x xs)"
    and pop_empty: "holds_in h q [] \<Longrightarrow> pop h q = (None, q, h)"
    and pop_ok: "holds_in h q (x # xs) \<Longrightarrow> \<exists>q'. pop h q = (Some x, q', h(x := clear_queued (h x))) \<and> holds_in h q' xs"
    and key_stable: "key (h(x := clear_queued (h x))) = key h"
    and holds_stable: "holds_in (h(x := clear_queued (h x))) q xs = holds_in h q xs"
begin

definition push_all :: "heap \<Rightarrow> ptr list \<Rightarrow> 'q \<Rightarrow> 'q" where
  "push_all h ts q = foldl (\<lambda>q t. snd (push h q t)) q ts"

primrec pop_n :: "nat \<Rightarrow> heap \<Rightarrow> 'q \<Rightarrow> ptr option list" where
  "pop_n 0 h q = []"
| "pop_n (Suc n) h q = (case pop h q of (r, q', h') \<Rightarrow> r # pop_n n h' q')"

lemma push_all_holds:
  "holds_in h q xs \<Longrightarrow> sorted (map (key h) xs) \<Longrightarrow> length xs + length ts \<le> cap
    \<Longrightarrow> holds_in h (push_all h ts q) (arrivals (key h) ts xs)"
proof (induction ts arbitrary: q xs)
  case Nil
  then show ?case by (simp add: push_all_def arrivals_def)
next
  case (Cons t ts)
  obtain q' where q': "push h q t = (True, q')" "holds_in h q' (insert_after (key h) t xs)"
    using push_ok [of h q xs t] Cons.prems by auto
  have "holds_in h (push_all h ts q') (arrivals (key h) ts (insert_after (key h) t xs))"
    using Cons.prems by (intro Cons.IH q' sorted_insert_after) simp_all
  then show ?case by (simp add: push_all_def arrivals_def q')
qed

lemma pop_n_drains: "holds_in h q xs \<Longrightarrow> pop_n (length xs) h q = map Some xs"
proof (induction xs arbitrary: h q)
  case (Cons x xs)
  obtain q' where q': "pop h q = (Some x, q', h(x := clear_queued (h x)))" "holds_in h q' xs"
    using pop_ok [OF Cons.prems] by blast
  have "pop_n (length xs) (h(x := clear_queued (h x))) q' = map Some xs"
    by (rule Cons.IH) (simp only: holds_stable q')
  then show ?case by (simp add: q' del: fun_upd_apply)
qed simp

lemma stable_order:
  assumes "holds_in h q []" "length ts \<le> cap"
  shows "pop_n (length ts) h (push_all h ts q) = map Some (sort_key (key h) ts)"
proof -
  have "holds_in h (push_all h ts q) (sort_key (key h) ts)"
    using push_all_holds [OF assms(1), of ts] assms(2) by (simp add: arrivals_sorts)
  then show ?thesis using pop_n_drains [of h _ "sort_key (key h) ts"] by simp
qed

end

end
