(* ===== verification/Sched_Rt.thy ===== *)
theory Sched_Rt
  imports Sched_Queue "HOL-Library.Monad_Syntax"
begin

text \<open>
  The real-time run queue of one CPU (\<open>RtRunQueue\<close> and \<open>RtBitmap\<close> in
  \<open>kernel/src/scheduler/core/runqueue.rs\<close>): one doubly linked list per priority level, threaded
  through a pool of 256 slots by 16-bit indices, with a free list and a bitmap of the levels in use.
  An operation returns \<open>None\<close> where the code panics on an index out of range.
\<close>

section \<open>Definitions\<close>

definition RT_LEVELS :: nat where [simp]: "RT_LEVELS = 100"
definition RT_QUEUE_CAPACITY :: nat where [simp]: "RT_QUEUE_CAPACITY = 256"
definition RT_QUEUE_NONE :: u16 where "RT_QUEUE_NONE = 0xFFFF"

type_synonym RtBitmap = "nat \<Rightarrow> u64"

definition RtBitmap_set :: "RtBitmap \<Rightarrow> nat \<Rightarrow> RtBitmap option" where
  "RtBitmap_set b prio =
    (let word = prio div 64; k = prio mod 64 in
     if word < 2 then Some (b(word := b word OR push_bit k 1)) else None)"

definition RtBitmap_clear :: "RtBitmap \<Rightarrow> nat \<Rightarrow> RtBitmap option" where
  "RtBitmap_clear b prio =
    (let word = prio div 64; k = prio mod 64 in
     if word < 2 then Some (b(word := b word AND NOT (push_bit k 1))) else None)"

definition RtBitmap_find_highest_prio :: "RtBitmap \<Rightarrow> nat option" where
  "RtBitmap_find_highest_prio b =
    (if b 0 \<noteq> 0 then Some (trailing_zeros_u64 (b 0))
     else if b 1 \<noteq> 0 then Some (64 + trailing_zeros_u64 (b 1))
     else None)"

record RtEntry =
  rte_tcb :: "ptr option"
  rte_next :: u16
  rte_prev :: u16

record RtRunQueue =
  rt_heads :: "nat \<Rightarrow> u16"
  rt_entries :: "nat \<Rightarrow> RtEntry"
  rt_free_head :: u16
  rt_bitmap :: RtBitmap
  rt_count :: u32

definition RtRunQueue_new :: RtRunQueue where
  "RtRunQueue_new =
    \<lparr>rt_heads = (\<lambda>p. RT_QUEUE_NONE),
     rt_entries = (\<lambda>i. \<lparr>rte_tcb = None,
       rte_next = (if i < RT_QUEUE_CAPACITY - 1 then of_nat (i + 1) else RT_QUEUE_NONE),
       rte_prev = RT_QUEUE_NONE\<rparr>),
     rt_free_head = 0, rt_bitmap = (\<lambda>w. 0), rt_count = 0\<rparr>"

definition rt_entry :: "RtRunQueue \<Rightarrow> nat \<Rightarrow> RtEntry option" where
  "rt_entry q i = (if i < RT_QUEUE_CAPACITY then Some (rt_entries q i) else None)"

definition rt_put :: "RtRunQueue \<Rightarrow> nat \<Rightarrow> (RtEntry \<Rightarrow> RtEntry) \<Rightarrow> RtRunQueue option" where
  "rt_put q i f =
    (if i < RT_QUEUE_CAPACITY then Some (q\<lparr>rt_entries := (rt_entries q)(i := f (rt_entries q i))\<rparr>) else None)"

definition rt_head :: "RtRunQueue \<Rightarrow> nat \<Rightarrow> u16 option" where
  "rt_head q prio = (if prio < RT_LEVELS then Some (rt_heads q prio) else None)"

definition RtRunQueue_alloc_slot :: "RtRunQueue \<Rightarrow> (nat option \<times> RtRunQueue) option" where
  "RtRunQueue_alloc_slot q =
    (if rt_free_head q = RT_QUEUE_NONE then Some (None, q)
     else do {
       let idx = unat (rt_free_head q);
       e \<leftarrow> rt_entry q idx;
       let q = q\<lparr>rt_free_head := rte_next e\<rparr>;
       q \<leftarrow> rt_put q idx (\<lambda>e. e\<lparr>rte_next := RT_QUEUE_NONE, rte_prev := RT_QUEUE_NONE\<rparr>);
       Some (Some idx, q)
     })"

definition RtRunQueue_free_slot :: "RtRunQueue \<Rightarrow> nat \<Rightarrow> RtRunQueue option" where
  "RtRunQueue_free_slot q idx = do {
     q \<leftarrow> rt_put q idx (\<lambda>e. e\<lparr>rte_tcb := None, rte_next := rt_free_head q\<rparr>);
     Some (q\<lparr>rt_free_head := of_nat idx\<rparr>)
   }"

text \<open>The walk to the last entry of a level.\<close>

partial_function (option) rt_find_tail :: "RtRunQueue \<Rightarrow> u16 \<Rightarrow> u16 option" where
  "rt_find_tail q cur = do {
     e \<leftarrow> rt_entry q (unat cur);
     (if rte_next e = RT_QUEUE_NONE then Some cur else rt_find_tail q (rte_next e))
   }"

definition RtRunQueue_enqueue :: "heap \<Rightarrow> RtRunQueue \<Rightarrow> ptr \<Rightarrow> (bool \<times> RtRunQueue) option" where
  "RtRunQueue_enqueue h q tcb = do {
     let prio = unat (tcb_priority (h tcb));
     (slot, q) \<leftarrow> RtRunQueue_alloc_slot q;
     (case slot of
        None \<Rightarrow> Some (False, q)
      | Some slot_idx \<Rightarrow> do {
          q \<leftarrow> rt_put q slot_idx (\<lambda>e. e\<lparr>rte_tcb := Some tcb, rte_next := RT_QUEUE_NONE\<rparr>);
          head \<leftarrow> rt_head q prio;
          q \<leftarrow> (if head = RT_QUEUE_NONE then do {
                 q \<leftarrow> rt_put q slot_idx (\<lambda>e. e\<lparr>rte_prev := RT_QUEUE_NONE\<rparr>);
                 Some (q\<lparr>rt_heads := (rt_heads q)(prio := of_nat slot_idx)\<rparr>)
               } else do {
                 cur \<leftarrow> rt_find_tail q head;
                 q \<leftarrow> rt_put q (unat cur) (\<lambda>e. e\<lparr>rte_next := of_nat slot_idx\<rparr>);
                 rt_put q slot_idx (\<lambda>e. e\<lparr>rte_prev := cur\<rparr>)
               });
          b \<leftarrow> RtBitmap_set (rt_bitmap q) prio;
          Some (True, q\<lparr>rt_bitmap := b, rt_count := rt_count q + 1\<rparr>)
        })
   }"

definition RtRunQueue_dequeue_highest :: "RtRunQueue \<Rightarrow> (ptr option \<times> RtRunQueue) option" where
  "RtRunQueue_dequeue_highest q =
    (case RtBitmap_find_highest_prio (rt_bitmap q) of
       None \<Rightarrow> Some (None, q)
     | Some prio \<Rightarrow> do {
         head \<leftarrow> rt_head q prio;
         let slot_idx = unat head;
         e \<leftarrow> rt_entry q slot_idx;
         (case rte_tcb e of
            None \<Rightarrow> Some (None, q)
          | Some tcb \<Rightarrow> do {
              q \<leftarrow> rt_put q slot_idx (\<lambda>e. e\<lparr>rte_tcb := None\<rparr>);
              let next = rte_next e;
              let q = q\<lparr>rt_heads := (rt_heads q)(prio := next)\<rparr>;
              q \<leftarrow> (if next \<noteq> RT_QUEUE_NONE then rt_put q (unat next) (\<lambda>e. e\<lparr>rte_prev := RT_QUEUE_NONE\<rparr>)
                   else do { b \<leftarrow> RtBitmap_clear (rt_bitmap q) prio; Some (q\<lparr>rt_bitmap := b\<rparr>) });
              q \<leftarrow> RtRunQueue_free_slot q slot_idx;
              Some (Some tcb, q\<lparr>rt_count := rt_count q - 1\<rparr>)
            })
       })"

text \<open>
  The part of \<open>PerCpuRunQueue::remove\<close> that works on the real-time queue: the walk along one level
  (\<open>Some None\<close> when the thread is not on it) and the unlinking of the slot found.
\<close>

partial_function (option) rt_find_slot :: "RtRunQueue \<Rightarrow> ptr \<Rightarrow> u16 \<Rightarrow> u16 option option" where
  "rt_find_slot q tcb cur = do {
     e \<leftarrow> rt_entry q (unat cur);
     (if rte_tcb e = Some tcb then Some (Some cur)
      else if rte_next e = RT_QUEUE_NONE then Some None
      else rt_find_slot q tcb (rte_next e))
   }"

definition rt_unlink :: "RtRunQueue \<Rightarrow> nat \<Rightarrow> u16 \<Rightarrow> RtRunQueue option" where
  "rt_unlink q prio cur = do {
     e \<leftarrow> rt_entry q (unat cur);
     let prev_entry = rte_prev e;
     let next_entry = rte_next e;
     q \<leftarrow> (if prev_entry = RT_QUEUE_NONE then Some (q\<lparr>rt_heads := (rt_heads q)(prio := next_entry)\<rparr>)
          else rt_put q (unat prev_entry) (\<lambda>e. e\<lparr>rte_next := next_entry\<rparr>));
     q \<leftarrow> (if next_entry \<noteq> RT_QUEUE_NONE
          then rt_put q (unat next_entry) (\<lambda>e. e\<lparr>rte_prev := prev_entry\<rparr>) else Some q);
     q \<leftarrow> (if rt_heads q prio = RT_QUEUE_NONE
          then do { b \<leftarrow> RtBitmap_clear (rt_bitmap q) prio; Some (q\<lparr>rt_bitmap := b\<rparr>) } else Some q);
     q \<leftarrow> RtRunQueue_free_slot q (unat cur);
     Some (q\<lparr>rt_count := rt_count q - 1\<rparr>)
   }"

definition rt_remove :: "heap \<Rightarrow> RtRunQueue \<Rightarrow> ptr \<Rightarrow> (bool \<times> RtRunQueue) option" where
  "rt_remove h q tcb = do {
     let prio = unat (tcb_priority (h tcb));
     head \<leftarrow> rt_head q prio;
     (if head = RT_QUEUE_NONE then Some (False, q)
      else do {
        found \<leftarrow> rt_find_slot q tcb head;
        (case found of
           None \<Rightarrow> Some (False, q)
         | Some cur \<Rightarrow> do { q \<leftarrow> rt_unlink q prio cur; Some (True, q) })
      })
   }"

section \<open>The bitmap\<close>

definition level_bit :: "RtBitmap \<Rightarrow> nat \<Rightarrow> bool" where
  "level_bit b p = bit (b (p div 64)) (p mod 64)"

lemma level_bit_high: "n < 64 \<Longrightarrow> level_bit b (64 + n) = bit (b 1) n"
proof -
  assume "n < 64"
  then have "(64 + n) div 64 = 1" "(64 + n) mod 64 = n" by (simp_all add: div_nat_eqI)
  then show ?thesis by (simp add: level_bit_def)
qed

lemma level_bit_set:
  assumes "p < 128"
  shows "\<exists>b'. RtBitmap_set b p = Some b' \<and> (\<forall>n. level_bit b' n = (level_bit b n \<or> n = p))"
proof -
  have "p div 64 < 2" using assms by simp
  moreover have "level_bit (b(p div 64 := b (p div 64) OR push_bit (p mod 64) 1)) n = (level_bit b n \<or> n = p)" for n
    unfolding level_bit_def div_mod_64 [of n p] by (simp add: bit_set_one del: push_bit_of_1)
  ultimately show ?thesis by (simp add: RtBitmap_set_def Let_def)
qed

lemma level_bit_clear:
  assumes "p < 128"
  shows "\<exists>b'. RtBitmap_clear b p = Some b' \<and> (\<forall>n. level_bit b' n = (level_bit b n \<and> n \<noteq> p))"
proof -
  have "p div 64 < 2" using assms by simp
  moreover have "level_bit (b(p div 64 := b (p div 64) AND NOT (push_bit (p mod 64) 1))) n = (level_bit b n \<and> n \<noteq> p)" for n
    unfolding level_bit_def div_mod_64 [of n p] by (simp add: bit_clear_one del: push_bit_of_1)
  ultimately show ?thesis by (simp add: RtBitmap_clear_def Let_def)
qed

lemma find_highest_None:
  "RtBitmap_find_highest_prio b = None \<longleftrightarrow> (\<forall>n < 128. \<not> level_bit b n)"
proof -
  have "b 0 = 0 \<and> b 1 = 0" if all: "\<forall>n < 128. \<not> level_bit b n"
  proof -
    have "\<not> bit (b 0) n" if "n < 64" for n
      using that all [rule_format, of n] by (simp add: level_bit_def)
    moreover have "\<not> bit (b 1) n" if "n < 64" for n
      using that all [rule_format, of "64 + n"] by (simp add: level_bit_high)
    ultimately show ?thesis by (auto intro: bit_word_eqI)
  qed
  moreover have "\<not> level_bit b n" if "b 0 = 0" "b 1 = 0" "n < 128" for n
  proof -
    have "n div 64 = 0 \<or> n div 64 = 1" using that(3) by auto
    then show ?thesis using that by (auto simp: level_bit_def)
  qed
  ultimately show ?thesis by (auto simp: RtBitmap_find_highest_prio_def)
qed

lemma find_highest_Some:
  assumes "RtBitmap_find_highest_prio b = Some p"
  shows "p < 128 \<and> level_bit b p \<and> (\<forall>n < p. \<not> level_bit b n)"
proof (cases "b 0 = 0")
  case False
  then have p: "p = trailing_zeros_u64 (b 0)" using assms by (simp add: RtBitmap_find_highest_prio_def)
  show ?thesis using trailing_zeros_u64_spec [OF False] unfolding p [symmetric] by (auto simp: level_bit_def)
next
  case True
  then have p: "p = 64 + trailing_zeros_u64 (b 1)" and "b 1 \<noteq> 0"
    using assms by (auto simp: RtBitmap_find_highest_prio_def split: if_splits)
  define z where "z = trailing_zeros_u64 (b 1)"
  have z: "z < 64" "bit (b 1) z" "\<forall>i < z. \<not> bit (b 1) i"
    using trailing_zeros_u64_spec [OF \<open>b 1 \<noteq> 0\<close>] by (simp_all add: z_def)
  have "\<not> level_bit b n" if "n < 64 + z" for n
  proof (cases "n < 64")
    case False
    then have "n div 64 = 1" "n mod 64 = n - 64" using that z(1) by (simp_all add: div_nat_eqI le_mod_geq)
    then show ?thesis using z(3) that False by (simp add: level_bit_def)
  qed (use True in \<open>simp add: level_bit_def\<close>)
  then show ?thesis using z unfolding p z_def [symmetric] by (simp add: level_bit_high)
qed

section \<open>Linked levels\<close>

text \<open>
  \<open>dseg e p h xs p' h'\<close>: starting with head index \<open>h\<close> and predecessor \<open>p\<close>, the entries \<open>e\<close> link
  the slots \<open>xs\<close>; the walk ends with predecessor \<open>p'\<close> and next index \<open>h'\<close>.
\<close>

primrec dseg :: "(nat \<Rightarrow> RtEntry) \<Rightarrow> u16 \<Rightarrow> u16 \<Rightarrow> nat list \<Rightarrow> u16 \<Rightarrow> u16 \<Rightarrow> bool" where
  "dseg e p h [] p' h' = (p = p' \<and> h = h')"
| "dseg e p h (x # xs) p' h' =
    (h = of_nat x \<and> x < RT_QUEUE_CAPACITY \<and> rte_prev (e x) = p \<and> dseg e (of_nat x) (rte_next (e x)) xs p' h')"

primrec fseg :: "(nat \<Rightarrow> RtEntry) \<Rightarrow> u16 \<Rightarrow> nat list \<Rightarrow> bool" where
  "fseg e h [] = (h = RT_QUEUE_NONE)"
| "fseg e h (x # xs) = (h = of_nat x \<and> x < RT_QUEUE_CAPACITY \<and> fseg e (rte_next (e x)) xs)"

lemma dseg_append: "dseg e p h (xs @ ys) p' h' \<longleftrightarrow> (\<exists>m n. dseg e p h xs m n \<and> dseg e m n ys p' h')"
  by (induction xs arbitrary: p h) auto

lemma dseg_cong:
  "(\<And>x. x \<in> set xs \<Longrightarrow> rte_next (e x) = rte_next (e' x) \<and> rte_prev (e x) = rte_prev (e' x))
    \<Longrightarrow> dseg e p h xs p' h' = dseg e' p h xs p' h'"
  by (induction xs arbitrary: p h) auto

lemma fseg_cong: "(\<And>x. x \<in> set xs \<Longrightarrow> rte_next (e x) = rte_next (e' x)) \<Longrightarrow> fseg e h xs = fseg e' h xs"
  by (induction xs arbitrary: h) auto

lemma dseg_upd [simp]: "x \<notin> set xs \<Longrightarrow> dseg (e(x := v)) p h xs p' h' = dseg e p h xs p' h'"
  by (rule dseg_cong) auto

lemma fseg_upd [simp]: "x \<notin> set xs \<Longrightarrow> fseg (e(x := v)) h xs = fseg e h xs"
  by (rule fseg_cong) auto

lemma dseg_prev: "dseg e p h xs p' h' \<Longrightarrow> p' = (if xs = [] then p else of_nat (last xs))"
  by (induction xs arbitrary: p h) auto

lemma unat_slot [simp]: "x < 256 \<Longrightarrow> unat (of_nat x :: u16) = x"
  by (simp add: unat_of_nat take_bit_nat_eq_self)

lemma slot_not_none [simp]: "x < 256 \<Longrightarrow> (of_nat x :: u16) \<noteq> RT_QUEUE_NONE"
proof
  assume x: "x < 256" and "(of_nat x :: u16) = RT_QUEUE_NONE"
  then have "unat (of_nat x :: u16) = 65535" by (simp add: RT_QUEUE_NONE_def)
  then show False using x by simp
qed

lemma dseg_head_none:
  "dseg e p h xs p' RT_QUEUE_NONE \<Longrightarrow> h = RT_QUEUE_NONE \<longleftrightarrow> xs = []"
  by (cases xs) auto

lemma find_tail_last:
  "dseg (rt_entries q) p h (xs @ [x]) p' RT_QUEUE_NONE \<Longrightarrow> rt_find_tail q h = Some (of_nat x)"
proof (induction xs arbitrary: p h)
  case Nil
  then have "h = of_nat x" "x < 256" "rte_next (rt_entries q x) = RT_QUEUE_NONE" by simp_all
  then show ?case by (subst rt_find_tail.simps) (simp add: rt_entry_def)
next
  case (Cons y ys)
  then have y: "h = of_nat y" "y < 256" "dseg (rt_entries q) (of_nat y) (rte_next (rt_entries q y)) (ys @ [x]) p' RT_QUEUE_NONE"
    by simp_all
  have "rte_next (rt_entries q y) \<noteq> RT_QUEUE_NONE" using dseg_head_none [OF y(3)] by simp
  then show ?case using Cons.IH [OF y(3)] y by (subst rt_find_tail.simps) (simp add: rt_entry_def)
qed

lemma find_slot_first:
  assumes "dseg (rt_entries q) p h xs p' RT_QUEUE_NONE" "xs \<noteq> []"
  shows "rt_find_slot q t h =
    Some (map_option of_nat (find (\<lambda>s. rte_tcb (rt_entries q s) = Some t) xs))"
  using assms
proof (induction xs arbitrary: p h)
  case (Cons y ys)
  then have y: "h = of_nat y" "y < 256" "dseg (rt_entries q) (of_nat y) (rte_next (rt_entries q y)) ys p' RT_QUEUE_NONE"
    by simp_all
  show ?case
    using Cons.IH [OF y(3)] dseg_head_none [OF y(3)] y
    by (subst rt_find_slot.simps) (auto simp: rt_entry_def)
qed simp

section \<open>The queue and the lists it holds\<close>

text \<open>
  \<open>rt_rel q S F\<close>: level \<open>p\<close> links the slots \<open>S p\<close>, the free list links the slots \<open>F\<close>, every slot
  is on one of these lists, the bitmap shows the levels in use and the counter is their total length.
\<close>

definition rt_disjoint :: "(nat \<Rightarrow> nat list) \<Rightarrow> nat list \<Rightarrow> bool" where
  "rt_disjoint S F = (distinct F \<and> (\<forall>p < 100. distinct (S p) \<and> set (S p) \<inter> set F = {}
     \<and> (\<forall>p' < 100. p \<noteq> p' \<longrightarrow> set (S p) \<inter> set (S p') = {})))"

definition rt_rel :: "RtRunQueue \<Rightarrow> (nat \<Rightarrow> nat list) \<Rightarrow> nat list \<Rightarrow> bool" where
  "rt_rel q S F =
    ((\<forall>p < 100. \<exists>l. dseg (rt_entries q) RT_QUEUE_NONE (rt_heads q p) (S p) l RT_QUEUE_NONE)
     \<and> fseg (rt_entries q) (rt_free_head q) F
     \<and> rt_disjoint S F
     \<and> (\<forall>n < 128. level_bit (rt_bitmap q) n = (n < 100 \<and> S n \<noteq> []))
     \<and> unat (rt_count q) = (\<Sum>p < 100. length (S p))
     \<and> length F + (\<Sum>p < 100. length (S p)) = 256)"

definition rt_holds :: "RtRunQueue \<Rightarrow> (nat \<Rightarrow> ptr list) \<Rightarrow> bool" where
  "rt_holds q L = ((\<exists>S F. rt_rel q S F \<and> (\<forall>p < 100. map (\<lambda>s. rte_tcb (rt_entries q s)) (S p) = map Some (L p)))
     \<and> (\<forall>p \<ge> 100. L p = []))"

definition rt_total :: "(nat \<Rightarrow> ptr list) \<Rightarrow> nat" where
  "rt_total L = (\<Sum>p < 100. length (L p))"

lemma sum_level_update:
  assumes "(p::nat) < 100"
  shows "(\<Sum>r < 100. length ((S(p := ys)) r)) + length (S p) = (\<Sum>r < 100. length (S r)) + length ys"
proof -
  have "(\<Sum>r < 100. length ((S(p := ys)) r)) = length ys + (\<Sum>r \<in> {..<100} - {p}. length (S r))"
    using assms by (subst sum.remove [of _ p]) auto
  moreover have "(\<Sum>r < 100. length (S r)) = length (S p) + (\<Sum>r \<in> {..<100} - {p}. length (S r))"
    using assms by (subst sum.remove [of _ p]) auto
  ultimately show ?thesis by simp
qed

lemma rt_disjoint_update:
  assumes d: "rt_disjoint S F" and p: "p < 100" and ys: "set ys \<union> set F' = set (S p) \<union> set F"
    "distinct ys" "distinct F'" "set ys \<inter> set F' = {}"
  shows "rt_disjoint (S(p := ys)) F'"
proof -
  have sub: "set ys \<subseteq> set (S p) \<union> set F" "set F' \<subseteq> set (S p) \<union> set F" using ys(1) by auto
  have o: "set (S r) \<inter> set (S p) = {}" "set (S r) \<inter> set F = {}" if "r < 100" "r \<noteq> p" for r
    using d p that by (auto simp: rt_disjoint_def)
  have "set (S r) \<inter> set ys = {}" "set (S r) \<inter> set F' = {}" if "r < 100" "r \<noteq> p" for r
    using o [OF that] sub by blast+
  then show ?thesis using d ys(2-4) by (auto simp: rt_disjoint_def)
qed

lemma rt_disjoint_other:
  "rt_disjoint S F \<Longrightarrow> r < 100 \<Longrightarrow> p < 100 \<Longrightarrow> r \<noteq> p \<Longrightarrow> x \<in> set (S r) \<Longrightarrow> x \<notin> set (S p) \<union> set F"
  unfolding rt_disjoint_def by blast

text \<open>A change confined to the slots of one level and of the free list.\<close>

lemma rt_rel_level_change:
  assumes q: "rt_rel q S F" and p: "p < 100"
    and level: "dseg (rt_entries q') RT_QUEUE_NONE (rt_heads q' p) ys l RT_QUEUE_NONE"
    and heads: "\<And>r. r \<noteq> p \<Longrightarrow> rt_heads q' r = rt_heads q r"
    and frame: "\<And>x. x \<notin> set (S p) \<union> set F \<Longrightarrow> rt_entries q' x = rt_entries q x"
    and free: "fseg (rt_entries q') (rt_free_head q') F'"
    and slots: "set ys \<union> set F' = set (S p) \<union> set F" "distinct ys" "distinct F'" "set ys \<inter> set F' = {}"
    and bits: "\<And>n. n < 128 \<Longrightarrow> level_bit (rt_bitmap q') n = (if n = p then ys \<noteq> [] else level_bit (rt_bitmap q) n)"
    and counts: "unat (rt_count q') + length (S p) = unat (rt_count q) + length ys"
      "length F' + length ys = length F + length (S p)"
  shows "rt_rel q' (S(p := ys)) F'"
proof -
  have dis: "rt_disjoint S F" and lv: "\<And>r. r < 100 \<Longrightarrow> \<exists>l. dseg (rt_entries q) RT_QUEUE_NONE (rt_heads q r) (S r) l RT_QUEUE_NONE"
    using q by (auto simp: rt_rel_def)
  have "\<exists>l. dseg (rt_entries q') RT_QUEUE_NONE (rt_heads q' r) ((S(p := ys)) r) l RT_QUEUE_NONE" if "r < 100" for r
  proof (cases "r = p")
    case False
    then have "x \<notin> set (S p) \<union> set F" if "x \<in> set (S r)" for x
      using rt_disjoint_other [OF dis \<open>r < 100\<close> p] that by blast
    then have "dseg (rt_entries q') a b (S r) c d = dseg (rt_entries q) a b (S r) c d" for a b c d
      by (intro dseg_cong) (auto simp: frame)
    then show ?thesis using lv [OF that] False by (simp add: heads)
  qed (use level in auto)
  moreover have "rt_disjoint (S(p := ys)) F'" by (rule rt_disjoint_update [OF dis p slots])
  moreover have "level_bit (rt_bitmap q') n = (n < 100 \<and> (S(p := ys)) n \<noteq> [])" if "n < 128" for n
    using q p that by (auto simp: bits rt_rel_def)
  moreover note free sum_level_update [OF p, of S ys] counts
  ultimately show ?thesis using q by (auto simp: rt_rel_def)
qed

lemma rt_holds_level_change:
  assumes q: "rt_rel q S F" and r: "rt_rel q' (S(p := ys)) F'" and p: "p < 100"
    and L: "\<forall>p < 100. map (\<lambda>s. rte_tcb (rt_entries q s)) (S p) = map Some (L p)" "\<forall>p \<ge> 100. L p = []"
    and frame: "\<And>x. x \<notin> set (S p) \<union> set F \<Longrightarrow> rt_entries q' x = rt_entries q x"
    and new: "map (\<lambda>s. rte_tcb (rt_entries q' s)) ys = map Some ts"
  shows "rt_holds q' (L(p := ts))"
proof -
  have "map (\<lambda>s. rte_tcb (rt_entries q' s)) ((S(p := ys)) k) = map Some ((L(p := ts)) k)" if "k < 100" for k
  proof (cases "k = p")
    case False
    then have "x \<notin> set (S p) \<union> set F" if "x \<in> set (S k)" for x
      using rt_disjoint_other [OF _ \<open>k < 100\<close> p] q that by (auto simp: rt_rel_def)
    then have "map (\<lambda>s. rte_tcb (rt_entries q' s)) (S k) = map (\<lambda>s. rte_tcb (rt_entries q s)) (S k)"
      by (simp add: frame)
    then show ?thesis using L(1) that False by simp
  qed (use new in simp)
  then have "\<forall>k < 100. map (\<lambda>s. rte_tcb (rt_entries q' s)) ((S(p := ys)) k) = map Some ((L(p := ts)) k)" by blast
  moreover have "\<forall>k \<ge> 100. (L(p := ts)) k = []" using L(2) p by simp
  ultimately show ?thesis using r unfolding rt_holds_def by blast
qed

lemma rt_holds_total: "rt_holds q L \<Longrightarrow> unat (rt_count q) = rt_total L \<and> rt_total L \<le> 256"
proof -
  assume "rt_holds q L"
  then obtain S F where r: "rt_rel q S F" "\<forall>p < 100. map (\<lambda>s. rte_tcb (rt_entries q s)) (S p) = map Some (L p)"
    by (auto simp: rt_holds_def)
  have "length (S p) = length (L p)" if "p < 100" for p using r(2) that by (metis length_map)
  then have "rt_total L = (\<Sum>p < 100. length (S p))" by (simp add: rt_total_def)
  then show ?thesis using r(1) by (simp add: rt_rel_def)
qed

lemma fseg_init: "n \<le> 256 \<Longrightarrow>
  fseg (rt_entries RtRunQueue_new) (if n = 0 then RT_QUEUE_NONE else of_nat (256 - n)) [256 - n..<256]"
proof (induction n)
  case (Suc n)
  have "[256 - Suc n..<256] = (256 - Suc n) # [256 - n..<256]"
    using Suc.prems upt_conv_Cons [of "256 - Suc n" 256] by (simp add: Suc_diff_le [symmetric])
  moreover have "rte_next (rt_entries RtRunQueue_new (256 - Suc n)) = (if n = 0 then RT_QUEUE_NONE else of_nat (256 - n))"
  proof -
    have "Suc (255 - n) = 256 - n" using Suc.prems by simp
    then have "(of_nat (Suc (255 - n)) :: u16) = of_nat (256 - n)" by (rule arg_cong)
    then show ?thesis using Suc.prems by (auto simp: RtRunQueue_new_def simp del: of_nat_Suc of_nat_diff)
  qed
  ultimately show ?case using Suc by (simp del: of_nat_diff)
qed simp

lemma rt_new_holds: "rt_holds RtRunQueue_new (\<lambda>p. [])"
proof -
  have "rt_rel RtRunQueue_new (\<lambda>p. []) [0..<256]"
    using fseg_init [of 256] by (simp add: rt_rel_def RtRunQueue_new_def rt_disjoint_def level_bit_def)
  then show ?thesis by (auto simp: rt_holds_def)
qed

lemma rt_rel_slots:
  "rt_rel q S F \<Longrightarrow> p < 100 \<Longrightarrow> distinct (S p) \<and> distinct F \<and> set (S p) \<inter> set F = {}"
  by (simp add: rt_rel_def rt_disjoint_def)

lemma rt_rel_level:
  "rt_rel q S F \<Longrightarrow> p < 100 \<Longrightarrow> \<exists>l. dseg (rt_entries q) RT_QUEUE_NONE (rt_heads q p) (S p) l RT_QUEUE_NONE"
  by (simp add: rt_rel_def)

lemma alloc_slot_none: "rt_rel q S [] \<Longrightarrow> RtRunQueue_alloc_slot q = Some (None, q)"
  by (simp add: rt_rel_def RtRunQueue_alloc_slot_def)

definition rt_filled :: "RtRunQueue \<Rightarrow> nat \<Rightarrow> ptr \<Rightarrow> RtRunQueue" where
  "rt_filled q s t = q\<lparr>rt_free_head := rte_next (rt_entries q s),
     rt_entries := (rt_entries q)(s := \<lparr>rte_tcb = Some t, rte_next = RT_QUEUE_NONE, rte_prev = RT_QUEUE_NONE\<rparr>)\<rparr>"

lemma alloc_slot_filled:
  assumes "rt_rel q S (s # F)"
  shows "s < 256 \<and> (\<exists>q1. RtRunQueue_alloc_slot q = Some (Some s, q1)
    \<and> rt_put q1 s (\<lambda>e. e\<lparr>rte_tcb := Some t, rte_next := RT_QUEUE_NONE\<rparr>) = Some (rt_filled q s t))"
proof -
  obtain a n v where "rt_entries q s = \<lparr>rte_tcb = a, rte_next = n, rte_prev = v\<rparr>"
    by (cases "rt_entries q s")
  then show ?thesis
    using assms by (simp add: rt_rel_def RtRunQueue_alloc_slot_def rt_entry_def rt_put_def rt_filled_def)
qed

lemma rt_enqueue_full:
  assumes "rt_rel q S []"
  shows "RtRunQueue_enqueue h q t = Some (False, q)"
  using alloc_slot_none [OF assms] by (simp add: RtRunQueue_enqueue_def)

lemma rt_enqueue_panics:
  assumes "rt_rel q S (s # F)" "100 \<le> unat (tcb_priority (h t))"
  shows "RtRunQueue_enqueue h q t = None"
  using alloc_slot_filled [OF assms(1), of t] assms(2)
  by (auto simp: RtRunQueue_enqueue_def rt_head_def rt_filled_def)

lemma rt_filled_free:
  assumes "rt_rel q S (s # F)"
  shows "fseg (rt_entries q) (rte_next (rt_entries q s)) F" "s \<notin> set F" "distinct F" "unat (rt_count q) < 256"
  using assms by (simp_all add: rt_rel_def rt_disjoint_def)

lemma rt_enqueue_first:
  assumes q: "rt_rel q S (s # F)" and p: "p = unat (tcb_priority (h t))" "p < 100" and S: "S p = []"
  shows "\<exists>q'. RtRunQueue_enqueue h q t = Some (True, q') \<and> rt_rel q' (S(p := [s])) F
    \<and> rt_entries q' = (rt_entries q)(s := \<lparr>rte_tcb = Some t, rte_next = RT_QUEUE_NONE, rte_prev = RT_QUEUE_NONE\<rparr>)"
proof -
  obtain q1 where s: "s < 256" and q1: "RtRunQueue_alloc_slot q = Some (Some s, q1)"
      "rt_put q1 s (\<lambda>e. e\<lparr>rte_tcb := Some t, rte_next := RT_QUEUE_NONE\<rparr>) = Some (rt_filled q s t)"
    using alloc_slot_filled [OF q] by blast
  note fr = rt_filled_free [OF q]
  have hd: "rt_heads q p = RT_QUEUE_NONE" using rt_rel_level [OF q p(2)] unfolding S by auto
  obtain b where b: "RtBitmap_set (rt_bitmap q) p = Some b" "\<forall>n. level_bit b n = (level_bit (rt_bitmap q) n \<or> n = p)"
    using level_bit_set [of p "rt_bitmap q"] p(2) by auto
  define q' where "q' = (rt_filled q s t)\<lparr>rt_heads := (rt_heads q)(p := of_nat s), rt_bitmap := b, rt_count := rt_count q + 1\<rparr>"
  have q': "rt_entries q' = (rt_entries q)(s := \<lparr>rte_tcb = Some t, rte_next = RT_QUEUE_NONE, rte_prev = RT_QUEUE_NONE\<rparr>)"
    "rt_heads q' = (rt_heads q)(p := of_nat s)" "rt_free_head q' = rte_next (rt_entries q s)"
    "rt_bitmap q' = b" "rt_count q' = rt_count q + 1"
    by (simp_all add: q'_def rt_filled_def)
  have heads: "rt_heads (rt_filled q s t) = rt_heads q" by (simp add: rt_filled_def)
  have "RtRunQueue_enqueue h q t = Some (True, q')"
    using s p(2) hd b(1) unfolding RtRunQueue_enqueue_def p(1) [symmetric]
    by (simp add: q1 rt_head_def heads) (simp add: rt_put_def q'_def rt_filled_def)
  moreover have "rt_rel q' (S(p := [s])) F"
  proof (rule rt_rel_level_change [OF q p(2)])
    show "dseg (rt_entries q') RT_QUEUE_NONE (rt_heads q' p) [s] (of_nat s) RT_QUEUE_NONE"
      using s by (simp add: q')
    show "fseg (rt_entries q') (rt_free_head q') F" using fr by (simp add: q')
    show "unat (rt_count q') + length (S p) = unat (rt_count q) + length [s]"
      using fr(4) by (simp add: q' S unat_word_ariths)
  qed (use fr(2,3) b(2) S in \<open>simp_all add: q'\<close>)
  ultimately show ?thesis using q'(1) by (intro exI [of _ q'] conjI)
qed

lemma rt_enqueue_behind:
  assumes q: "rt_rel q S (s # F)" and p: "p = unat (tcb_priority (h t))" "p < 100" and S: "S p = xs @ [x]"
  shows "\<exists>q'. RtRunQueue_enqueue h q t = Some (True, q') \<and> rt_rel q' (S(p := S p @ [s])) F
    \<and> rt_entries q' = (rt_entries q)(s := \<lparr>rte_tcb = Some t, rte_next = RT_QUEUE_NONE, rte_prev = of_nat x\<rparr>,
        x := rt_entries q x\<lparr>rte_next := of_nat s\<rparr>)"
proof -
  obtain q1 where s: "s < 256" and q1: "RtRunQueue_alloc_slot q = Some (Some s, q1)"
      "rt_put q1 s (\<lambda>e. e\<lparr>rte_tcb := Some t, rte_next := RT_QUEUE_NONE\<rparr>) = Some (rt_filled q s t)"
    using alloc_slot_filled [OF q] by blast
  note fr = rt_filled_free [OF q]
  have d: "distinct (xs @ [x])" "s \<noteq> x" "s \<notin> set xs" "set (xs @ [x]) \<inter> set F = {}"
    using rt_rel_slots [OF q p(2)] unfolding S by auto
  obtain l where l: "dseg (rt_entries q) RT_QUEUE_NONE (rt_heads q p) (xs @ [x]) l RT_QUEUE_NONE"
    using rt_rel_level [OF q p(2)] unfolding S by blast
  then have hd: "rt_heads q p \<noteq> RT_QUEUE_NONE" using dseg_head_none by fastforce
  obtain m where m: "dseg (rt_entries q) RT_QUEUE_NONE (rt_heads q p) xs m (of_nat x)" "x < 256"
      "rte_prev (rt_entries q x) = m"
    using l by (auto simp: dseg_append)
  obtain b where b: "RtBitmap_set (rt_bitmap q) p = Some b" "\<forall>n. level_bit b n = (level_bit (rt_bitmap q) n \<or> n = p)"
    using level_bit_set [of p "rt_bitmap q"] p(2) by auto
  have "dseg (rt_entries (rt_filled q s t)) RT_QUEUE_NONE (rt_heads q p) (xs @ [x]) l RT_QUEUE_NONE"
    using l d by (simp add: rt_filled_def)
  then have tail: "rt_find_tail (rt_filled q s t) (rt_heads q p) = Some (of_nat x)" by (rule find_tail_last)
  define q' where "q' = (rt_filled q s t)\<lparr>rt_entries := (rt_entries q)
      (s := \<lparr>rte_tcb = Some t, rte_next = RT_QUEUE_NONE, rte_prev = of_nat x\<rparr>,
       x := rt_entries q x\<lparr>rte_next := of_nat s\<rparr>), rt_bitmap := b, rt_count := rt_count q + 1\<rparr>"
  have q': "rt_entries q' = (rt_entries q)(s := \<lparr>rte_tcb = Some t, rte_next = RT_QUEUE_NONE, rte_prev = of_nat x\<rparr>,
      x := rt_entries q x\<lparr>rte_next := of_nat s\<rparr>)"
    "rt_heads q' = rt_heads q" "rt_free_head q' = rte_next (rt_entries q s)"
    "rt_bitmap q' = b" "rt_count q' = rt_count q + 1"
    by (simp_all add: q'_def rt_filled_def)
  have heads: "rt_heads (rt_filled q s t) = rt_heads q" by (simp add: rt_filled_def)
  have "RtRunQueue_enqueue h q t = Some (True, q')"
    using s p(2) hd b(1) m(2) d(2) unfolding RtRunQueue_enqueue_def p(1) [symmetric]
    by (simp add: q1 rt_head_def heads tail) (simp add: rt_put_def q'_def rt_filled_def fun_upd_twist)
  moreover have "rt_rel q' (S(p := S p @ [s])) F"
  proof (rule rt_rel_level_change [OF q p(2)])
    have "dseg (rt_entries q') RT_QUEUE_NONE (rt_heads q p) xs m (of_nat x)"
      using m(1) d by (simp add: q')
    then show "dseg (rt_entries q') RT_QUEUE_NONE (rt_heads q' p) (S p @ [s]) (of_nat s) RT_QUEUE_NONE"
      using m(2,3) s d(2) unfolding S by (auto simp: dseg_append q')
    show "fseg (rt_entries q') (rt_free_head q') F" using fr d by (simp add: q')
    show "unat (rt_count q') + length (S p) = unat (rt_count q) + length (S p @ [s])"
      using fr(4) by (simp add: q' unat_word_ariths)
    show "set (S p @ [s]) \<union> set F = set (S p) \<union> set (s # F)" by auto
    show "set (S p @ [s]) \<inter> set F = {}" "distinct (S p @ [s])" using d fr(2) unfolding S by auto
    show "rt_entries q' y = rt_entries q y" if "y \<notin> set (S p) \<union> set (s # F)" for y
      using that by (simp add: q' S)
  qed (use fr(3) b(2) in \<open>simp_all add: q'\<close>)
  ultimately show ?thesis using q'(1) by (intro exI [of _ q'] conjI)
qed

lemma rt_enqueue_ok:
  assumes q: "rt_holds q L" and p: "p = unat (tcb_priority (h t))" "p < 100" and n: "rt_total L < 256"
  shows "\<exists>q'. RtRunQueue_enqueue h q t = Some (True, q') \<and> rt_holds q' (L(p := L p @ [t]))"
proof -
  obtain S F where r: "rt_rel q S F" and L: "\<forall>p < 100. map (\<lambda>s. rte_tcb (rt_entries q s)) (S p) = map Some (L p)"
      "\<forall>p \<ge> 100. L p = []"
    using q by (auto simp: rt_holds_def)
  have "unat (rt_count q) < 256" using rt_holds_total [OF q] n by simp
  then have "F \<noteq> []" using r by (auto simp: rt_rel_def)
  then obtain s F' where F: "F = s # F'" by (cases F) auto
  have sl: "s \<notin> set (S p)" using rt_rel_slots [OF r p(2)] F by auto
  consider "S p = []" | xs x where "S p = xs @ [x]" by (cases "S p" rule: rev_cases) auto
  then obtain q' where q': "RtRunQueue_enqueue h q t = Some (True, q')" "rt_rel q' (S(p := S p @ [s])) F'"
      "\<And>y. y \<notin> set (S p) \<union> set F \<Longrightarrow> rt_entries q' y = rt_entries q y"
      "\<And>y. y \<in> set (S p) \<Longrightarrow> rte_tcb (rt_entries q' y) = rte_tcb (rt_entries q y)"
      "rte_tcb (rt_entries q' s) = Some t"
  proof cases
    case 1
    obtain q' where "RtRunQueue_enqueue h q t = Some (True, q')" "rt_rel q' (S(p := [s])) F'"
      and "rt_entries q' = (rt_entries q)(s := \<lparr>rte_tcb = Some t, rte_next = RT_QUEUE_NONE, rte_prev = RT_QUEUE_NONE\<rparr>)"
      using rt_enqueue_first [where h = h and t = t, OF r [unfolded F] p 1] by blast
    then show ?thesis using that 1 F by simp
  next
    case 2
    obtain q' where q': "RtRunQueue_enqueue h q t = Some (True, q')" "rt_rel q' (S(p := S p @ [s])) F'"
      and e: "rt_entries q' = (rt_entries q)(s := \<lparr>rte_tcb = Some t, rte_next = RT_QUEUE_NONE, rte_prev = of_nat x\<rparr>,
        x := rt_entries q x\<lparr>rte_next := of_nat s\<rparr>)"
      using rt_enqueue_behind [where h = h and t = t, OF r [unfolded F] p 2] by blast
    show ?thesis by (rule that [OF q']) (use sl 2 F in \<open>auto simp: e\<close>)
  qed
  have "map (\<lambda>s. rte_tcb (rt_entries q' s)) (S p) = map (\<lambda>s. rte_tcb (rt_entries q s)) (S p)"
    using q'(4) by simp
  then have new: "map (\<lambda>s. rte_tcb (rt_entries q' s)) (S p @ [s]) = map Some (L p @ [t])"
    using L(1) p(2) q'(5) by simp
  have "rt_holds q' (L(p := L p @ [t]))"
    by (rule rt_holds_level_change [where q = q and S = S and F = F and ys = "S p @ [s]" and F' = F'])
      (fact r q' p L new)+
  then show ?thesis using q'(1) by blast
qed

section \<open>Unlinking a slot\<close>

lemma dseg_set_next:
  assumes "dseg e p h (as @ [y]) m n" "y \<notin> set as"
  shows "dseg (e(y := e y\<lparr>rte_next := n'\<rparr>)) p h (as @ [y]) m n'"
  using assms by (auto simp: dseg_append)

lemma dseg_set_prev:
  assumes "dseg e p h (z # bs) m n" "z \<notin> set bs"
  shows "dseg (e(z := e z\<lparr>rte_prev := p'\<rparr>)) p' h (z # bs) m n"
  using assms by simp

definition rt_unlinked :: "RtRunQueue \<Rightarrow> nat list \<Rightarrow> nat \<Rightarrow> nat list \<Rightarrow> (nat \<Rightarrow> RtEntry)" where
  "rt_unlinked q as x bs =
    (let e = rt_entries q;
         e1 = (if as = [] then e else e(last as := e (last as)\<lparr>rte_next := rte_next (e x)\<rparr>));
         e2 = (if bs = [] then e1 else e1(hd bs := e1 (hd bs)\<lparr>rte_prev := rte_prev (e x)\<rparr>))
     in e2(x := e x\<lparr>rte_tcb := None, rte_next := rt_free_head q\<rparr>))"

lemma rt_unlinked_other:
  assumes "y \<notin> set (as @ x # bs)"
  shows "rt_unlinked q as x bs y = rt_entries q y"
proof -
  have "as \<noteq> [] \<longrightarrow> y \<noteq> last as" "bs \<noteq> [] \<longrightarrow> y \<noteq> hd bs" "y \<noteq> x" using assms by auto
  then show ?thesis by (simp add: rt_unlinked_def Let_def)
qed

lemma rt_unlinked_tcb:
  assumes "y \<noteq> x"
  shows "rte_tcb (rt_unlinked q as x bs y) = rte_tcb (rt_entries q y)"
  using assms by (simp add: rt_unlinked_def Let_def)

lemma rt_unlinked_dseg:
  assumes l: "dseg (rt_entries q) RT_QUEUE_NONE h (as @ x # bs) l RT_QUEUE_NONE" and d: "distinct (as @ x # bs)"
  shows "\<exists>l. dseg (rt_unlinked q as x bs) RT_QUEUE_NONE (if as = [] then rte_next (rt_entries q x) else h)
    (as @ bs) l RT_QUEUE_NONE"
proof -
  define e where "e = rt_entries q"
  define e1 where "e1 = (if as = [] then e else e(last as := e (last as)\<lparr>rte_next := rte_next (e x)\<rparr>))"
  define e2 where "e2 = (if bs = [] then e1 else e1(hd bs := e1 (hd bs)\<lparr>rte_prev := rte_prev (e x)\<rparr>))"
  have u: "rt_unlinked q as x bs = e2(x := e x\<lparr>rte_tcb := None, rte_next := rt_free_head q\<rparr>)"
    by (simp add: rt_unlinked_def Let_def e_def e1_def e2_def)
  obtain m where m: "dseg e RT_QUEUE_NONE h as m (of_nat x)" "rte_prev (e x) = m"
      "dseg e (of_nat x) (rte_next (e x)) bs l RT_QUEUE_NONE"
    using l by (auto simp: dseg_append e_def)
  have a: "dseg e1 RT_QUEUE_NONE (if as = [] then rte_next (e x) else h) as m (rte_next (e x))"
  proof (cases as rule: rev_cases)
    case (snoc as' y)
    then have "dseg (e(y := e y\<lparr>rte_next := rte_next (e x)\<rparr>)) RT_QUEUE_NONE h (as' @ [y]) m (rte_next (e x))"
      using m(1) d by (intro dseg_set_next) auto
    then show ?thesis using snoc by (simp add: e1_def)
  qed (use m in \<open>simp add: e1_def\<close>)
  have "last as \<notin> set bs" if "as \<noteq> []" using d last_in_set [OF that] by auto
  then have "dseg e1 (of_nat x) (rte_next (e x)) bs l RT_QUEUE_NONE"
    using m(3) by (simp add: e1_def)
  then have b: "\<exists>l. dseg e2 m (rte_next (e x)) bs l RT_QUEUE_NONE"
  proof (cases bs)
    case (Cons z bs')
    then show ?thesis
      using dseg_set_prev [of e1 "of_nat x" "rte_next (e x)" z bs' l RT_QUEUE_NONE m]
        \<open>dseg e1 (of_nat x) (rte_next (e x)) bs l RT_QUEUE_NONE\<close> d m(2) unfolding e2_def Cons by auto
  qed auto
  have "hd bs \<notin> set as" if "bs \<noteq> []" using d hd_in_set [OF that] by auto
  then have "dseg e2 RT_QUEUE_NONE (if as = [] then rte_next (e x) else h) as m (rte_next (e x))"
    using a by (cases "bs = []") (simp_all add: e2_def)
  then have "\<exists>l. dseg e2 RT_QUEUE_NONE (if as = [] then rte_next (e x) else h) (as @ bs) l RT_QUEUE_NONE"
    using b unfolding dseg_append by blast
  moreover have "x \<notin> set (as @ bs)" using d by auto
  ultimately show ?thesis unfolding u e_def [symmetric] by simp
qed

text \<open>The queue after a slot has been unlinked, with \<open>b\<close> the bitmap that has the level cleared.\<close>

definition rt_unlinked_queue :: "RtRunQueue \<Rightarrow> nat \<Rightarrow> RtBitmap \<Rightarrow> nat list \<Rightarrow> nat \<Rightarrow> nat list \<Rightarrow> RtRunQueue" where
  "rt_unlinked_queue q p b as x bs = q\<lparr>
     rt_entries := rt_unlinked q as x bs,
     rt_heads := (if as = [] then (rt_heads q)(p := rte_next (rt_entries q x)) else rt_heads q),
     rt_free_head := of_nat x,
     rt_bitmap := (if as = [] \<and> bs = [] then b else rt_bitmap q),
     rt_count := rt_count q - 1\<rparr>"

lemma rt_level_links:
  assumes q: "rt_rel q S F" and p: "p < 100" and S: "S p = as @ x # bs"
  shows "x < 256" "rte_prev (rt_entries q x) = (if as = [] then RT_QUEUE_NONE else of_nat (last as))"
    "rte_next (rt_entries q x) = (if bs = [] then RT_QUEUE_NONE else of_nat (hd bs))"
    "as \<noteq> [] \<Longrightarrow> last as < 256" "bs \<noteq> [] \<Longrightarrow> hd bs < 256" "rt_heads q p = of_nat (hd (as @ [x]))"
    "x \<notin> set (as @ bs)" "set as \<inter> set bs = {}"
proof -
  obtain l where l: "dseg (rt_entries q) RT_QUEUE_NONE (rt_heads q p) (as @ x # bs) l RT_QUEUE_NONE"
    using rt_rel_level [OF q p] unfolding S by blast
  then obtain m where m: "dseg (rt_entries q) RT_QUEUE_NONE (rt_heads q p) as m (of_nat x)" "rte_prev (rt_entries q x) = m"
      "x < 256" "dseg (rt_entries q) (of_nat x) (rte_next (rt_entries q x)) bs l RT_QUEUE_NONE"
    by (auto simp: dseg_append)
  show "x < 256" by fact
  show "rte_prev (rt_entries q x) = (if as = [] then RT_QUEUE_NONE else of_nat (last as))"
    using dseg_prev [OF m(1)] m(2) by simp
  show "rte_next (rt_entries q x) = (if bs = [] then RT_QUEUE_NONE else of_nat (hd bs))"
    using m(4) by (cases bs) auto
  have sm: "y < 256" if "dseg (rt_entries q) a b xs c d" "y \<in> set xs" for a b xs c d y
    using that by (induction xs arbitrary: a b) auto
  show "as \<noteq> [] \<Longrightarrow> last as < 256" using sm [OF m(1)] by simp
  show "bs \<noteq> [] \<Longrightarrow> hd bs < 256" using sm [OF m(4)] by simp
  show "rt_heads q p = of_nat (hd (as @ [x]))" using m(1) by (cases as) auto
  show "x \<notin> set (as @ bs)" "set as \<inter> set bs = {}" using rt_rel_slots [OF q p] unfolding S by auto
qed

lemma rt_unlink_eval:
  assumes q: "rt_rel q S F" and p: "p < 100" and S: "S p = as @ x # bs" and b: "RtBitmap_clear (rt_bitmap q) p = Some b"
  shows "rt_unlink q p (of_nat x) = Some (rt_unlinked_queue q p b as x bs)"
proof -
  note k = rt_level_links [OF q p S]
  have ne: "as \<noteq> [] \<Longrightarrow> last as \<noteq> x" "bs \<noteq> [] \<Longrightarrow> hd bs \<noteq> x"
    using k(7) last_in_set [of as] hd_in_set [of bs] by auto
  have ne': "as \<noteq> [] \<Longrightarrow> bs \<noteq> [] \<Longrightarrow> last as \<noteq> hd bs"
    using k(8) last_in_set [of as] hd_in_set [of bs] by (metis disjoint_iff)
  have hn: "as \<noteq> [] \<Longrightarrow> rt_heads q p \<noteq> RT_QUEUE_NONE"
    using dseg_head_none rt_rel_level [OF q p] unfolding S by blast
  show ?thesis
    using k(1,4,5) ne ne' hn b
    by (cases "as = []"; cases "bs = []")
      (simp_all add: rt_unlink_def rt_entry_def rt_put_def RtRunQueue_free_slot_def k(2,3)
        rt_unlinked_queue_def rt_unlinked_def Let_def)
qed

lemma rt_unlinked_rel:
  assumes q: "rt_rel q S F" and p: "p < 100" and S: "S p = as @ x # bs"
    and b: "\<forall>n. level_bit b n = (level_bit (rt_bitmap q) n \<and> n \<noteq> p)"
  shows "rt_rel (rt_unlinked_queue q p b as x bs) (S(p := as @ bs)) (x # F)"
proof -
  note k = rt_level_links [OF q p S] and sl = rt_rel_slots [OF q p, unfolded S]
  define q' where "q' = rt_unlinked_queue q p b as x bs"
  have q': "rt_entries q' = rt_unlinked q as x bs" "rt_free_head q' = of_nat x" "rt_count q' = rt_count q - 1"
    "rt_bitmap q' = (if as = [] \<and> bs = [] then b else rt_bitmap q)"
    "rt_heads q' p = (if as = [] then rte_next (rt_entries q x) else rt_heads q p)"
    "\<And>r. r \<noteq> p \<Longrightarrow> rt_heads q' r = rt_heads q r"
    by (simp_all add: q'_def rt_unlinked_queue_def)
  obtain l where "dseg (rt_entries q) RT_QUEUE_NONE (rt_heads q p) (as @ x # bs) l RT_QUEUE_NONE"
    using rt_rel_level [OF q p] unfolding S by blast
  then obtain l' where lev: "dseg (rt_entries q') RT_QUEUE_NONE (rt_heads q' p) (as @ bs) l' RT_QUEUE_NONE"
    using rt_unlinked_dseg sl unfolding q' by blast
  have free: "fseg (rt_entries q') (rt_free_head q') (x # F)"
  proof -
    have "rte_next (rt_unlinked q as x bs x) = rt_free_head q" by (simp add: rt_unlinked_def Let_def)
    moreover have "fseg (rt_unlinked q as x bs) (rt_free_head q) F = fseg (rt_entries q) (rt_free_head q) F"
      using sl by (intro fseg_cong) (metis disjoint_iff rt_unlinked_other)
    ultimately show ?thesis using q k(1) by (simp add: q' rt_rel_def)
  qed
  have pos: "0 < unat (rt_count q)"
  proof -
    have "0 < length (S p)" by (simp add: S)
    also have "\<dots> \<le> (\<Sum>r < 100. length (S r))" using p by (intro member_le_sum) auto
    finally show ?thesis using q by (simp add: rt_rel_def)
  qed
  have cnt: "unat (rt_count q - 1) = unat (rt_count q) - 1"
    using pos by (simp add: unat_sub word_le_nat_alt)
  have "rt_rel q' (S(p := as @ bs)) (x # F)"
  proof (rule rt_rel_level_change [OF q p lev _ _ free])
    show "rt_entries q' y = rt_entries q y" if "y \<notin> set (S p) \<union> set F" for y
      using that unfolding q' S by (intro rt_unlinked_other) simp
    show "level_bit (rt_bitmap q') n = (if n = p then as @ bs \<noteq> [] else level_bit (rt_bitmap q) n)" if "n < 128" for n
      using b q p S that by (auto simp: q' rt_rel_def)
    show "unat (rt_count q') + length (S p) = unat (rt_count q) + length (as @ bs)"
      using pos cnt by (simp add: q' S)
  qed (use sl in \<open>auto simp: S q'(6)\<close>)
  then show ?thesis by (simp add: q'_def)
qed

lemma rt_unlink_holds:
  assumes q: "rt_rel q S F" and p: "p < 100" and S: "S p = as @ x # bs"
    and L: "\<forall>p < 100. map (\<lambda>s. rte_tcb (rt_entries q s)) (S p) = map Some (L p)" "\<forall>p \<ge> 100. L p = []"
    and ts: "map (\<lambda>s. rte_tcb (rt_entries q s)) (as @ bs) = map Some ts"
  shows "\<exists>q'. rt_unlink q p (of_nat x) = Some q' \<and> rt_holds q' (L(p := ts))"
proof -
  obtain b where b: "RtBitmap_clear (rt_bitmap q) p = Some b" "\<forall>n. level_bit b n = (level_bit (rt_bitmap q) n \<and> n \<noteq> p)"
    using level_bit_clear [of p "rt_bitmap q"] p by auto
  define q' where "q' = rt_unlinked_queue q p b as x bs"
  have e: "rt_entries q' = rt_unlinked q as x bs" by (simp add: q'_def rt_unlinked_queue_def)
  have r: "rt_rel q' (S(p := as @ bs)) (x # F)" unfolding q'_def by (rule rt_unlinked_rel [OF q p S b(2)])
  have frame: "rt_entries q' y = rt_entries q y" if "y \<notin> set (S p) \<union> set F" for y
    using that unfolding e S by (intro rt_unlinked_other) simp
  have "rte_tcb (rt_entries q' y) = rte_tcb (rt_entries q y)" if "y \<in> set (as @ bs)" for y
    using that rt_level_links(7) [OF q p S] unfolding e by (intro rt_unlinked_tcb) auto
  then have "map (\<lambda>s. rte_tcb (rt_entries q' s)) (as @ bs) = map (\<lambda>s. rte_tcb (rt_entries q s)) (as @ bs)"
    by (intro map_cong) auto
  then have new: "map (\<lambda>s. rte_tcb (rt_entries q' s)) (as @ bs) = map Some ts" by (simp only: ts)
  have "rt_holds q' (L(p := ts))"
    by (rule rt_holds_level_change [where q = q and S = S and F = F and ys = "as @ bs" and F' = "x # F"])
      (fact q r p L frame new)+
  then show ?thesis using rt_unlink_eval [OF q p S b(1)] by (simp add: q'_def)
qed

lemma map_Some_absent:
  assumes "map f xs = map Some ys" "t \<notin> set ys" "s \<in> set xs"
  shows "f s \<noteq> Some t"
proof -
  have "f s \<in> set (map f xs)" using assms(3) by simp
  then show ?thesis unfolding assms(1) using assms(2) by auto
qed

lemma rt_remove_ok:
  assumes q: "rt_holds q L" and p: "p = unat (tcb_priority (h t))" "p < 100"
  shows "\<exists>q'. rt_remove h q t = Some (t \<in> set (L p), q') \<and> rt_holds q' (L(p := remove1 t (L p)))
    \<and> (t \<notin> set (L p) \<longrightarrow> q' = q)"
proof -
  obtain S F where r: "rt_rel q S F" and L: "\<forall>p < 100. map (\<lambda>s. rte_tcb (rt_entries q s)) (S p) = map Some (L p)"
      "\<forall>p \<ge> 100. L p = []"
    using q by (auto simp: rt_holds_def)
  obtain l where l: "dseg (rt_entries q) RT_QUEUE_NONE (rt_heads q p) (S p) l RT_QUEUE_NONE"
    using rt_rel_level [OF r p(2)] by blast
  define at where "at = (\<lambda>s. rte_tcb (rt_entries q s))"
  have Lp: "map at (S p) = map Some (L p)" using L(1) p(2) by (simp add: at_def)
  have same: "L(p := L p) = L" by simp
  show ?thesis
  proof (cases "t \<in> set (L p)")
    case False
    have "at s \<noteq> Some t" if "s \<in> set (S p)" for s
      by (rule map_Some_absent [OF Lp False that])
    then have "find (\<lambda>s. at s = Some t) (S p) = None" by (simp add: find_None_iff)
    then have "rt_remove h q t = Some (False, q)"
      using find_slot_first [OF l, of t] dseg_head_none [OF l] p(2)
      unfolding rt_remove_def p(1) [symmetric] at_def by (simp add: rt_head_def)
    then show ?thesis using False q by (simp add: remove1_idem)
  next
    case True
    then obtain us vs where uv: "L p = us @ t # vs" "t \<notin> set us" using split_list_first by fastforce
    then obtain as x bs where S: "S p = as @ x # bs" "map at as = map Some us" "at x = Some t" "map at bs = map Some vs"
      using Lp by (auto simp: map_eq_append_conv map_eq_Cons_conv)
    have "at s \<noteq> Some t" if "s \<in> set as" for s
      by (rule map_Some_absent [OF S(2) uv(2) that])
    then have "find (\<lambda>s. at s = Some t) (S p) = Some x"
      using S(3) unfolding S(1) by (induction as) auto
    then have find: "rt_find_slot q t (rt_heads q p) = Some (Some (of_nat x))"
      using find_slot_first [OF l, of t] S(1) by (simp add: at_def)
    have "map (\<lambda>s. rte_tcb (rt_entries q s)) (as @ bs) = map Some (us @ vs)" using S by (simp add: at_def)
    then obtain q' where q': "rt_unlink q p (of_nat x) = Some q'" "rt_holds q' (L(p := us @ vs))"
      using rt_unlink_holds [OF r p(2) S(1) L] by blast
    have "remove1 t (L p) = us @ vs" using uv by (simp add: remove1_append)
    moreover have "rt_remove h q t = Some (True, q')"
      using find q' dseg_head_none [OF l] p(2) S(1)
      unfolding rt_remove_def p(1) [symmetric] by (simp add: rt_head_def)
    ultimately show ?thesis using True q' by simp
  qed
qed

lemma rt_remove_panics: "100 \<le> unat (tcb_priority (h t)) \<Longrightarrow> rt_remove h q t = None"
  by (simp add: rt_remove_def rt_head_def)

lemma rt_dequeue_empty:
  assumes q: "rt_holds q L" and e: "\<forall>p. L p = []"
  shows "RtRunQueue_dequeue_highest q = Some (None, q)"
proof -
  obtain S F where r: "rt_rel q S F" and L: "\<forall>p < 100. map (\<lambda>s. rte_tcb (rt_entries q s)) (S p) = map Some (L p)"
    using q by (auto simp: rt_holds_def)
  then have "\<forall>n < 128. \<not> level_bit (rt_bitmap q) n" using e by (auto simp: rt_rel_def)
  then have "RtBitmap_find_highest_prio (rt_bitmap q) = None" by (simp add: find_highest_None)
  then show ?thesis by (simp add: RtRunQueue_dequeue_highest_def)
qed

lemma rt_highest_level:
  assumes q: "rt_holds q L"
  shows "RtBitmap_find_highest_prio (rt_bitmap q) =
    (if \<exists>p. L p \<noteq> [] then Some (LEAST p. L p \<noteq> []) else None)"
proof -
  obtain S F where r: "rt_rel q S F" and L: "\<forall>p < 100. map (\<lambda>s. rte_tcb (rt_entries q s)) (S p) = map Some (L p)"
      "\<forall>p \<ge> 100. L p = []"
    using q by (auto simp: rt_holds_def)
  have "S p = [] \<longleftrightarrow> L p = []" if "p < 100" for p using L(1) that by (metis length_0_conv length_map)
  then have bits: "level_bit (rt_bitmap q) n = (L n \<noteq> [])" if "n < 128" for n
    using r L(2) that by (cases "n < 100") (auto simp: rt_rel_def)
  show ?thesis
  proof (cases "RtBitmap_find_highest_prio (rt_bitmap q)")
    case None
    then have "L p = []" for p using bits L(2) by (cases "p < 128") (auto simp: find_highest_None)
    then show ?thesis using None by simp
  next
    case (Some p)
    have p: "L p \<noteq> []" "p < 128" "\<forall>n < p. L n = []"
      using find_highest_Some [OF Some] bits by (auto intro: less_trans)
    then have "(LEAST p. L p \<noteq> []) = p" by (intro Least_equality) (auto simp: not_less [symmetric])
    then show ?thesis using Some p by auto
  qed
qed

lemma rt_dequeue_ok:
  assumes q: "rt_holds q L" and p: "p = (LEAST p. L p \<noteq> [])" "L p = t # ts"
  shows "\<exists>q'. RtRunQueue_dequeue_highest q = Some (Some t, q') \<and> rt_holds q' (L(p := ts))"
proof -
  obtain S F where r: "rt_rel q S F" and L: "\<forall>p < 100. map (\<lambda>s. rte_tcb (rt_entries q s)) (S p) = map Some (L p)"
      "\<forall>p \<ge> 100. L p = []"
    using q by (auto simp: rt_holds_def)
  have p100: "p < 100" using p(2) L(2) by (metis leI list.discI)
  have hi: "RtBitmap_find_highest_prio (rt_bitmap q) = Some p"
    using rt_highest_level [OF q] p(2) unfolding p(1) [symmetric] by (metis list.discI)
  obtain x bs where S: "S p = [] @ x # bs" "rte_tcb (rt_entries q x) = Some t"
      "map (\<lambda>s. rte_tcb (rt_entries q s)) ([] @ bs) = map Some ts"
    using L(1) [rule_format, OF p100] p(2) by (auto simp: map_eq_Cons_conv)
  obtain q' where q': "rt_unlink q p (of_nat x) = Some q'" "rt_holds q' (L(p := ts))"
    using rt_unlink_holds [OF r p100 S(1) L S(3)] by blast
  note k = rt_level_links [OF r p100 S(1)]
  obtain b where b: "RtBitmap_clear (rt_bitmap q) p = Some b" using level_bit_clear [of p "rt_bitmap q"] p100 by auto
  have qe: "q' = rt_unlinked_queue q p b [] x bs" using q'(1) rt_unlink_eval [OF r p100 S(1) b] by simp
  have ne: "bs \<noteq> [] \<Longrightarrow> hd bs \<noteq> x" using k(7) hd_in_set [of bs] by auto
  have "RtRunQueue_dequeue_highest q = Some (Some t, q')"
    using k(1,5,6) ne b S(2) p100 unfolding qe
    by (cases "bs = []")
      (simp_all add: RtRunQueue_dequeue_highest_def hi rt_head_def rt_entry_def rt_put_def RtRunQueue_free_slot_def
        k(3) k(2) rt_unlinked_queue_def rt_unlinked_def Let_def fun_upd_twist)
  then show ?thesis using q'(2) by blast
qed

lemma rt_enqueue_at_capacity:
  assumes q: "rt_holds q L" and n: "256 \<le> rt_total L"
  shows "RtRunQueue_enqueue h q t = Some (False, q)"
proof -
  obtain S F where r: "rt_rel q S F" using q by (auto simp: rt_holds_def)
  have "length F + unat (rt_count q) = 256" using r by (simp add: rt_rel_def)
  then have "length F = 0" using rt_holds_total [OF q] n by linarith
  then have "F = []" by simp
  then show ?thesis using rt_enqueue_full r by blast
qed

end
