(* ===== verification/Sched_Cfs.thy ===== *)
theory Sched_Cfs
  imports Sched_Queue
begin

text \<open>
  The fair run queue of one CPU (\<open>CfsRunQueue\<close> in \<open>kernel/src/scheduler/core/runqueue.rs\<close>) and the
  fair-scheduling decisions of \<open>kernel/src/scheduler/policies/cfs.rs\<close>.  Threads are kept in an array
  sorted by virtual run time; a bisection finds the place of an arriving thread.
\<close>

section \<open>Definitions\<close>

definition MAX_TASKS_PER_CPU :: nat where [simp]: "MAX_TASKS_PER_CPU = 512"
definition CFS_MIN_GRANULARITY_US :: u64 where [simp]: "CFS_MIN_GRANULARITY_US = 750"
definition CFS_TARGET_LATENCY_MS :: u64 where [simp]: "CFS_TARGET_LATENCY_MS = 6"

record CfsRunQueue =
  cfs_tasks :: ptr_array
  cfs_count :: nat
  cfs_weight_sum :: u64
  cfs_min_vruntime :: u64

definition CfsRunQueue_new :: CfsRunQueue where
  "CfsRunQueue_new = \<lparr>cfs_tasks = (\<lambda>i. None), cfs_count = 0, cfs_weight_sum = 0, cfs_min_vruntime = 0\<rparr>"

function cfs_bisect :: "(nat \<Rightarrow> u64) \<Rightarrow> u64 \<Rightarrow> nat \<Rightarrow> nat \<Rightarrow> nat" where
  "cfs_bisect mv vr lo hi =
    (if lo < hi then
       let mid = (lo + hi) div 2 in
       if mv mid \<le> vr then cfs_bisect mv vr (mid + 1) hi else cfs_bisect mv vr lo mid
     else lo)"
  by auto
termination by (relation "measure (\<lambda>(mv, vr, lo, hi). hi - lo)") auto

declare cfs_bisect.simps [simp del]

definition CfsRunQueue_enqueue :: "heap \<Rightarrow> CfsRunQueue \<Rightarrow> ptr \<Rightarrow> bool \<times> CfsRunQueue" where
  "CfsRunQueue_enqueue h q tcb =
    (if cfs_count q \<ge> MAX_TASKS_PER_CPU then (False, q)
     else
       let vr = tcb_vruntime (h tcb);
           weight = cfs_weight (tcb_priority (h tcb));
           pos = cfs_bisect (\<lambda>mid. tcb_vruntime (h (the (cfs_tasks q mid)))) vr 0 (cfs_count q);
           tasks = (if pos < cfs_count q then copy_within (cfs_tasks q) pos (cfs_count q) (pos + 1) else cfs_tasks q)
       in (True, q\<lparr>cfs_tasks := tasks(pos := Some tcb), cfs_count := cfs_count q + 1,
                   cfs_weight_sum := saturating_add (cfs_weight_sum q) (ucast weight)\<rparr>))"

definition CfsRunQueue_dequeue_min :: "heap \<Rightarrow> CfsRunQueue \<Rightarrow> ptr option \<times> CfsRunQueue \<times> heap" where
  "CfsRunQueue_dequeue_min h q =
    (if cfs_count q = 0 then (None, q, h)
     else case cfs_tasks q 0 of
       None \<Rightarrow> (None, q, h)
     | Some tcb \<Rightarrow>
         let tasks = (copy_within ((cfs_tasks q)(0 := None)) 1 (cfs_count q) 0)(cfs_count q - 1 := None);
             count = cfs_count q - 1;
             weight = ucast (cfs_weight (tcb_priority (h tcb)));
             h' = h(tcb := clear_queued (h tcb));
             q' = q\<lparr>cfs_tasks := tasks, cfs_count := count,
                    cfs_weight_sum := saturating_sub (cfs_weight_sum q) weight\<rparr>
         in (Some tcb,
             if count > 0 then q'\<lparr>cfs_min_vruntime := tcb_vruntime (h' (the (tasks 0)))\<rparr> else q', h'))"

definition CfsRunQueue_remove :: "heap \<Rightarrow> CfsRunQueue \<Rightarrow> ptr \<Rightarrow> bool \<times> CfsRunQueue" where
  "CfsRunQueue_remove h q target =
    (case find_ptr (cfs_tasks q) target 0 (cfs_count q) of
       None \<Rightarrow> (False, q)
     | Some i \<Rightarrow>
         let weight = ucast (cfs_weight (tcb_priority (h target))) in
         (True, q\<lparr>cfs_tasks := (copy_within (cfs_tasks q) (i + 1) (cfs_count q) i)(cfs_count q - 1 := None),
                  cfs_count := cfs_count q - 1,
                  cfs_weight_sum := saturating_sub (cfs_weight_sum q) weight\<rparr>))"

definition CfsRunQueue_timeslice_ns :: "CfsRunQueue \<Rightarrow> u32 \<Rightarrow> u64" where
  "CfsRunQueue_timeslice_ns q weight =
    (if cfs_count q = 0 \<or> cfs_weight_sum q = 0
     then CFS_TARGET_LATENCY_MS * 1000000 div of_nat (max (cfs_count q) 1)
     else
       let target_ns = CFS_TARGET_LATENCY_MS * 1000000;
           slice = target_ns * ucast weight div cfs_weight_sum q
       in max slice (CFS_MIN_GRANULARITY_US * 1000))"

text \<open>\<open>policies/cfs.rs\<close>.  The functions that count events return the increment of the counter.\<close>

definition CFS_MIN_SLICE_NS :: u64 where "CFS_MIN_SLICE_NS = CFS_MIN_GRANULARITY_US * 1000"
definition CFS_TARGET_PERIOD_NS :: u64 where "CFS_TARGET_PERIOD_NS = CFS_TARGET_LATENCY_MS * 1000000"
definition CFS_WAKEUP_PREEMPT_NS :: u64 where "CFS_WAKEUP_PREEMPT_NS = 1000000"

definition timeslice_for :: "ThreadControlBlock \<Rightarrow> nat \<Rightarrow> u64 \<Rightarrow> u64" where
  "timeslice_for tcb nr_tasks total_weight =
    (if nr_tasks = 0 then CFS_TARGET_PERIOD_NS
     else
       let nr = max nr_tasks 1;
           weight = ucast (cfs_weight (tcb_priority tcb));
           raw_slice = (if total_weight = 0 then CFS_TARGET_PERIOD_NS div of_nat nr
                        else saturating_mul CFS_TARGET_PERIOD_NS weight div total_weight)
       in max raw_slice CFS_MIN_SLICE_NS)"

definition should_preempt_on_wakeup :: "ThreadControlBlock \<Rightarrow> ThreadControlBlock \<Rightarrow> u64 \<Rightarrow> bool \<times> nat" where
  "should_preempt_on_wakeup running woken min_vruntime =
    (if Priority_is_realtime (tcb_priority running) then (False, 0)
     else
       let woken_vr_bumped = tcb_vruntime woken + CFS_WAKEUP_PREEMPT_NS in
       if woken_vr_bumped < tcb_vruntime running then (True, 1) else (False, 0))"

definition normalize_vruntime_on_enqueue :: "ThreadControlBlock \<Rightarrow> u64 \<Rightarrow> u64 \<Rightarrow> ThreadControlBlock" where
  "normalize_vruntime_on_enqueue tcb min_vruntime slice_ns =
    (let floor = saturating_sub min_vruntime (slice_ns div 2) in
     if tcb_vruntime tcb < floor then tcb\<lparr>tcb_vruntime := floor\<rparr> else tcb)"

definition tick_check_preempt :: "ThreadControlBlock \<Rightarrow> u64 \<Rightarrow> u64 \<Rightarrow> nat \<Rightarrow> bool \<times> nat" where
  "tick_check_preempt tcb elapsed_ns slice_ns nr_tasks =
    (if tcb_policy tcb \<noteq> NormalPolicy \<and> tcb_policy tcb \<noteq> Batch then (False, 0)
     else if nr_tasks \<le> 1 then (False, 0)
     else if elapsed_ns \<ge> slice_ns then (True, 1) else (False, 0))"

section \<open>Bisection\<close>

lemma cfs_bisect_position:
  assumes "lo \<le> hi" "\<forall>i j. i \<le> j \<and> j < n \<longrightarrow> mv i \<le> mv j" "hi \<le> n"
    "\<forall>i < lo. mv i \<le> vr" "\<forall>i. hi \<le> i \<and> i < n \<longrightarrow> vr < mv i"
  shows "cfs_bisect mv vr lo hi \<le> n \<and> (\<forall>i < cfs_bisect mv vr lo hi. mv i \<le> vr)
    \<and> (\<forall>i. cfs_bisect mv vr lo hi \<le> i \<and> i < n \<longrightarrow> vr < mv i)"
  using assms
proof (induction mv vr lo hi rule: cfs_bisect.induct)
  case (1 mv vr lo hi)
  show ?case
  proof (cases "lo < hi")
    case True
    define mid where "mid = (lo + hi) div 2"
    have mid: "lo \<le> mid" "mid < hi" using True by (simp_all add: mid_def)
    show ?thesis
    proof (cases "mv mid \<le> vr")
      case le: True
      have "mv i \<le> vr" if "i < mid + 1" for i
      proof -
        have "i \<le> mid \<and> mid < n" using that mid 1(5) by simp
        then have "mv i \<le> mv mid" using 1(4) by blast
        then show ?thesis using le by simp
      qed
      then have below: "\<forall>i < mid + 1. mv i \<le> vr" by blast
      have e: "cfs_bisect mv vr lo hi = cfs_bisect mv vr (mid + 1) hi"
        using le True by (subst cfs_bisect.simps) (simp only: mid_def [symmetric] Let_def if_True)
      show ?thesis unfolding e using mid by (intro 1(1) [OF True mid_def le] 1(4,5,7) below) simp
    next
      case gt: False
      have "vr < mv i" if "mid \<le> i \<and> i < n" for i
      proof -
        have "mv mid \<le> mv i" using 1(4) that by blast
        then show ?thesis using gt by simp
      qed
      then have above: "\<forall>i. mid \<le> i \<and> i < n \<longrightarrow> vr < mv i" by blast
      have e: "cfs_bisect mv vr lo hi = cfs_bisect mv vr lo mid"
        using gt True by (subst cfs_bisect.simps) (simp only: mid_def [symmetric] Let_def if_True if_False)
      show ?thesis unfolding e using mid 1(5) by (intro 1(2) [OF True mid_def gt] 1(4,6) above) simp_all
    qed
  next
    case False
    then have e: "cfs_bisect mv vr lo hi = lo" by (subst cfs_bisect.simps) simp
    show ?thesis unfolding e using 1(3,5-7) False by auto
  qed
qed

section \<open>The queue and the list it holds\<close>

definition weight_of :: "heap \<Rightarrow> ptr \<Rightarrow> nat" where
  "weight_of h t = unat (cfs_weight (tcb_priority (h t)))"

definition cfs_holds :: "heap \<Rightarrow> CfsRunQueue \<Rightarrow> ptr list \<Rightarrow> bool" where
  "cfs_holds h q xs = (holds (cfs_tasks q) xs \<and> cfs_count q = length xs \<and> length xs \<le> MAX_TASKS_PER_CPU
     \<and> unat (cfs_weight_sum q) = (\<Sum>t \<leftarrow> xs. weight_of h t))"

definition vruntime_in :: "heap \<Rightarrow> ptr \<Rightarrow> u64" where
  "vruntime_in h t = tcb_vruntime (h t)"

lemma cfs_new_holds: "cfs_holds h CfsRunQueue_new []"
  by (simp add: cfs_holds_def CfsRunQueue_new_def)

lemma weight_of_bounds: "15 \<le> weight_of h t" "weight_of h t \<le> 88761"
  using cfs_weight_bounds by (simp_all add: weight_of_def)

lemma weight_sum_bound: "(\<Sum>t \<leftarrow> xs. weight_of h t) \<le> length xs * 88761"
  by (induction xs) (use weight_of_bounds(2) in \<open>auto intro: add_le_mono\<close>)

lemma unat_ucast_weight: "unat (ucast (cfs_weight p) :: u64) = unat (cfs_weight p)"
  by (rule unat_ucast_up) simp

lemma weight_sum_sub:
  "unat (saturating_sub s (ucast (cfs_weight (tcb_priority (h x))) :: u64)) = unat s - weight_of h x"
  by (simp only: unat_saturating_sub unat_ucast_weight weight_of_def)

lemma cfs_enqueue_full:
  "cfs_holds h q xs \<Longrightarrow> MAX_TASKS_PER_CPU \<le> length xs \<Longrightarrow> CfsRunQueue_enqueue h q t = (False, q)"
  by (simp add: cfs_holds_def CfsRunQueue_enqueue_def)

lemma cfs_bisect_le: "lo \<le> hi \<Longrightarrow> cfs_bisect mv vr lo hi \<le> hi"
proof (induction mv vr lo hi rule: cfs_bisect.induct)
  case (1 mv vr lo hi)
  then show ?case by (subst cfs_bisect.simps) (force simp: Let_def)
qed

lemma cfs_bisect_cong: "(\<And>i. i < hi \<Longrightarrow> mv i = mv' i) \<Longrightarrow> cfs_bisect mv vr lo hi = cfs_bisect mv' vr lo hi"
proof (induction mv vr lo hi rule: cfs_bisect.induct)
  case (1 mv vr lo hi)
  then show ?case by (subst (1 2) cfs_bisect.simps) (auto simp: Let_def)
qed

text \<open>The insertion that the bisection performs, on an array in any order.\<close>

definition bisect_insert :: "heap \<Rightarrow> ptr \<Rightarrow> ptr list \<Rightarrow> ptr list" where
  "bisect_insert h t xs =
    (let pos = cfs_bisect (\<lambda>i. vruntime_in h (xs ! i)) (vruntime_in h t) 0 (length xs)
     in take pos xs @ t # drop pos xs)"

lemma mset_bisect_insert [simp]: "mset (bisect_insert h t xs) = add_mset t (mset xs)"
  unfolding bisect_insert_def Let_def mset_append mset.simps
  by (metis append_take_drop_id mset_append union_mset_add_mset_right)

lemma set_bisect_insert [simp]: "set (bisect_insert h t xs) = insert t (set xs)"
  by (metis mset_bisect_insert set_mset_add_mset_insert set_mset_mset)

lemma length_bisect_insert [simp]: "length (bisect_insert h t xs) = Suc (length xs)"
  by (simp flip: size_mset)

lemma bisect_insert_sorted:
  assumes s: "sorted (map (vruntime_in h) xs)"
  shows "bisect_insert h t xs = insert_after (vruntime_in h) t xs"
proof -
  define mv where "mv = (\<lambda>i. vruntime_in h (xs ! i))"
  define pos where "pos = cfs_bisect mv (vruntime_in h t) 0 (length xs)"
  have mono: "\<forall>i j. i \<le> j \<and> j < length xs \<longrightarrow> mv i \<le> mv j"
    using s by (auto simp: sorted_iff_nth_mono mv_def)
  have "pos \<le> length xs \<and> (\<forall>i < pos. mv i \<le> vruntime_in h t)
      \<and> (\<forall>i. pos \<le> i \<and> i < length xs \<longrightarrow> vruntime_in h t < mv i)"
    unfolding pos_def by (rule cfs_bisect_position [OF _ mono]) auto
  then have "insert_after (vruntime_in h) t xs = take pos xs @ t # drop pos xs"
    by (intro insert_after_position) (auto simp: mv_def)
  then show ?thesis by (simp add: bisect_insert_def pos_def mv_def Let_def)
qed

lemma cfs_enqueue_ok:
  assumes q: "cfs_holds h q xs" and n: "length xs < MAX_TASKS_PER_CPU"
  shows "\<exists>q'. CfsRunQueue_enqueue h q t = (True, q') \<and> cfs_holds h q' (bisect_insert h t xs)
    \<and> cfs_min_vruntime q' = cfs_min_vruntime q"
proof -
  define pos where "pos = cfs_bisect (\<lambda>mid. tcb_vruntime (h (the (cfs_tasks q mid)))) (tcb_vruntime (h t)) 0 (length xs)"
  have h: "holds (cfs_tasks q) xs" and c: "cfs_count q = length xs" using q by (simp_all add: cfs_holds_def)
  have "pos = cfs_bisect (\<lambda>i. vruntime_in h (xs ! i)) (vruntime_in h t) 0 (length xs)"
    unfolding pos_def vruntime_in_def by (rule cfs_bisect_cong) (simp add: holds_nth [OF h])
  then have ins: "bisect_insert h t xs = take pos xs @ t # drop pos xs" by (simp add: bisect_insert_def Let_def)
  have p: "pos \<le> length xs" unfolding pos_def by (rule cfs_bisect_le) simp
  define tasks where "tasks = (if pos < length xs then copy_within (cfs_tasks q) pos (length xs) (pos + 1) else cfs_tasks q)"
  have "tasks = copy_within (cfs_tasks q) pos (length xs) (pos + 1)"
    using p by (auto simp: tasks_def copy_within_def fun_eq_iff)
  then have arr: "holds (tasks(pos := Some t)) (bisect_insert h t xs)"
    using holds_insert [OF h p, of t] unfolding ins by simp
  have "(\<Sum>t \<leftarrow> xs. weight_of h t) + weight_of h t \<le> 512 * 88761"
    using weight_sum_bound [of h xs] weight_of_bounds(2) [of h t] n
      mult_right_mono [of "length xs" 511 88761] by simp
  then have "unat (saturating_add (cfs_weight_sum q) (ucast (cfs_weight (tcb_priority (h t))))) =
      (\<Sum>t \<leftarrow> bisect_insert h t xs. weight_of h t)"
    using q by (simp add: cfs_holds_def unat_saturating_add unat_ucast_weight weight_of_def
        flip: sum_mset_sum_list)
  then show ?thesis
    using arr n c unfolding CfsRunQueue_enqueue_def c Let_def pos_def [symmetric] tasks_def [symmetric]
    by (simp add: cfs_holds_def)
qed

lemma holds_tail:
  assumes "holds a (x # xs)"
  shows "holds ((copy_within (a(0 := None)) 1 (Suc (length xs)) 0)(length xs := None)) xs"
proof -
  have "(copy_within (a(0 := None)) 1 (Suc (length xs)) 0)(length xs := None)
      = (copy_within a (0 + 1) (length (x # xs)) 0)(length (x # xs) - 1 := None)"
    by (auto simp: copy_within_def fun_eq_iff)
  then show ?thesis using holds_delete [OF assms, of 0] by simp
qed

lemma cfs_dequeue_ok:
  assumes q: "cfs_holds h q (x # xs)"
  shows "\<exists>q'. CfsRunQueue_dequeue_min h q = (Some x, q', h(x := clear_queued (h x))) \<and> cfs_holds h q' xs
    \<and> cfs_min_vruntime q' = (case xs of [] \<Rightarrow> cfs_min_vruntime q | y # ys \<Rightarrow> vruntime_in h y)"
proof -
  define tasks where "tasks = (copy_within ((cfs_tasks q)(0 := None)) 1 (Suc (length xs)) 0)(length xs := None)"
  have h: "holds (cfs_tasks q) (x # xs)" and c: "cfs_count q = Suc (length xs)"
    using q by (simp_all add: cfs_holds_def)
  have t: "holds tasks xs" using holds_tail [OF h] by (simp add: tasks_def)
  have "cfs_tasks q 0 = Some x" using holds_nth [OF h, of 0] by simp
  moreover have "tasks 0 = Some (hd xs)" if "xs \<noteq> []" using t that by (simp add: holds_nth hd_conv_nth)
  ultimately have t0: "cfs_tasks q 0 = Some x" "xs \<noteq> [] \<Longrightarrow> tasks 0 = Some (hd xs)" by simp_all
  define q1 where "q1 = q\<lparr>cfs_tasks := tasks, cfs_count := length xs,
      cfs_weight_sum := saturating_sub (cfs_weight_sum q) (ucast (cfs_weight (tcb_priority (h x))))\<rparr>"
  define h1 where "h1 = h(x := clear_queued (h x))"
  have e: "CfsRunQueue_dequeue_min h q =
      (Some x, if 0 < length xs then q1\<lparr>cfs_min_vruntime := tcb_vruntime (h1 (the (tasks 0)))\<rparr> else q1, h1)"
    unfolding CfsRunQueue_dequeue_min_def t0(1) c diff_Suc_1 Let_def tasks_def [symmetric] option.case
      q1_def [symmetric] h1_def [symmetric] by (simp only: nat.distinct if_False)
  have "cfs_holds h q1 xs"
    using q t by (simp add: cfs_holds_def q1_def weight_sum_sub)
  moreover have "tcb_vruntime (h1 t) = vruntime_in h t" for t by (simp add: h1_def vruntime_in_def)
  moreover have "cfs_min_vruntime q1 = cfs_min_vruntime q" by (simp add: q1_def)
  ultimately show ?thesis unfolding e h1_def [symmetric]
    using t0(2) by (cases xs) (simp_all add: cfs_holds_def)
qed

lemma cfs_dequeue_empty: "cfs_holds h q [] \<Longrightarrow> CfsRunQueue_dequeue_min h q = (None, q, h)"
  by (simp add: cfs_holds_def CfsRunQueue_dequeue_min_def)

lemma sum_list_remove1: "x \<in> set xs \<Longrightarrow> (\<Sum>t \<leftarrow> remove1 x xs. f t) = (\<Sum>t \<leftarrow> xs. f t) - (f x :: nat)"
  by (simp add: sum_list_map_remove1)

lemma cfs_remove_ok:
  assumes q: "cfs_holds h q xs"
  shows "\<exists>q'. CfsRunQueue_remove h q t = (t \<in> set xs, q') \<and> cfs_holds h q' (remove1 t xs)
    \<and> cfs_min_vruntime q' = cfs_min_vruntime q \<and> (t \<notin> set xs \<longrightarrow> q' = q)"
proof (cases "t \<in> set xs")
  case True
  define i where "i = length (takeWhile (\<lambda>y. y \<noteq> t) xs)"
  have h: "holds (cfs_tasks q) xs" and c: "cfs_count q = length xs" using q by (simp_all add: cfs_holds_def)
  have "find_ptr (cfs_tasks q) t 0 (length xs) = Some i"
    using holds_remove1 [OF h, of t 0] True by (simp add: i_def)
  moreover have "holds ((copy_within (cfs_tasks q) (i + 1) (length xs) i)(length xs - 1 := None)) (remove1 t xs)"
    using holds_delete [OF h, of i] takeWhile_length_less [OF True] take_drop_remove1 [OF True] by (simp add: i_def)
  ultimately show ?thesis
    using q True unfolding CfsRunQueue_remove_def c
    by (simp add: cfs_holds_def weight_sum_sub sum_list_remove1 length_remove1 le_diff_conv)
next
  case False
  then show ?thesis
    using q holds_remove1 [of "cfs_tasks q" xs t 0] by (auto simp: CfsRunQueue_remove_def cfs_holds_def remove1_idem)
qed

lemma weight_of_clear [simp]: "weight_of (h(x := clear_queued (h x))) = weight_of h"
  by (auto simp: weight_of_def fun_eq_iff)

lemma vruntime_in_clear [simp]: "vruntime_in (h(x := clear_queued (h x))) = vruntime_in h"
  by (auto simp: vruntime_in_def fun_eq_iff)

interpretation cfs: keyed_queue cfs_holds vruntime_in MAX_TASKS_PER_CPU CfsRunQueue_enqueue CfsRunQueue_dequeue_min
proof (unfold_locales, goal_cases)
  case (1 h q xs x)
  then show ?case by (rule cfs_enqueue_full)
next
  case (2 h q xs x)
  then show ?case using cfs_enqueue_ok [of h q xs x] bisect_insert_sorted [of h xs x] by auto
next
  case (3 h q)
  then show ?case by (rule cfs_dequeue_empty)
next
  case (4 h q x xs)
  then show ?case using cfs_dequeue_ok by blast
next
  case (5 h x)
  then show ?case by (rule vruntime_in_clear)
next
  case (6 h x q xs)
  then show ?case by (simp only: cfs_holds_def weight_of_clear)
qed

end
