(* ===== verification/Sched_Deadline.thy ===== *)
theory Sched_Deadline
  imports Sched_Queue
begin

text \<open>
  Deadline scheduling: admission control and deadlines (\<open>kernel/src/scheduler/policies/deadline.rs\<close>)
  and the per-CPU queue ordered by absolute deadline (\<open>kernel/src/scheduler/timer/deadline_timer.rs\<close>).
  The monotonic clock is an argument \<open>now\<close> of every operation that reads it.
\<close>

section \<open>Definitions\<close>

subsection \<open>Admission control\<close>

record DeadlineParams =
  dlp_runtime_ns :: u64
  dlp_deadline_ns :: u64
  dlp_period_ns :: u64

datatype DeadlineError = AdmissionDenied | InvalidParams | QueueFull

definition ADMIT_SCALE :: u64 where [simp]: "ADMIT_SCALE = 1000000"

record DeadlineGlobals =
  ADMITTED_UTILIZATION :: u64
  DEADLINE_THREADS_ADMITTED :: u64
  DEADLINE_ADMISSION_DENIED :: u64
  DEADLINE_MISSES :: u64
  DL_ENQUEUES :: u64
  DL_DEQUEUES :: u64
  DL_MISS_EVENTS :: u64

definition DeadlineGlobals_init :: DeadlineGlobals where
  "DeadlineGlobals_init = \<lparr>ADMITTED_UTILIZATION = 0, DEADLINE_THREADS_ADMITTED = 0,
     DEADLINE_ADMISSION_DENIED = 0, DEADLINE_MISSES = 0, DL_ENQUEUES = 0, DL_DEQUEUES = 0, DL_MISS_EVENTS = 0\<rparr>"

definition validate_params :: "DeadlineParams \<Rightarrow> DeadlineError + unit" where
  "validate_params p =
    (if dlp_period_ns p = 0 then Err InvalidParams
     else if dlp_deadline_ns p > dlp_period_ns p then Err InvalidParams
     else if dlp_runtime_ns p = 0 \<or> dlp_runtime_ns p > dlp_deadline_ns p then Err InvalidParams
     else Ok ())"

definition admit_fraction :: "DeadlineParams \<Rightarrow> u64" where
  "admit_fraction p = saturating_mul (dlp_runtime_ns p) ADMIT_SCALE div dlp_period_ns p"

definition admit_thread :: "DeadlineGlobals \<Rightarrow> DeadlineParams \<Rightarrow> (DeadlineError + u64) \<times> DeadlineGlobals" where
  "admit_thread g p =
    (case validate_params p of
       Inl e \<Rightarrow> (Err e, g)
     | Inr _ \<Rightarrow>
         let fraction = admit_fraction p;
             new_util = saturating_add (ADMITTED_UTILIZATION g) fraction in
         if new_util > ADMIT_SCALE
         then (Err AdmissionDenied, g\<lparr>DEADLINE_ADMISSION_DENIED := DEADLINE_ADMISSION_DENIED g + 1\<rparr>)
         else (Ok fraction, g\<lparr>ADMITTED_UTILIZATION := new_util,
                              DEADLINE_THREADS_ADMITTED := DEADLINE_THREADS_ADMITTED g + 1\<rparr>))"

definition release_thread :: "DeadlineGlobals \<Rightarrow> u64 \<Rightarrow> DeadlineGlobals" where
  "release_thread g fraction =
    g\<lparr>ADMITTED_UTILIZATION := saturating_sub (ADMITTED_UTILIZATION g) fraction,
      DEADLINE_THREADS_ADMITTED := saturating_sub (DEADLINE_THREADS_ADMITTED g) 1\<rparr>"

subsection \<open>Absolute deadlines\<close>

definition refresh_deadline :: "u64 \<Rightarrow> ThreadControlBlock \<Rightarrow> ThreadControlBlock" where
  "refresh_deadline now tcb =
    (let deadline_ns = tcb_dl_period tcb in tcb\<lparr>tcb_deadline_abs := saturating_add now deadline_ns\<rparr>)"

definition check_deadline_miss :: "u64 \<Rightarrow> DeadlineGlobals \<Rightarrow> ThreadControlBlock \<Rightarrow> bool \<times> DeadlineGlobals" where
  "check_deadline_miss now g tcb =
    (let deadline_abs = tcb_deadline_abs tcb in
     if now > deadline_abs \<and> deadline_abs \<noteq> 0 then (True, g\<lparr>DEADLINE_MISSES := DEADLINE_MISSES g + 1\<rparr>)
     else (False, g))"

definition remaining_budget :: "u64 \<Rightarrow> ThreadControlBlock \<Rightarrow> u64" where
  "remaining_budget now tcb =
    (let deadline_abs = tcb_deadline_abs tcb in
     if deadline_abs = 0 \<or> now \<ge> deadline_abs then 0 else deadline_abs - now)"

definition deadline_tick :: "u64 \<Rightarrow> ThreadControlBlock \<Rightarrow> u64 \<Rightarrow> bool" where
  "deadline_tick now tcb elapsed_ns =
    (if tcb_policy tcb \<noteq> Deadline then False else elapsed_ns \<ge> remaining_budget now tcb)"

subsection \<open>The queue of one CPU\<close>

definition MAX_DL_TASKS :: nat where [simp]: "MAX_DL_TASKS = 64"

record DeadlineQueue =
  dlq_tasks :: ptr_array
  dlq_count :: nat

definition DeadlineQueue_new :: DeadlineQueue where
  "DeadlineQueue_new = \<lparr>dlq_tasks = (\<lambda>i. None), dlq_count = 0\<rparr>"

function dl_scan :: "heap \<Rightarrow> ptr_array \<Rightarrow> u64 \<Rightarrow> nat \<Rightarrow> nat \<Rightarrow> nat" where
  "dl_scan h tasks dl i n =
    (if i < n then
       let d = tcb_deadline_abs (h (the (tasks i))) in
       if d > dl then i else dl_scan h tasks dl (i + 1) n
     else n)"
  by auto
termination by (relation "measure (\<lambda>(h, a, d, i, n). n - i)") auto

declare dl_scan.simps [simp del]

definition DeadlineQueue_insert :: "heap \<Rightarrow> DeadlineQueue \<Rightarrow> ptr \<Rightarrow> bool \<times> DeadlineQueue" where
  "DeadlineQueue_insert h q tcb =
    (if dlq_count q \<ge> MAX_DL_TASKS then (False, q)
     else
       let dl = tcb_deadline_abs (h tcb);
           pos = dl_scan h (dlq_tasks q) dl 0 (dlq_count q);
           tasks = shift_right (dlq_tasks q) (dlq_count q) pos
       in (True, q\<lparr>dlq_tasks := tasks(pos := Some tcb), dlq_count := dlq_count q + 1\<rparr>))"

definition DeadlineQueue_pop_earliest :: "DeadlineQueue \<Rightarrow> ptr option \<times> DeadlineQueue" where
  "DeadlineQueue_pop_earliest q =
    (if dlq_count q = 0 then (None, q)
     else
       let tcb = dlq_tasks q 0;
           tasks = shift_left (dlq_tasks q) 0 (dlq_count q)
       in (tcb, q\<lparr>dlq_tasks := tasks(dlq_count q - 1 := None), dlq_count := dlq_count q - 1\<rparr>))"

definition dl_enqueue :: "u64 \<Rightarrow> heap \<Rightarrow> DeadlineGlobals \<Rightarrow> DeadlineQueue \<Rightarrow> ptr
    \<Rightarrow> bool \<times> DeadlineQueue \<times> DeadlineGlobals \<times> heap" where
  "dl_enqueue now h g q tcb_ptr =
    (let h' = h(tcb_ptr := refresh_deadline now (h tcb_ptr)) in
     case DeadlineQueue_insert h' q tcb_ptr of
       (True, q') \<Rightarrow> (True, q', g\<lparr>DL_ENQUEUES := DL_ENQUEUES g + 1\<rparr>, h')
     | (False, q') \<Rightarrow> (False, q', g, h'))"

definition dl_pick_next :: "heap \<Rightarrow> DeadlineGlobals \<Rightarrow> DeadlineQueue
    \<Rightarrow> ptr option \<times> DeadlineQueue \<times> DeadlineGlobals \<times> heap" where
  "dl_pick_next h g q =
    (case DeadlineQueue_pop_earliest q of (tcb_opt, q') \<Rightarrow>
       (case tcb_opt of
          Some tcb \<Rightarrow> (tcb_opt, q', g\<lparr>DL_DEQUEUES := DL_DEQUEUES g + 1\<rparr>, h(tcb := clear_queued (h tcb)))
        | None \<Rightarrow> (tcb_opt, q', g, h)))"

definition dl_remove :: "heap \<Rightarrow> DeadlineQueue \<Rightarrow> ptr \<Rightarrow> bool \<times> DeadlineQueue \<times> heap" where
  "dl_remove h q target =
    (case find_ptr (dlq_tasks q) target 0 (dlq_count q) of
       None \<Rightarrow> (False, q, h)
     | Some i \<Rightarrow>
         let tasks = shift_left (dlq_tasks q) i (dlq_count q) in
         (True, q\<lparr>dlq_tasks := tasks(dlq_count q - 1 := None), dlq_count := dlq_count q - 1\<rparr>,
          h(target := clear_queued (h target))))"

text \<open>The clock is read again for each queued thread: \<open>clock i\<close> is the reading at slot \<open>i\<close>.\<close>

function dl_tick_from :: "(nat \<Rightarrow> u64) \<Rightarrow> heap \<Rightarrow> DeadlineQueue \<Rightarrow> nat \<Rightarrow> DeadlineGlobals \<Rightarrow> DeadlineGlobals" where
  "dl_tick_from clock h q i g =
    (if i < dlq_count q then
       (case dlq_tasks q i of
          None \<Rightarrow> dl_tick_from clock h q (i + 1) g
        | Some tcb_ptr \<Rightarrow>
            (case check_deadline_miss (clock i) g (h tcb_ptr) of (missed, g) \<Rightarrow>
               dl_tick_from clock h q (i + 1)
                 (if missed then g\<lparr>DL_MISS_EVENTS := DL_MISS_EVENTS g + 1\<rparr> else g)))
     else g)"
  by auto
termination by (relation "measure (\<lambda>(c, h, q, i, g). dlq_count q - i)") auto

declare dl_tick_from.simps [simp del]

definition dl_tick :: "(nat \<Rightarrow> u64) \<Rightarrow> heap \<Rightarrow> DeadlineQueue \<Rightarrow> DeadlineGlobals \<Rightarrow> DeadlineGlobals" where
  "dl_tick clock h q g = dl_tick_from clock h q 0 g"

section \<open>The queue and the list it holds\<close>

definition dl_holds :: "heap \<Rightarrow> DeadlineQueue \<Rightarrow> ptr list \<Rightarrow> bool" where
  "dl_holds h q xs = (holds (dlq_tasks q) xs \<and> dlq_count q = length xs \<and> length xs \<le> MAX_DL_TASKS)"

definition deadline_in :: "heap \<Rightarrow> ptr \<Rightarrow> u64" where
  "deadline_in h t = tcb_deadline_abs (h t)"

lemma dl_new_holds: "dl_holds h DeadlineQueue_new []"
  by (simp add: dl_holds_def DeadlineQueue_new_def)

lemma dl_scan_position:
  assumes "holds tasks xs" "i \<le> length xs" "sorted (map (deadline_in h) xs)" "\<forall>j < i. deadline_in h (xs ! j) \<le> dl"
  shows "dl_scan h tasks dl i (length xs) \<le> length xs
    \<and> (\<forall>j < dl_scan h tasks dl i (length xs). deadline_in h (xs ! j) \<le> dl)
    \<and> (\<forall>j. dl_scan h tasks dl i (length xs) \<le> j \<and> j < length xs \<longrightarrow> dl < deadline_in h (xs ! j))"
  using assms
proof (induction h tasks dl i "length xs" rule: dl_scan.induct)
  case (1 h tasks dl i)
  show ?case
  proof (cases "i < length xs")
    case True
    have d: "tcb_deadline_abs (h (the (tasks i))) = deadline_in h (xs ! i)"
      using 1(2) True by (simp add: holds_nth deadline_in_def)
    show ?thesis
    proof (cases "deadline_in h (xs ! i) > dl")
      case gt: True
      have e: "dl_scan h tasks dl i (length xs) = i"
        using True gt by (subst dl_scan.simps) (simp add: d)
      have "dl < deadline_in h (xs ! j)" if "i \<le> j" "j < length xs" for j
        using gt sorted_nth_mono [OF 1(4), of i j] that by simp
      then show ?thesis unfolding e using 1(3,5) by blast
    next
      case le: False
      have e: "dl_scan h tasks dl i (length xs) = dl_scan h tasks dl (i + 1) (length xs)"
        using True le by (subst dl_scan.simps) (simp add: d)
      show ?thesis unfolding e
        using le True 1(5) by (intro 1(1) [OF True refl] 1(2,4)) (auto simp: d less_Suc_eq)
    qed
  next
    case False
    then have e: "dl_scan h tasks dl i (length xs) = length xs" by (subst dl_scan.simps) simp
    show ?thesis unfolding e using 1(3,5) False by auto
  qed
qed

lemma dl_insert_full:
  "dl_holds h q xs \<Longrightarrow> MAX_DL_TASKS \<le> length xs \<Longrightarrow> DeadlineQueue_insert h q t = (False, q)"
  by (simp add: dl_holds_def DeadlineQueue_insert_def)

lemma dl_insert_ok:
  assumes q: "dl_holds h q xs" and n: "length xs < MAX_DL_TASKS" and s: "sorted (map (deadline_in h) xs)"
  shows "\<exists>q'. DeadlineQueue_insert h q t = (True, q') \<and> dl_holds h q' (insert_after (deadline_in h) t xs)"
proof -
  have h: "holds (dlq_tasks q) xs" and c: "dlq_count q = length xs" using q by (simp_all add: dl_holds_def)
  define pos where "pos = dl_scan h (dlq_tasks q) (tcb_deadline_abs (h t)) 0 (length xs)"
  have "pos \<le> length xs \<and> (\<forall>j < pos. deadline_in h (xs ! j) \<le> tcb_deadline_abs (h t))
      \<and> (\<forall>j. pos \<le> j \<and> j < length xs \<longrightarrow> tcb_deadline_abs (h t) < deadline_in h (xs ! j))"
    unfolding pos_def by (rule dl_scan_position [OF h _ s]) auto
  then have p: "pos \<le> length xs" "\<forall>j < pos. deadline_in h (xs ! j) \<le> deadline_in h t"
    "\<forall>j. pos \<le> j \<and> j < length xs \<longrightarrow> deadline_in h t < deadline_in h (xs ! j)"
    unfolding deadline_in_def [of h t] by blast+
  have "holds ((shift_right (dlq_tasks q) (length xs) pos)(pos := Some t)) (insert_after (deadline_in h) t xs)"
    unfolding insert_after_position [OF p] shift_right_eq [OF p(1)] by (rule holds_insert [OF h p(1)])
  then show ?thesis
    using n unfolding DeadlineQueue_insert_def c Let_def pos_def [symmetric] by (simp add: dl_holds_def)
qed

lemma dl_pop_empty: "dl_holds h q [] \<Longrightarrow> DeadlineQueue_pop_earliest q = (None, q)"
  by (simp add: dl_holds_def DeadlineQueue_pop_earliest_def)

lemma dl_pop_ok:
  assumes q: "dl_holds h q (x # xs)"
  shows "\<exists>q'. DeadlineQueue_pop_earliest q = (Some x, q') \<and> dl_holds h q' xs"
proof -
  have h: "holds (dlq_tasks q) (x # xs)" and c: "dlq_count q = Suc (length xs)"
    using q by (simp_all add: dl_holds_def)
  have "dlq_tasks q 0 = Some x" using holds_nth [OF h, of 0] by simp
  moreover have "holds ((shift_left (dlq_tasks q) 0 (Suc (length xs)))(length xs := None)) xs"
    using holds_delete [OF h, of 0] by (simp add: shift_left_eq)
  ultimately show ?thesis
    using q unfolding DeadlineQueue_pop_earliest_def c by (simp add: dl_holds_def)
qed

lemma dl_remove_ok:
  assumes q: "dl_holds h q xs"
  shows "\<exists>q'. dl_remove h q t = (t \<in> set xs, q', if t \<in> set xs then h(t := clear_queued (h t)) else h)
    \<and> dl_holds h q' (remove1 t xs) \<and> (t \<notin> set xs \<longrightarrow> q' = q)"
proof (cases "t \<in> set xs")
  case True
  define i where "i = length (takeWhile (\<lambda>y. y \<noteq> t) xs)"
  have h: "holds (dlq_tasks q) xs" and c: "dlq_count q = length xs" using q by (simp_all add: dl_holds_def)
  have "find_ptr (dlq_tasks q) t 0 (length xs) = Some i"
    using holds_remove1 [OF h, of t 0] True by (simp add: i_def)
  moreover have "holds ((shift_left (dlq_tasks q) i (length xs))(length xs - 1 := None)) (remove1 t xs)"
    using holds_delete [OF h, of i] takeWhile_length_less [OF True] take_drop_remove1 [OF True]
    by (simp add: i_def shift_left_eq)
  ultimately show ?thesis
    using q True unfolding dl_remove_def c by (simp add: dl_holds_def length_remove1 le_diff_conv)
next
  case False
  then show ?thesis
    using q holds_remove1 [of "dlq_tasks q" xs t 0] by (auto simp: dl_remove_def dl_holds_def remove1_idem)
qed

lemma deadline_in_clear [simp]: "deadline_in (h(x := clear_queued (h x))) = deadline_in h"
  by (auto simp: deadline_in_def fun_eq_iff)

lemma dl_pick_next_eq:
  "dl_holds h q [] \<Longrightarrow> dl_pick_next h g q = (None, q, g, h)"
  "dl_holds h q (x # xs) \<Longrightarrow> \<exists>q'. dl_pick_next h g q =
     (Some x, q', g\<lparr>DL_DEQUEUES := DL_DEQUEUES g + 1\<rparr>, h(x := clear_queued (h x))) \<and> dl_holds h q' xs"
  using dl_pop_ok [of h q x xs] by (auto simp: dl_pick_next_def dl_pop_empty)

interpretation edf: keyed_queue dl_holds deadline_in MAX_DL_TASKS DeadlineQueue_insert
  "\<lambda>h q. case dl_pick_next h g q of (r, q', g', h') \<Rightarrow> (r, q', h')" for g
proof (unfold_locales, goal_cases)
  case (1 h q xs x)
  then show ?case by (rule dl_insert_full)
next
  case (2 h q xs x)
  then show ?case by (rule dl_insert_ok)
next
  case (3 h q)
  then show ?case by (simp add: dl_pick_next_eq)
next
  case (4 h q x xs)
  then show ?case using dl_pick_next_eq(2) [of h q x xs g] by auto
next
  case (5 h x)
  then show ?case by (rule deadline_in_clear)
next
  case (6 h x q xs)
  then show ?case by (simp add: dl_holds_def)
qed

end
