(* ===== verification/Sched_RunQueue.thy ===== *)
theory Sched_RunQueue
  imports Sched_Rt Sched_Cfs Sched_Deadline
begin

text \<open>
  The run queues of all CPUs (\<open>PerCpuRunQueue\<close> in \<open>kernel/src/scheduler/core/runqueue.rs\<close>) and the
  choice of the next thread (\<open>kernel/src/scheduler/core/pick_next.rs\<close>).  The state holds the thread
  control blocks, the run queue and the deadline queue of each CPU and the global counters; an
  operation on the run queue of CPU \<open>c\<close> takes \<open>c\<close> as an argument.  \<open>None\<close> is a panic.
\<close>

section \<open>Definitions\<close>

record PerCpuRunQueue =
  rq_cpu :: CpuId
  rq_rt :: RtRunQueue
  rq_cfs :: CfsRunQueue
  rq_idle_thread :: "ptr option"
  rq_current :: "ptr option"
  rq_picks_total :: u64
  rq_picks_rt :: u64
  rq_picks_cfs :: u64
  rq_picks_dl :: u64
  rq_picks_idle :: u64
  rq_nr_running :: u32
  rq_load_avg :: u64
  rq_last_balance_ns :: u64
  rq_clock_task_ns :: u64

record Sched =
  sc_heap :: heap
  sc_rq :: "nat \<Rightarrow> PerCpuRunQueue"
  sc_dl :: "nat \<Rightarrow> DeadlineQueue"
  sc_dlg :: DeadlineGlobals
  RUNQUEUE_INITIALIZED :: bool
  RUNQUEUE_NR_CPUS :: u32
  PICK_NEXT_TOTAL :: u64
  PICK_SAME_CURRENT :: u64
  PICK_RT_RT :: u64
  PICK_SKIP_INELIGIBLE :: u64

abbreviation rq_put :: "Sched \<Rightarrow> nat \<Rightarrow> (PerCpuRunQueue \<Rightarrow> PerCpuRunQueue) \<Rightarrow> Sched" where
  "rq_put s c f \<equiv> s\<lparr>sc_rq := (sc_rq s)(c := f (sc_rq s c))\<rparr>"

abbreviation tcb_put :: "Sched \<Rightarrow> ptr \<Rightarrow> (ThreadControlBlock \<Rightarrow> ThreadControlBlock) \<Rightarrow> Sched" where
  "tcb_put s t f \<equiv> s\<lparr>sc_heap := (sc_heap s)(t := f (sc_heap s t))\<rparr>"

definition PerCpuRunQueue_new :: "CpuId \<Rightarrow> PerCpuRunQueue" where
  "PerCpuRunQueue_new cpu =
    \<lparr>rq_cpu = cpu, rq_rt = RtRunQueue_new, rq_cfs = CfsRunQueue_new, rq_idle_thread = None, rq_current = None,
     rq_picks_total = 0, rq_picks_rt = 0, rq_picks_cfs = 0, rq_picks_dl = 0, rq_picks_idle = 0,
     rq_nr_running = 0, rq_load_avg = 0, rq_last_balance_ns = 0, rq_clock_task_ns = 0\<rparr>"

definition set_idle_thread :: "Sched \<Rightarrow> nat \<Rightarrow> ptr \<Rightarrow> Sched" where
  "set_idle_thread s c idle =
    rq_put (tcb_put s idle (\<lambda>t. t\<lparr>tcb_sched_state := tcb_sched_state t OR SCHED_IDLE_BIT\<rparr>)) c
      (\<lambda>rq. rq\<lparr>rq_idle_thread := Some idle\<rparr>)"

definition update_load_avg :: "PerCpuRunQueue \<Rightarrow> u64 \<Rightarrow> PerCpuRunQueue" where
  "update_load_avg rq nr = rq\<lparr>rq_load_avg := drop_bit 3 (rq_load_avg rq * 7 + nr * 1024)\<rparr>"

text \<open>\<open>DL_QUEUES[self.cpu.0]\<close>, a static array of \<open>MAX_CPUS\<close> queues.\<close>

definition dl_index :: "PerCpuRunQueue \<Rightarrow> nat option" where
  "dl_index rq = (if unat (rq_cpu rq) < MAX_CPUS then Some (unat (rq_cpu rq)) else None)"

definition enqueue_by_policy :: "u64 \<Rightarrow> Sched \<Rightarrow> nat \<Rightarrow> ptr \<Rightarrow> (bool \<times> Sched) option" where
  "enqueue_by_policy now s c tcb =
    (let rq = sc_rq s c; rt_case = do {
           (ok, rt) \<leftarrow> RtRunQueue_enqueue (sc_heap s) (rq_rt rq) tcb;
           Some (ok, rq_put s c (\<lambda>rq. rq\<lparr>rq_rt := rt\<rparr>)) };
         cfs_case = (case CfsRunQueue_enqueue (sc_heap s) (rq_cfs rq) tcb of (ok, q) \<Rightarrow>
           Some (ok, rq_put s c (\<lambda>rq. rq\<lparr>rq_cfs := q\<rparr>)))
     in case tcb_policy (sc_heap s tcb) of
       Fifo \<Rightarrow> rt_case
     | RoundRobin \<Rightarrow> rt_case
     | NormalPolicy \<Rightarrow> cfs_case
     | Batch \<Rightarrow> cfs_case
     | Deadline \<Rightarrow> do {
         d \<leftarrow> dl_index rq;
         (case dl_enqueue now (sc_heap s) (sc_dlg s) (sc_dl s d) tcb of (ok, q, g, h) \<Rightarrow>
            Some (ok, s\<lparr>sc_dl := (sc_dl s)(d := q), sc_dlg := g, sc_heap := h\<rparr>)) }
     | IdlePolicy \<Rightarrow> Some (False, s))"

definition PerCpuRunQueue_enqueue :: "u64 \<Rightarrow> Sched \<Rightarrow> nat \<Rightarrow> ptr \<Rightarrow> (bool \<times> Sched) option" where
  "PerCpuRunQueue_enqueue now s c tcb =
    (if task_state (sc_heap s tcb) \<noteq> Runnable then Some (False, s)
     else case try_mark_queued (sc_heap s tcb) of
       (False, _) \<Rightarrow> Some (False, s)
     | (True, t) \<Rightarrow> do {
         let s = tcb_put s tcb (\<lambda>_. t);
         (enqueued, s) \<leftarrow> enqueue_by_policy now s c tcb;
         (if \<not> enqueued then Some (False, tcb_put s tcb clear_queued)
          else
            let prev = rq_nr_running (sc_rq s c) in
            Some (True, rq_put s c (\<lambda>rq. update_load_avg (rq\<lparr>rq_nr_running := prev + 1\<rparr>) (ucast prev + 1))))
       })"

definition remove_by_policy :: "Sched \<Rightarrow> nat \<Rightarrow> ptr \<Rightarrow> (bool \<times> Sched) option" where
  "remove_by_policy s c tcb =
    (let rq = sc_rq s c; rt_case = do {
           (ok, rt) \<leftarrow> rt_remove (sc_heap s) (rq_rt rq) tcb;
           Some (ok, rq_put s c (\<lambda>rq. rq\<lparr>rq_rt := rt\<rparr>)) };
         cfs_case = (case CfsRunQueue_remove (sc_heap s) (rq_cfs rq) tcb of (ok, q) \<Rightarrow>
           Some (ok, rq_put s c (\<lambda>rq. rq\<lparr>rq_cfs := q\<rparr>)))
     in case tcb_policy (sc_heap s tcb) of
       Fifo \<Rightarrow> rt_case
     | RoundRobin \<Rightarrow> rt_case
     | Deadline \<Rightarrow> do {
         d \<leftarrow> dl_index rq;
         (case dl_remove (sc_heap s) (sc_dl s d) tcb of (ok, q, h) \<Rightarrow>
            Some (ok, s\<lparr>sc_dl := (sc_dl s)(d := q), sc_heap := h\<rparr>)) }
     | _ \<Rightarrow> cfs_case)"

definition PerCpuRunQueue_remove :: "Sched \<Rightarrow> nat \<Rightarrow> ptr \<Rightarrow> (bool \<times> Sched) option" where
  "PerCpuRunQueue_remove s c tcb = do {
     (removed, s) \<leftarrow> remove_by_policy s c tcb;
     (if removed
      then Some (True, rq_put (tcb_put s tcb clear_queued) c (\<lambda>rq. rq\<lparr>rq_nr_running := rq_nr_running rq - 1\<rparr>))
      else Some (False, s))
   }"

definition dequeue_highest_rt :: "Sched \<Rightarrow> nat \<Rightarrow> (ptr option \<times> Sched) option" where
  "dequeue_highest_rt s c = do {
     (r, rt) \<leftarrow> RtRunQueue_dequeue_highest (rq_rt (sc_rq s c));
     let s = rq_put s c (\<lambda>rq. rq\<lparr>rq_rt := rt\<rparr>);
     (case r of
        None \<Rightarrow> Some (None, s)
      | Some tcb \<Rightarrow>
          let prev = rq_nr_running (sc_rq s c) in
          Some (Some tcb, rq_put (tcb_put s tcb clear_queued) c
            (\<lambda>rq. update_load_avg (rq\<lparr>rq_nr_running := prev - 1\<rparr>) (ucast (saturating_sub prev 1)))))
   }"

definition PerCpuRunQueue_pick_next :: "Sched \<Rightarrow> nat \<Rightarrow> (ptr option \<times> Sched) option" where
  "PerCpuRunQueue_pick_next s c =
    (let s = rq_put s c (\<lambda>rq. rq\<lparr>rq_picks_total := rq_picks_total rq + 1\<rparr>) in
     if rt_count (rq_rt (sc_rq s c)) > 0
     then dequeue_highest_rt (rq_put s c (\<lambda>rq. rq\<lparr>rq_picks_rt := rq_picks_rt rq + 1\<rparr>)) c
     else do {
       d \<leftarrow> dl_index (sc_rq s c);
       (case dl_pick_next (sc_heap s) (sc_dlg s) (sc_dl s d) of (r, q, g, h) \<Rightarrow>
          let s = s\<lparr>sc_dl := (sc_dl s)(d := q), sc_dlg := g, sc_heap := h\<rparr> in
          case r of
            Some tcb \<Rightarrow> Some (Some tcb, rq_put s c (\<lambda>rq. rq\<lparr>rq_picks_dl := rq_picks_dl rq + 1,
                               rq_nr_running := rq_nr_running rq - 1\<rparr>))
          | None \<Rightarrow>
              if cfs_count (rq_cfs (sc_rq s c)) > 0
              then case CfsRunQueue_dequeue_min (sc_heap s) (rq_cfs (sc_rq s c)) of (r, q, h) \<Rightarrow>
                let s = rq_put (s\<lparr>sc_heap := h\<rparr>) c
                          (\<lambda>rq. rq\<lparr>rq_picks_cfs := rq_picks_cfs rq + 1, rq_cfs := q\<rparr>) in
                (case r of
                   None \<Rightarrow> Some (None, s)
                 | Some tcb \<Rightarrow> Some (Some tcb, rq_put s c (\<lambda>rq. rq\<lparr>rq_nr_running := rq_nr_running rq - 1\<rparr>)))
              else
                let s = rq_put s c (\<lambda>rq. rq\<lparr>rq_picks_idle := rq_picks_idle rq + 1\<rparr>) in
                Some (rq_idle_thread (sc_rq s c), s))
     })"

definition PerCpuRunQueue_timeslice_for :: "Sched \<Rightarrow> nat \<Rightarrow> ptr \<Rightarrow> u64" where
  "PerCpuRunQueue_timeslice_for s c tcb =
    CfsRunQueue_timeslice_ns (rq_cfs (sc_rq s c)) (cfs_weight (tcb_priority (sc_heap s tcb)))"

definition advance_clock :: "PerCpuRunQueue \<Rightarrow> u64 \<Rightarrow> PerCpuRunQueue" where
  "advance_clock rq delta_ns = rq\<lparr>rq_clock_task_ns := rq_clock_task_ns rq + delta_ns\<rparr>"

definition total_cfs_weight :: "Sched \<Rightarrow> nat \<Rightarrow> u64" where
  "total_cfs_weight s c =
    foldl (\<lambda>total i. case cfs_tasks (rq_cfs (sc_rq s c)) i of
             None \<Rightarrow> total
           | Some tcb \<Rightarrow> saturating_add total (ucast (cfs_weight (tcb_priority (sc_heap s tcb)))))
      0 [0..<cfs_count (rq_cfs (sc_rq s c))]"

definition rt_bitmap_highest_prio :: "PerCpuRunQueue \<Rightarrow> nat option" where
  "rt_bitmap_highest_prio rq =
    (if rt_count (rq_rt rq) = 0 then None else RtBitmap_find_highest_prio (rt_bitmap (rq_rt rq)))"

definition rt_highest_prio :: "PerCpuRunQueue \<Rightarrow> nat" where
  "rt_highest_prio rq =
    (if rt_count (rq_rt rq) = 0 then 0
     else case RtBitmap_find_highest_prio (rt_bitmap (rq_rt rq)) of None \<Rightarrow> 0 | Some p \<Rightarrow> p)"

definition cfs_peek_second :: "PerCpuRunQueue \<Rightarrow> ptr option" where
  "cfs_peek_second rq = (if cfs_count (rq_cfs rq) \<ge> 2 then cfs_tasks (rq_cfs rq) 1 else None)"

text \<open>The search from the end of the array for a thread allowed on the destination CPU.\<close>

fun find_migratable :: "heap \<Rightarrow> ptr_array \<Rightarrow> CpuId \<Rightarrow> nat \<Rightarrow> nat option" where
  "find_migratable h tasks dst_cpu 0 = None"
| "find_migratable h tasks dst_cpu (Suc i) =
    (case tasks i of
       Some tcb \<Rightarrow> if allowed_on (h tcb) dst_cpu then Some i else find_migratable h tasks dst_cpu i
     | None \<Rightarrow> find_migratable h tasks dst_cpu i)"

definition cfs_dequeue_for_migration :: "Sched \<Rightarrow> nat \<Rightarrow> CpuId \<Rightarrow> ptr option \<times> Sched" where
  "cfs_dequeue_for_migration s c dst_cpu =
    (let q = rq_cfs (sc_rq s c) in
     case find_migratable (sc_heap s) (cfs_tasks q) dst_cpu (cfs_count q) of
       None \<Rightarrow> (None, s)
     | Some idx \<Rightarrow>
         let tcb = cfs_tasks q idx;
             q = q\<lparr>cfs_tasks := (shift_left (cfs_tasks q) idx (cfs_count q))(cfs_count q - 1 := None),
                   cfs_count := cfs_count q - 1\<rparr>;
             (q, s) = (case tcb of
               Some t \<Rightarrow> (q\<lparr>cfs_weight_sum := saturating_sub (cfs_weight_sum q)
                             (ucast (cfs_weight (tcb_priority (sc_heap s t))))\<rparr>, tcb_put s t clear_queued)
             | None \<Rightarrow> (q, s))
         in (tcb, rq_put s c (\<lambda>rq. rq\<lparr>rq_cfs := q, rq_nr_running := rq_nr_running rq - 1\<rparr>)))"

definition run_queue :: "Sched \<Rightarrow> CpuId \<Rightarrow> nat option" where
  "run_queue s cpu =
    (if unat cpu < MAX_CPUS \<and> RUNQUEUE_INITIALIZED s \<and> cpu < RUNQUEUE_NR_CPUS s then Some (unat cpu) else None)"

definition init_percpu :: "Sched \<Rightarrow> nat \<Rightarrow> Sched" where
  "init_percpu s nr_cpus =
    (let configured_cpus = min nr_cpus MAX_CPUS in
     s\<lparr>sc_rq := (\<lambda>i. if i < configured_cpus then PerCpuRunQueue_new (of_nat i) else sc_rq s i),
       RUNQUEUE_NR_CPUS := of_nat configured_cpus, RUNQUEUE_INITIALIZED := True\<rparr>)"

definition deadline_timer_init :: "Sched \<Rightarrow> nat \<Rightarrow> Sched" where
  "deadline_timer_init s nr_cpus =
    s\<lparr>sc_dl := (\<lambda>i. if i < min nr_cpus MAX_CPUS then DeadlineQueue_new else sc_dl s i)\<rparr>"

subsection \<open>\<open>pick_next.rs\<close>\<close>

definition MAX_PICK_SKIP_SCAN :: nat where "MAX_PICK_SKIP_SCAN = MAX_TASKS_PER_CPU + 256 + 32"

datatype PickResult = KeepRunning | Switch ptr | GoIdle

primrec pick_scan :: "nat \<Rightarrow> Sched \<Rightarrow> nat \<Rightarrow> ptr option \<Rightarrow> (PickResult \<times> Sched) option" where
  "pick_scan 0 s c current = Some (GoIdle, s)"
| "pick_scan (Suc n) s c current = do {
     (r, s) \<leftarrow> PerCpuRunQueue_pick_next s c;
     (case r of
        None \<Rightarrow> Some (GoIdle, s)
      | Some next \<Rightarrow>
          let state = task_state (sc_heap s next);
              idle_running = (state = Running \<and> is_idle (sc_heap s next)) in
          if state \<noteq> Runnable \<and> \<not> idle_running
          then pick_scan n (s\<lparr>PICK_SKIP_INELIGIBLE := PICK_SKIP_INELIGIBLE s + 1\<rparr>) c current
          else if current = Some next
          then Some (KeepRunning, s\<lparr>PICK_SAME_CURRENT := PICK_SAME_CURRENT s + 1\<rparr>)
          else Some (Switch next, s))
   }"

text \<open>The current real-time thread gives way to a waiting one of higher priority.\<close>

definition preempt_current :: "u64 \<Rightarrow> Sched \<Rightarrow> nat \<Rightarrow> ptr \<Rightarrow> (PickResult \<times> Sched) option" where
  "preempt_current now s c cur = do {
     let s = s\<lparr>PICK_RT_RT := PICK_RT_RT s + 1\<rparr>;
     let s = tcb_put s cur (\<lambda>t. set_task_state t Runnable);
     (_, s) \<leftarrow> PerCpuRunQueue_enqueue now s c cur;
     (next, s) \<leftarrow> dequeue_highest_rt s c;
     (case next of Some t \<Rightarrow> Some (Switch t, s) | None \<Rightarrow> Some (KeepRunning, s))
   }"

text \<open>\<open>preempt_disabled\<close> is the answer of \<open>PreemptGuard::is_preempted_disabled\<close>, asserted on entry.\<close>

definition pick_next_task :: "bool \<Rightarrow> u64 \<Rightarrow> Sched \<Rightarrow> nat \<Rightarrow> ptr option \<Rightarrow> (PickResult \<times> Sched) option" where
  "pick_next_task preempt_disabled now s c current =
    (if \<not> preempt_disabled then None else
     let s = s\<lparr>PICK_NEXT_TOTAL := PICK_NEXT_TOTAL s + 1\<rparr> in
     case current of
       None \<Rightarrow> pick_scan MAX_PICK_SKIP_SCAN s c current
     | Some cur \<Rightarrow>
         if task_state (sc_heap s cur) = Running
            \<and> (tcb_policy (sc_heap s cur) = Fifo \<or> tcb_policy (sc_heap s cur) = RoundRobin)
         then (case rt_bitmap_highest_prio (sc_rq s c) of
                 Some best_prio \<Rightarrow>
                   if best_prio < unat (tcb_priority (sc_heap s cur)) then preempt_current now s c cur
                   else Some (KeepRunning, s\<lparr>PICK_SAME_CURRENT := PICK_SAME_CURRENT s + 1\<rparr>)
               | None \<Rightarrow> Some (KeepRunning, s\<lparr>PICK_SAME_CURRENT := PICK_SAME_CURRENT s + 1\<rparr>))
         else pick_scan MAX_PICK_SKIP_SCAN s c current)"

definition account_time :: "ThreadControlBlock \<Rightarrow> u64 \<Rightarrow> ThreadControlBlock" where
  "account_time tcb delta_ns =
    (let weight = cfs_weight (tcb_priority tcb) in
     case tcb_policy tcb of
       NormalPolicy \<Rightarrow> advance_vruntime tcb delta_ns weight
     | Batch \<Rightarrow> advance_vruntime tcb delta_ns weight
     | _ \<Rightarrow> tcb)"

end
