(* ===== verification/Sched_Order.thy ===== *)
theory Sched_Order
  imports Sched_RunQueue
begin

text \<open>
  What the run queues promise.  The view of one CPU is its real-time levels, its deadline list and
  its fair list; the order of service is their concatenation.  The operations of
  \<open>PerCpuRunQueue\<close> are shown to insert into, delete from and pop the head of this order, and to keep
  the invariant that a thread is in exactly one queue of the machine while its queued bit is set.
\<close>

section \<open>Views\<close>

type_synonym view = "(nat \<Rightarrow> ptr list) \<times> ptr list \<times> ptr list"

definition service_order :: "view \<Rightarrow> ptr list" where
  "service_order v = (case v of (L, D, C) \<Rightarrow> concat (map L [0..<100]) @ D @ C)"

definition queues_rep :: "Sched \<Rightarrow> nat \<Rightarrow> view \<Rightarrow> bool" where
  "queues_rep s c v = (case v of (L, D, C) \<Rightarrow>
     rt_holds (rq_rt (sc_rq s c)) L
     \<and> dl_holds (sc_heap s) (sc_dl s c) D \<and> sorted (map (deadline_in (sc_heap s)) D)
     \<and> cfs_holds (sc_heap s) (rq_cfs (sc_rq s c)) C
     \<and> (\<forall>p. \<forall>t \<in> set (L p). tcb_policy (sc_heap s t) \<in> {Fifo, RoundRobin} \<and> unat (tcb_priority (sc_heap s t)) = p)
     \<and> (\<forall>t \<in> set D. tcb_policy (sc_heap s t) = Deadline)
     \<and> (\<forall>t \<in> set C. tcb_policy (sc_heap s t) \<in> {NormalPolicy, Batch})
     \<and> rq_cpu (sc_rq s c) = of_nat c \<and> c < MAX_CPUS)"

definition rq_rep :: "Sched \<Rightarrow> nat \<Rightarrow> view \<Rightarrow> bool" where
  "rq_rep s c v = (queues_rep s c v \<and> unat (rq_nr_running (sc_rq s c)) = length (service_order v))"

text \<open>
  The invariant of the machine with CPUs \<open>0..<n\<close>: every queue is represented, no thread is queued
  twice, and the queued bit tells whether a thread is in some queue.
\<close>

definition sched_rep :: "Sched \<Rightarrow> nat \<Rightarrow> (nat \<Rightarrow> view) \<Rightarrow> bool" where
  "sched_rep s n V =
    ((\<forall>c < n. rq_rep s c (V c) \<and> distinct (service_order (V c)))
     \<and> (\<forall>c < n. \<forall>c' < n. c \<noteq> c' \<longrightarrow> set (service_order (V c)) \<inter> set (service_order (V c')) = {})
     \<and> (\<forall>t. is_queued (sc_heap s t) = (\<exists>c < n. t \<in> set (service_order (V c)))))"

definition sched_attrs :: "ThreadControlBlock \<Rightarrow> SchedPolicy \<times> Priority \<times> u64 \<times> u64" where
  "sched_attrs t = (tcb_policy t, tcb_priority t, tcb_vruntime t, tcb_deadline_abs t)"

text \<open>The part of it on which the representation of a queue depends.\<close>

definition queue_attrs :: "ThreadControlBlock \<Rightarrow> SchedPolicy \<times> Priority \<times> u64" where
  "queue_attrs t = (tcb_policy t, tcb_priority t, tcb_deadline_abs t)"

lemma queue_attrs_of: "sched_attrs t = sched_attrs u \<Longrightarrow> queue_attrs t = queue_attrs u"
  by (simp add: sched_attrs_def queue_attrs_def)

section \<open>Lists of levels\<close>

lemma concat_levels_split:
  "p < 100 \<Longrightarrow> concat (map L [0..<100]) = concat (map L [0..<p]) @ L p @ concat (map L [Suc p..<100])"
proof -
  assume "p < 100"
  then have "[0..<100] = [0..<p] @ p # [Suc p..<100]"
    using upt_add_eq_append [of 0 p "100 - p"] by (simp add: upt_conv_Cons)
  then show ?thesis by simp
qed

lemma set_service_order:
  "set (service_order (L, D, C)) = (\<Union>p \<in> {..<100}. set (L p)) \<union> set D \<union> set C"
  by (auto simp: service_order_def)

lemma mset_level_update:
  assumes "p < 100"
  shows "mset (concat (map (L(p := xs)) [0..<100])) + mset (L p) = mset (concat (map L [0..<100])) + mset xs"
proof -
  have "map (L(p := xs)) [0..<p] = map L [0..<p]" "map (L(p := xs)) [Suc p..<100] = map L [Suc p..<100]" by simp_all
  then show ?thesis unfolding concat_levels_split [OF assms] by simp
qed

lemma concat_levels_pop:
  assumes "L p = t # ts" "\<forall>q < p. L q = []" "p < 100"
  shows "concat (map L [0..<100]) = t # concat (map (L(p := ts)) [0..<100])"
proof -
  have "concat (map L [0..<p]) = []" using assms(2) by simp
  moreover have "map (L(p := ts)) [0..<p] = map L [0..<p]" "map (L(p := ts)) [Suc p..<100] = map L [Suc p..<100]" by simp_all
  ultimately show ?thesis unfolding concat_levels_split [OF assms(3)] by (simp only: assms(1)) simp
qed

lemma length_levels: "length (concat (map L [0..<100])) = rt_total L"
proof -
  have "sum_list (map (length \<circ> L) [0..<100]) = sum (length \<circ> L) (set [0..<100])"
    by (intro sum_list_distinct_conv_sum_set) simp
  then show ?thesis by (simp add: length_concat rt_total_def atLeast0LessThan)
qed

section \<open>Frames\<close>

lemma deadline_in_cong: "(\<And>t. t \<in> set D \<Longrightarrow> tcb_deadline_abs (h' t) = tcb_deadline_abs (h t))
    \<Longrightarrow> map (deadline_in h') D = map (deadline_in h) D"
  by (simp add: deadline_in_def)

lemma vruntime_in_cong: "(\<And>t. t \<in> set C \<Longrightarrow> tcb_vruntime (h' t) = tcb_vruntime (h t))
    \<Longrightarrow> map (vruntime_in h') C = map (vruntime_in h) C"
  by (simp add: vruntime_in_def)

lemma cfs_holds_cong:
  assumes "\<And>t. t \<in> set C \<Longrightarrow> tcb_priority (h' t) = tcb_priority (h t)"
  shows "cfs_holds h' q C = cfs_holds h q C"
proof -
  have "map (weight_of h') C = map (weight_of h) C" using assms by (simp add: weight_of_def)
  then show ?thesis unfolding cfs_holds_def by (simp only:)
qed

lemma dl_holds_cong: "dl_holds h' q D = dl_holds h q D"
  by (simp add: dl_holds_def)

lemma queues_rep_weak_cong:
  assumes r: "queues_rep s c v"
    and q: "rq_rt (sc_rq s' c) = rq_rt (sc_rq s c)" "rq_cfs (sc_rq s' c) = rq_cfs (sc_rq s c)"
      "rq_cpu (sc_rq s' c) = rq_cpu (sc_rq s c)" "sc_dl s' c = sc_dl s c"
    and h: "\<And>t. t \<in> set (service_order v) \<Longrightarrow> queue_attrs (sc_heap s' t) = queue_attrs (sc_heap s t)"
  shows "queues_rep s' c v"
proof -
  obtain L D C where v: "v = (L, D, C)" by (cases v)
  have lv: "\<forall>p \<ge> 100. L p = []" using r by (simp add: v queues_rep_def rt_holds_def)
  have m: "t \<in> set (service_order v)" if "t \<in> set (L p) \<or> t \<in> set D \<or> t \<in> set C" for t p
    using that lv unfolding v set_service_order by (metis UN_I Un_iff lessThan_iff list.set_cases leI list.discI)
  have at: "tcb_policy (sc_heap s' t) = tcb_policy (sc_heap s t)" "tcb_priority (sc_heap s' t) = tcb_priority (sc_heap s t)"
      "tcb_deadline_abs (sc_heap s' t) = tcb_deadline_abs (sc_heap s t)"
    if "t \<in> set (L p) \<or> t \<in> set D \<or> t \<in> set C" for t p
    using h [OF m [OF that]] by (simp_all add: queue_attrs_def)
  have "sorted (map (deadline_in (sc_heap s')) D) = sorted (map (deadline_in (sc_heap s)) D)"
    by (rule arg_cong [OF deadline_in_cong]) (use at in blast)
  moreover have "cfs_holds (sc_heap s') q C = cfs_holds (sc_heap s) q C" for q
    by (rule cfs_holds_cong) (use at in blast)
  moreover have "\<forall>p. \<forall>t \<in> set (L p). tcb_policy (sc_heap s' t) \<in> {Fifo, RoundRobin} \<and> unat (tcb_priority (sc_heap s' t)) = p"
    using r at(1,2) by (simp add: v queues_rep_def) metis
  moreover have "\<forall>t \<in> set D. tcb_policy (sc_heap s' t) = Deadline" "\<forall>t \<in> set C. tcb_policy (sc_heap s' t) \<in> {NormalPolicy, Batch}"
    using r at(1) by (simp_all add: v queues_rep_def)
  moreover have "dl_holds (sc_heap s') (sc_dl s c) D = dl_holds (sc_heap s) (sc_dl s c) D" by (rule dl_holds_cong)
  ultimately show ?thesis using r q unfolding v queues_rep_def prod.case by simp
qed

lemma queues_rep_cong:
  assumes r: "queues_rep s c v"
    and q: "rq_rt (sc_rq s' c) = rq_rt (sc_rq s c)" "rq_cfs (sc_rq s' c) = rq_cfs (sc_rq s c)"
      "rq_cpu (sc_rq s' c) = rq_cpu (sc_rq s c)" "sc_dl s' c = sc_dl s c"
    and h: "\<And>t. t \<in> set (service_order v) \<Longrightarrow> sched_attrs (sc_heap s' t) = sched_attrs (sc_heap s t)"
  shows "queues_rep s' c v"
  by (rule queues_rep_weak_cong [OF r q queue_attrs_of]) (rule h)

text \<open>An operation on CPU \<open>c\<close> that changes only the queued bit and the key of thread \<open>t\<close>.\<close>

lemma sched_rep_step:
  assumes r: "sched_rep s n V" and c: "c < n" and v: "rq_rep s' c v" "distinct (service_order v)"
    and q: "\<And>c'. c' \<noteq> c \<Longrightarrow> sc_rq s' c' = sc_rq s c' \<and> sc_dl s' c' = sc_dl s c'"
    and h: "\<And>u. u \<noteq> t \<Longrightarrow> sc_heap s' u = sc_heap s u"
    and t: "is_queued (sc_heap s' t) = (t \<in> set (service_order v))"
      "\<And>c'. c' < n \<Longrightarrow> c' \<noteq> c \<Longrightarrow> t \<notin> set (service_order (V c'))"
    and m: "\<And>u. u \<noteq> t \<Longrightarrow> u \<in> set (service_order v) \<longleftrightarrow> u \<in> set (service_order (V c))"
  shows "sched_rep s' n (V(c := v))"
proof -
  have d: "set (service_order (V a)) \<inter> set (service_order (V b)) = {}" if "a < n" "b < n" "a \<noteq> b" for a b
    using r that by (simp add: sched_rep_def)
  have other: "rq_rep s' c' (V c')" if "c' < n" "c' \<noteq> c" for c'
  proof -
    have "rq_rep s c' (V c')" using r that by (simp add: sched_rep_def)
    moreover have "queues_rep s' c' (V c')" if "queues_rep s c' (V c')"
    proof (rule queues_rep_cong [OF that])
      fix u assume "u \<in> set (service_order (V c'))"
      then have "u \<noteq> t" using t(2) [OF \<open>c' < n\<close> \<open>c' \<noteq> c\<close>] by auto
      then show "sched_attrs (sc_heap s' u) = sched_attrs (sc_heap s u)" by (simp add: h)
    qed (use q \<open>c' \<noteq> c\<close> in auto)
    ultimately show ?thesis using q [OF that(2)] by (simp add: rq_rep_def)
  qed
  have dis: "set (service_order v) \<inter> set (service_order (V c')) = {}" if "c' < n" "c' \<noteq> c" for c'
  proof -
    have "u \<notin> set (service_order (V c'))" if "u \<in> set (service_order v)" for u
      using that m [of u] t(2) [OF \<open>c' < n\<close> \<open>c' \<noteq> c\<close>] d [OF c \<open>c' < n\<close>] \<open>c' \<noteq> c\<close> by (cases "u = t") auto
    then show ?thesis by blast
  qed
  have bit: "is_queued (sc_heap s' u) = (\<exists>c' < n. u \<in> set (service_order ((V(c := v)) c')))" for u
  proof (cases "u = t")
    case True
    then show ?thesis using t c by auto
  next
    case False
    have "is_queued (sc_heap s' u) = (\<exists>c' < n. u \<in> set (service_order (V c')))"
      using r h [OF False] by (simp add: sched_rep_def)
    also have "\<dots> = (\<exists>c' < n. u \<in> set (service_order ((V(c := v)) c')))"
      using m [OF False] c by auto
    finally show ?thesis .
  qed
  show ?thesis
    unfolding sched_rep_def
  proof (intro conjI allI impI)
    fix a assume "a < n"
    then show "rq_rep s' a ((V(c := v)) a)" using v(1) other by simp
    show "distinct (service_order ((V(c := v)) a))" using v(2) r \<open>a < n\<close> by (simp add: sched_rep_def)
  next
    fix a b assume ab: "a < n" "b < n" "a \<noteq> b"
    then show "set (service_order ((V(c := v)) a)) \<inter> set (service_order ((V(c := v)) b)) = {}"
      using dis [of a] dis [of b] d [of a b] by (cases "a = c"; cases "b = c") auto
  next
    fix u show "is_queued (sc_heap s' u) = (\<exists>a < n. u \<in> set (service_order ((V(c := v)) a)))" by (rule bit)
  qed
qed

section \<open>Enqueue\<close>

definition has_room :: "heap \<Rightarrow> ptr \<Rightarrow> view \<Rightarrow> bool" where
  "has_room h t v = (case v of (L, D, C) \<Rightarrow> (case tcb_policy (h t) of
     Fifo \<Rightarrow> rt_total L < RT_QUEUE_CAPACITY
   | RoundRobin \<Rightarrow> rt_total L < RT_QUEUE_CAPACITY
   | Deadline \<Rightarrow> length D < MAX_DL_TASKS
   | NormalPolicy \<Rightarrow> length C < MAX_TASKS_PER_CPU
   | Batch \<Rightarrow> length C < MAX_TASKS_PER_CPU
   | IdlePolicy \<Rightarrow> False))"

definition view_insert :: "heap \<Rightarrow> ptr \<Rightarrow> view \<Rightarrow> view" where
  "view_insert h t v = (case v of (L, D, C) \<Rightarrow>
     let p = unat (tcb_priority (h t)) in (case tcb_policy (h t) of
     Fifo \<Rightarrow> (L(p := L p @ [t]), D, C)
   | RoundRobin \<Rightarrow> (L(p := L p @ [t]), D, C)
   | Deadline \<Rightarrow> (L, insert_after (deadline_in h) t D, C)
   | NormalPolicy \<Rightarrow> (L, D, bisect_insert h t C)
   | Batch \<Rightarrow> (L, D, bisect_insert h t C)
   | IdlePolicy \<Rightarrow> (L, D, C)))"

definition rt_prio_ok :: "ThreadControlBlock \<Rightarrow> bool" where
  "rt_prio_ok t = (tcb_policy t \<in> {Fifo, RoundRobin} \<longrightarrow> unat (tcb_priority t) < RT_LEVELS)"

text \<open>What an operation on CPU \<open>c\<close> and thread \<open>t\<close> leaves alone.\<close>

definition rq_frame :: "Sched \<Rightarrow> Sched \<Rightarrow> nat \<Rightarrow> ptr \<Rightarrow> bool" where
  "rq_frame s s' c t =
    ((\<forall>c'. c' \<noteq> c \<longrightarrow> sc_rq s' c' = sc_rq s c' \<and> sc_dl s' c' = sc_dl s c')
     \<and> (\<forall>u. u \<noteq> t \<longrightarrow> sc_heap s' u = sc_heap s u)
     \<and> rq_idle_thread (sc_rq s' c) = rq_idle_thread (sc_rq s c)
     \<and> RUNQUEUE_INITIALIZED s' = RUNQUEUE_INITIALIZED s \<and> RUNQUEUE_NR_CPUS s' = RUNQUEUE_NR_CPUS s)"

lemma view_insert_mset:
  assumes "rt_prio_ok (h t)" "tcb_policy (h t) \<noteq> IdlePolicy"
  shows "mset (service_order (view_insert h t v)) = add_mset t (mset (service_order v))"
proof -
  obtain L D C where v: "v = (L, D, C)" by (cases v)
  have "mset (concat (map (L(p := L p @ [t])) [0..<100])) = add_mset t (mset (concat (map L [0..<100])))"
    if "p < 100" for p
    using mset_level_update [OF that, of L "L p @ [t]"] by simp
  then show ?thesis
    using assms by (cases "tcb_policy (h t)") (simp_all add: v view_insert_def service_order_def rt_prio_ok_def Let_def)
qed

lemma unat_cpu: "c < MAX_CPUS \<Longrightarrow> unat (of_nat c :: u32) = c"
  by (simp add: unat_of_nat take_bit_nat_eq_self)

lemma queues_rep_dl_index: "queues_rep s c v \<Longrightarrow> dl_index (sc_rq s c) = Some c"
  by (auto simp: queues_rep_def dl_index_def unat_cpu)

definition enqueued_rep :: "Sched \<Rightarrow> Sched \<Rightarrow> nat \<Rightarrow> ptr \<Rightarrow> view \<Rightarrow> bool" where
  "enqueued_rep s s' c t v =
    (queues_rep s' c (if has_room (sc_heap s) t v then view_insert (sc_heap s') t v else v)
     \<and> rq_frame s s' c t \<and> rq_nr_running (sc_rq s' c) = rq_nr_running (sc_rq s c)
     \<and> tcb_sched_state (sc_heap s' t) = tcb_sched_state (sc_heap s t)
     \<and> tcb_policy (sc_heap s' t) = tcb_policy (sc_heap s t) \<and> tcb_priority (sc_heap s' t) = tcb_priority (sc_heap s t)
     \<and> tcb_vruntime (sc_heap s' t) = tcb_vruntime (sc_heap s t))"

lemma enqueued_repI:
  assumes "(if has_room (sc_heap s) t v then view_insert (sc_heap s') t v else v) = w" "queues_rep s' c w"
    "rq_frame s s' c t" "rq_nr_running (sc_rq s' c) = rq_nr_running (sc_rq s c)"
    "tcb_sched_state (sc_heap s' t) = tcb_sched_state (sc_heap s t)"
    "tcb_policy (sc_heap s' t) = tcb_policy (sc_heap s t)" "tcb_priority (sc_heap s' t) = tcb_priority (sc_heap s t)"
    "tcb_vruntime (sc_heap s' t) = tcb_vruntime (sc_heap s t)"
  shows "enqueued_rep s s' c t v"
  using assms by (simp only: enqueued_rep_def simp_thms)

lemma enqueue_rt_class:
  assumes r: "queues_rep s c v" and pol: "tcb_policy (sc_heap s t) \<in> {Fifo, RoundRobin}" and p: "rt_prio_ok (sc_heap s t)"
  shows "\<exists>s'. enqueue_by_policy now s c t = Some (has_room (sc_heap s) t v, s') \<and> enqueued_rep s s' c t v"
proof -
  obtain L D C where v: "v = (L, D, C)" by (cases v)
  have rt: "rt_holds (rq_rt (sc_rq s c)) L" using r by (simp add: queues_rep_def v)
  define pr where "pr = unat (tcb_priority (sc_heap s t))"
  have pr: "pr < 100" using pol p by (auto simp: pr_def rt_prio_ok_def)
  have room: "has_room (sc_heap s) t v \<longleftrightarrow> rt_total L < 256" using pol by (auto simp: v has_room_def)
  obtain rt' where rt': "RtRunQueue_enqueue (sc_heap s) (rq_rt (sc_rq s c)) t = Some (rt_total L < 256, rt')"
      "rt_holds rt' (if rt_total L < 256 then L(pr := L pr @ [t]) else L)"
    using rt_enqueue_ok [where h = "sc_heap s" and t = t, OF rt pr_def pr] rt_enqueue_at_capacity [OF rt] rt
    by (cases "rt_total L < 256") (auto simp: not_less)
  define s' where "s' = rq_put s c (\<lambda>rq. rq\<lparr>rq_rt := rt'\<rparr>)"
  have "enqueue_by_policy now s c t = Some (has_room (sc_heap s) t v, s')"
    using pol rt'(1) by (auto simp: enqueue_by_policy_def s'_def room)
  moreover have "enqueued_rep s s' c t v"
  proof (rule enqueued_repI)
    show "(if has_room (sc_heap s) t v then view_insert (sc_heap s') t v else v)
        = (if rt_total L < 256 then L(pr := L pr @ [t]) else L, D, C)"
      unfolding room using pol by (auto simp: view_insert_def v s'_def pr_def Let_def)
    show "queues_rep s' c (if rt_total L < 256 then L(pr := L pr @ [t]) else L, D, C)"
      using r rt'(2) pol by (auto simp: queues_rep_def v s'_def pr_def)
  qed (simp_all add: rq_frame_def s'_def)
  ultimately show ?thesis by blast
qed

lemma enqueue_cfs_class:
  assumes r: "queues_rep s c v" and pol: "tcb_policy (sc_heap s t) \<in> {NormalPolicy, Batch}"
  shows "\<exists>s'. enqueue_by_policy now s c t = Some (has_room (sc_heap s) t v, s') \<and> enqueued_rep s s' c t v"
proof -
  obtain L D C where v: "v = (L, D, C)" by (cases v)
  have cf: "cfs_holds (sc_heap s) (rq_cfs (sc_rq s c)) C" using r by (simp add: queues_rep_def v)
  have room: "has_room (sc_heap s) t v \<longleftrightarrow> length C < 512" using pol by (auto simp: v has_room_def)
  define C' where "C' = (if length C < 512 then bisect_insert (sc_heap s) t C else C)"
  obtain q where q: "CfsRunQueue_enqueue (sc_heap s) (rq_cfs (sc_rq s c)) t = (length C < 512, q)"
      "cfs_holds (sc_heap s) q C'"
    using cfs_enqueue_ok [OF cf, of t] cfs_enqueue_full [OF cf, of t] cf
    by (cases "length C < 512") (auto simp: not_less C'_def)
  define s' where "s' = rq_put s c (\<lambda>rq. rq\<lparr>rq_cfs := q\<rparr>)"
  have "enqueue_by_policy now s c t = Some (has_room (sc_heap s) t v, s')"
    using pol q(1) by (auto simp: enqueue_by_policy_def s'_def room)
  moreover have "enqueued_rep s s' c t v"
  proof (rule enqueued_repI)
    show "(if has_room (sc_heap s) t v then view_insert (sc_heap s') t v else v) = (L, D, C')"
      unfolding room using pol by (auto simp: view_insert_def v s'_def C'_def)
    show "queues_rep s' c (L, D, C')"
      using r q(2) pol by (auto simp: queues_rep_def v s'_def C'_def)
  qed (simp_all add: rq_frame_def s'_def)
  ultimately show ?thesis by blast
qed

lemma enqueue_dl_class:
  assumes r: "queues_rep s c v" and pol: "tcb_policy (sc_heap s t) = Deadline" and t: "t \<notin> set (service_order v)"
  shows "\<exists>s'. enqueue_by_policy now s c t = Some (has_room (sc_heap s) t v, s') \<and> enqueued_rep s s' c t v"
proof -
  obtain L D C where v: "v = (L, D, C)" by (cases v)
  define h where "h = (sc_heap s)(t := refresh_deadline now (sc_heap s t))"
  have rh: "queues_rep (s\<lparr>sc_heap := h\<rparr>) c v"
    by (rule queues_rep_cong [OF r]) (use t in \<open>auto simp: h_def\<close>)
  have dl: "dl_holds h (sc_dl s c) D" "sorted (map (deadline_in h) D)"
    using rh by (simp_all add: queues_rep_def v)
  have room: "has_room (sc_heap s) t v \<longleftrightarrow> length D < 64" using pol by (auto simp: v has_room_def)
  define D' where "D' = (if length D < 64 then insert_after (deadline_in h) t D else D)"
  obtain q where q: "DeadlineQueue_insert h (sc_dl s c) t = (length D < 64, q)" "dl_holds h q D'"
    using dl_insert_ok [OF dl(1) _ dl(2), of t] dl_insert_full [OF dl(1), of t] dl(1)
    by (cases "length D < 64") (auto simp: not_less D'_def)
  define g where "g = (if length D < 64 then (sc_dlg s)\<lparr>DL_ENQUEUES := DL_ENQUEUES (sc_dlg s) + 1\<rparr> else sc_dlg s)"
  define s' where "s' = s\<lparr>sc_dl := (sc_dl s)(c := q), sc_dlg := g, sc_heap := h\<rparr>"
  have "dl_enqueue now (sc_heap s) (sc_dlg s) (sc_dl s c) t = (length D < 64, q, g, h)"
    using q(1) by (cases "length D < 64") (simp_all add: dl_enqueue_def h_def [symmetric] g_def)
  then have "enqueue_by_policy now s c t = Some (has_room (sc_heap s) t v, s')"
    using pol queues_rep_dl_index [OF r] by (simp add: enqueue_by_policy_def s'_def room)
  moreover have "enqueued_rep s s' c t v"
  proof (rule enqueued_repI)
    have h': "sc_heap s' = h" "tcb_policy (h t) = Deadline" using pol by (simp_all add: s'_def h_def refresh_deadline_def)
    show "(if has_room (sc_heap s) t v then view_insert (sc_heap s') t v else v) = (L, D', C)"
      unfolding room h'(1) using h'(2) by (simp add: view_insert_def v D'_def)
    have "sorted (map (deadline_in h) D')" using dl(2) by (simp add: D'_def sorted_insert_after)
    then show "queues_rep s' c (L, D', C)"
      using rh q(2) h' by (auto simp: queues_rep_def v s'_def D'_def)
  qed (simp_all add: rq_frame_def s'_def h_def refresh_deadline_def)
  ultimately show ?thesis by blast
qed

lemma enqueue_by_policy_ok:
  assumes r: "queues_rep s c v" and t: "t \<notin> set (service_order v)" "rt_prio_ok (sc_heap s t)"
  shows "\<exists>s'. enqueue_by_policy now s c t = Some (has_room (sc_heap s) t v, s') \<and> enqueued_rep s s' c t v"
proof (cases "tcb_policy (sc_heap s t) = IdlePolicy")
  case True
  then show ?thesis
    using r by (auto simp: enqueue_by_policy_def enqueued_rep_def has_room_def rq_frame_def split: prod.splits)
next
  case False
  then consider "tcb_policy (sc_heap s t) \<in> {Fifo, RoundRobin}" | "tcb_policy (sc_heap s t) \<in> {NormalPolicy, Batch}"
    | "tcb_policy (sc_heap s t) = Deadline" by (cases "tcb_policy (sc_heap s t)") auto
  then show ?thesis
    using enqueue_rt_class [OF r _ t(2)] enqueue_cfs_class [OF r] enqueue_dl_class [OF r _ t(1)] by cases blast+
qed

lemma service_bound: "queues_rep s c v \<Longrightarrow> length (service_order v) \<le> 832"
  using rt_holds_total by (auto simp: queues_rep_def service_order_def dl_holds_def cfs_holds_def length_levels
      simp del: length_concat) fastforce

lemma queues_rep_stats:
  assumes "queues_rep s c v" "\<And>rq. rq_rt (f rq) = rq_rt rq \<and> rq_cfs (f rq) = rq_cfs rq \<and> rq_cpu (f rq) = rq_cpu rq"
  shows "queues_rep (rq_put s c f) c v"
  by (rule queues_rep_cong [OF assms(1)]) (simp_all add: assms(2))

lemma sched_rep_rq: "sched_rep s n V \<Longrightarrow> c < n \<Longrightarrow> rq_rep s c (V c) \<and> distinct (service_order (V c))"
  by (simp add: sched_rep_def)

lemma not_queued: "sched_rep s n V \<Longrightarrow> c < n \<Longrightarrow> \<not> is_queued (sc_heap s t) \<Longrightarrow> t \<notin> set (service_order (V c))"
  by (auto simp: sched_rep_def)

lemma mset_insert_facts:
  assumes "mset xs = add_mset t (mset ys)" "distinct ys" "t \<notin> set ys"
  shows "distinct xs" "length xs = Suc (length ys)" "t \<in> set xs" "u \<noteq> t \<Longrightarrow> u \<in> set xs \<longleftrightarrow> u \<in> set ys"
proof -
  have m: "mset xs = mset (t # ys)" using assms(1) by simp
  show "distinct xs" using mset_eq_imp_distinct_iff [OF m] assms by simp
  show "length xs = Suc (length ys)" using mset_eq_length [OF m] by simp
  have "set xs = set (t # ys)" using m by (rule mset_eq_setD)
  then show "t \<in> set xs" "u \<noteq> t \<Longrightarrow> u \<in> set xs \<longleftrightarrow> u \<in> set ys" by auto
qed

definition accepts :: "Sched \<Rightarrow> ptr \<Rightarrow> view \<Rightarrow> bool" where
  "accepts s t v = (task_state (sc_heap s t) = Runnable \<and> \<not> is_queued (sc_heap s t) \<and> has_room (sc_heap s) t v)"

lemma has_room_cong: "tcb_policy (h' t) = tcb_policy (h t) \<Longrightarrow> has_room h' t v = has_room h t v"
  by (simp add: has_room_def)

lemma task_state_cong: "tcb_sched_state t = tcb_sched_state u \<Longrightarrow> task_state t = task_state u \<and> is_queued t = is_queued u"
  by (simp add: task_state_def is_queued_def)

lemma rq_frame_trans: "rq_frame s s1 c t \<Longrightarrow> rq_frame s1 s2 c t \<Longrightarrow> rq_frame s s2 c t"
  by (simp add: rq_frame_def)

lemma enqueue_accepted:
  assumes r: "sched_rep s n V" and c: "c < n" and t: "\<not> is_queued (sc_heap s t)" "rt_prio_ok (sc_heap s t)"
    and s2: "enqueued_rep (tcb_put s t mark_queued) s2 c t (V c)" "has_room (sc_heap s) t (V c)"
  shows "sched_rep (rq_put s2 c (\<lambda>rq. update_load_avg (rq\<lparr>rq_nr_running := rq_nr_running (sc_rq s2 c) + 1\<rparr>) k)) n
    (V(c := view_insert (sc_heap s2) t (V c)))" (is "sched_rep ?s n (V(c := ?v))")
proof -
  note rc = sched_rep_rq [OF r c]
  have room: "has_room (sc_heap (tcb_put s t mark_queued)) t (V c)"
    using s2(2) has_room_cong [of "sc_heap (tcb_put s t mark_queued)" t "sc_heap s"] by simp
  then have q2: "queues_rep s2 c ?v" and fr: "rq_frame (tcb_put s t mark_queued) s2 c t"
    and nr: "rq_nr_running (sc_rq s2 c) = rq_nr_running (sc_rq s c)"
    and st: "tcb_sched_state (sc_heap s2 t) = tcb_sched_state (mark_queued (sc_heap s t))"
    and at: "tcb_policy (sc_heap s2 t) = tcb_policy (sc_heap s t)" "tcb_priority (sc_heap s2 t) = tcb_priority (sc_heap s t)"
    using s2(1) by (auto simp: enqueued_rep_def)
  have "tcb_policy (sc_heap s t) \<noteq> IdlePolicy" using s2(2) by (auto simp: has_room_def split: prod.splits)
  then have "mset (service_order ?v) = add_mset t (mset (service_order (V c)))"
    using t(2) at by (intro view_insert_mset) (simp_all add: rt_prio_ok_def)
  note f = mset_insert_facts [OF this conjunct2 [OF rc] not_queued [OF r c t(1)]]
  have "unat (rq_nr_running (sc_rq s c) + 1) = Suc (unat (rq_nr_running (sc_rq s c)))"
  proof -
    have "length (service_order (V c)) \<le> 832" by (rule service_bound [of s c]) (use rc in \<open>simp add: rq_rep_def\<close>)
    then have "unat (rq_nr_running (sc_rq s c)) \<le> 832" using rc by (simp add: rq_rep_def)
    then show ?thesis by (simp add: unat_word_ariths)
  qed
  then have rep: "rq_rep ?s c ?v"
    using queues_rep_stats [OF q2, of "\<lambda>rq. update_load_avg (rq\<lparr>rq_nr_running := rq_nr_running (sc_rq s2 c) + 1\<rparr>) k"] f(2) rc nr
    by (simp add: rq_rep_def update_load_avg_def)
  show ?thesis
  proof (rule sched_rep_step [OF r c rep f(1)])
    show "is_queued (sc_heap ?s t) = (t \<in> set (service_order ?v))"
      using task_state_cong [OF st] f(3) by simp
  qed (use fr not_queued [OF r _ t(1)] f(4) in \<open>auto simp: rq_frame_def\<close>)
qed

lemma enqueue_rejected:
  assumes r: "sched_rep s n V" and c: "c < n" and t: "\<not> is_queued (sc_heap s t)"
    and s2: "enqueued_rep (tcb_put s t mark_queued) s2 c t (V c)" "\<not> has_room (sc_heap s) t (V c)"
  shows "sched_rep (tcb_put s2 t clear_queued) n V" (is "sched_rep ?s n V")
proof -
  note rc = sched_rep_rq [OF r c]
  have room: "\<not> has_room (sc_heap (tcb_put s t mark_queued)) t (V c)"
    using s2(2) has_room_cong [of "sc_heap (tcb_put s t mark_queued)" t "sc_heap s"] by simp
  then have q2: "queues_rep s2 c (V c)" and fr: "rq_frame (tcb_put s t mark_queued) s2 c t"
    and nr: "rq_nr_running (sc_rq s2 c) = rq_nr_running (sc_rq s c)"
    using s2(1) by (auto simp: enqueued_rep_def)
  have "queues_rep ?s c (V c)"
    by (rule queues_rep_cong [OF q2]) (auto simp: sched_attrs_def)
  then have rep: "rq_rep ?s c (V c)" using rc nr by (simp add: rq_rep_def)
  have "sched_rep ?s n (V(c := V c))"
    by (rule sched_rep_step [OF r c rep conjunct2 [OF rc], where t = t])
      (use fr not_queued [OF r _ t] c in \<open>auto simp: rq_frame_def\<close>)
  then show ?thesis by simp
qed

lemma enqueue_ok:
  assumes r: "sched_rep s n V" and c: "c < n" and p: "rt_prio_ok (sc_heap s t)"
  shows "\<exists>s'. PerCpuRunQueue_enqueue now s c t = Some (accepts s t (V c), s')
    \<and> sched_rep s' n (if accepts s t (V c) then V(c := view_insert (sc_heap s') t (V c)) else V)
    \<and> rq_frame s s' c t \<and> task_state (sc_heap s' t) = task_state (sc_heap s t)
    \<and> tcb_policy (sc_heap s' t) = tcb_policy (sc_heap s t) \<and> tcb_priority (sc_heap s' t) = tcb_priority (sc_heap s t)
    \<and> tcb_vruntime (sc_heap s' t) = tcb_vruntime (sc_heap s t)"
proof (cases "task_state (sc_heap s t) = Runnable \<and> \<not> is_queued (sc_heap s t)")
  case False
  then have "PerCpuRunQueue_enqueue now s c t = Some (False, s)" "\<not> accepts s t (V c)"
    by (auto simp: PerCpuRunQueue_enqueue_def try_mark_queued_eq accepts_def)
  then show ?thesis using r by (auto simp: rq_frame_def)
next
  case True
  define s1 where "s1 = tcb_put s t mark_queued"
  have tn: "t \<notin> set (service_order (V c))" using not_queued [OF r c] True by blast
  have "queues_rep s1 c (V c)"
    by (rule queues_rep_cong [of s]) (use tn sched_rep_rq [OF r c] in \<open>auto simp: s1_def rq_rep_def\<close>)
  moreover have "rt_prio_ok (sc_heap s1 t)" using p by (simp add: s1_def rt_prio_ok_def)
  ultimately obtain s2 where s2: "enqueue_by_policy now s1 c t = Some (has_room (sc_heap s1) t (V c), s2)"
      "enqueued_rep s1 s2 c t (V c)"
    using enqueue_by_policy_ok [of s1 c "V c" t now] tn by blast
  have room: "has_room (sc_heap s1) t (V c) = has_room (sc_heap s) t (V c)" by (rule has_room_cong) (simp add: s1_def)
  have fr: "rq_frame s s2 c t" using s2(2) by (auto simp: enqueued_rep_def rq_frame_def s1_def)
  have st: "task_state (sc_heap s2 t) = task_state (sc_heap s t)"
    using s2(2) task_state_cong [of "sc_heap s2 t" "sc_heap s1 t"] by (simp add: enqueued_rep_def s1_def)
  have at: "tcb_policy (sc_heap s2 t) = tcb_policy (sc_heap s t)" "tcb_priority (sc_heap s2 t) = tcb_priority (sc_heap s t)"
      "tcb_vruntime (sc_heap s2 t) = tcb_vruntime (sc_heap s t)"
    using s2(2) by (simp_all add: enqueued_rep_def s1_def)
  show ?thesis
  proof (cases "has_room (sc_heap s) t (V c)")
    case ok: True
    define s' where "s' = rq_put s2 c (\<lambda>rq. update_load_avg (rq\<lparr>rq_nr_running := rq_nr_running (sc_rq s2 c) + 1\<rparr>)
      (ucast (rq_nr_running (sc_rq s2 c)) + 1))"
    have "PerCpuRunQueue_enqueue now s c t = Some (True, s')"
      using True s2(1) ok room by (simp add: PerCpuRunQueue_enqueue_def try_mark_queued_eq mark_queued_def s1_def s'_def Let_def)
    moreover have "sched_rep s' n (V(c := view_insert (sc_heap s2) t (V c)))"
      unfolding s'_def using True p s2(2) ok by (intro enqueue_accepted [OF r c]) (simp_all add: s1_def)
    moreover have "rq_frame s s' c t" using fr by (simp add: rq_frame_def s'_def update_load_avg_def)
    moreover have "sc_heap s' = sc_heap s2" by (simp add: s'_def)
    ultimately show ?thesis using True ok st at by (simp add: accepts_def)
  next
    case no: False
    define s' where "s' = tcb_put s2 t clear_queued"
    have "PerCpuRunQueue_enqueue now s c t = Some (False, s')"
      using True s2(1) no room by (simp add: PerCpuRunQueue_enqueue_def try_mark_queued_eq mark_queued_def s1_def s'_def)
    moreover have "sched_rep s' n V"
      unfolding s'_def using True s2(2) no by (intro enqueue_rejected [OF r c]) (simp_all add: s1_def)
    moreover have "rq_frame s s' c t" using fr by (simp add: rq_frame_def s'_def)
    moreover have "task_state (sc_heap s' t) = task_state (sc_heap s t)" "tcb_policy (sc_heap s' t) = tcb_policy (sc_heap s t)"
      "tcb_priority (sc_heap s' t) = tcb_priority (sc_heap s t)" "tcb_vruntime (sc_heap s' t) = tcb_vruntime (sc_heap s t)" using st at by (simp_all add: s'_def)
    ultimately show ?thesis using no by (simp add: accepts_def)
  qed
qed

end
