(* ===== verification/Sched_Pick.thy ===== *)
theory Sched_Pick
  imports Sched_Order
begin

text \<open>
  Removal and choice of the next thread.  \<open>PerCpuRunQueue::pick_next\<close> pops the head of the order of
  service, \<open>pick_next_task\<close> returns the first eligible thread of it, and both keep the invariant of
  the queues.
\<close>

section \<open>Threads that leave a queue\<close>

lemma sched_rep_member:
  assumes r: "sched_rep s n V" and c: "c < n" and t: "t \<in> set (service_order (V c))"
  shows "is_queued (sc_heap s t)" "\<And>c'. c' < n \<Longrightarrow> c' \<noteq> c \<Longrightarrow> t \<notin> set (service_order (V c'))"
proof -
  show "is_queued (sc_heap s t)" using r c t by (auto simp: sched_rep_def)
  show "t \<notin> set (service_order (V c'))" if "c' < n" "c' \<noteq> c" for c'
    using r c t that unfolding sched_rep_def by (metis disjoint_iff)
qed

lemma mset_delete_facts:
  assumes "mset xs = add_mset t (mset ys)" "distinct xs"
  shows "distinct ys" "length xs = Suc (length ys)" "t \<notin> set ys" "t \<in> set xs" "u \<noteq> t \<Longrightarrow> u \<in> set ys \<longleftrightarrow> u \<in> set xs"
proof -
  have m: "mset xs = mset (t # ys)" using assms(1) by simp
  have d: "distinct (t # ys)" using mset_eq_imp_distinct_iff [OF m] assms(2) by simp
  then show "distinct ys" "t \<notin> set ys" by simp_all
  show "length xs = Suc (length ys)" using mset_eq_length [OF m] by simp
  have "set xs = set (t # ys)" using m by (rule mset_eq_setD)
  then show "t \<in> set xs" "u \<noteq> t \<Longrightarrow> u \<in> set ys \<longleftrightarrow> u \<in> set xs" by auto
qed

text \<open>
  A thread \<open>t\<close> has left the queues of CPU \<open>c\<close>, its queued bit is cleared and the counter of
  runnable threads decremented.
\<close>

lemma sched_rep_leave:
  assumes r: "sched_rep s n V" and c: "c < n"
    and q: "queues_rep s' c v" and f: "rq_frame s s' c t"
    and m: "mset (service_order (V c)) = add_mset t (mset (service_order v))"
    and nr: "rq_nr_running (sc_rq s' c) = rq_nr_running (sc_rq s c) - 1"
    and b: "\<not> is_queued (sc_heap s' t)"
  shows "sched_rep s' n (V(c := v))"
proof -
  note rc = sched_rep_rq [OF r c]
  note d = mset_delete_facts [OF m conjunct2 [OF rc]]
  have "unat (rq_nr_running (sc_rq s c)) = Suc (length (service_order v))"
    using rc d(2) by (simp add: rq_rep_def)
  then have "unat (rq_nr_running (sc_rq s c) - 1) = length (service_order v)"
    by (simp add: unat_sub word_le_nat_alt)
  then have rep: "rq_rep s' c v" using q nr by (simp add: rq_rep_def)
  show ?thesis
  proof (rule sched_rep_step [OF r c rep d(1)])
    show "is_queued (sc_heap s' t) = (t \<in> set (service_order v))" using b d(3) by simp
    show "t \<notin> set (service_order (V c'))" if "c' < n" "c' \<noteq> c" for c'
      by (rule sched_rep_member(2) [OF r c d(4) that])
  qed (use f d(5) in \<open>auto simp: rq_frame_def\<close>)
qed

text \<open>The queues of CPU \<open>c\<close> after one of them has lost threads and queued bits were cleared.\<close>

lemma queues_rep_shrink:
  assumes r: "queues_rep s c (L, D, C)"
    and rt: "rt_holds (rq_rt (sc_rq s' c)) L'" "\<And>p. set (L' p) \<subseteq> set (L p)"
    and dl: "dl_holds (sc_heap s) (sc_dl s' c) D'" "set D' \<subseteq> set D" "sorted (map (deadline_in (sc_heap s)) D')"
    and cf: "cfs_holds (sc_heap s) (rq_cfs (sc_rq s' c)) C'" "set C' \<subseteq> set C"
    and h: "\<And>u. sched_attrs (sc_heap s' u) = sched_attrs (sc_heap s u)" and cpu: "rq_cpu (sc_rq s' c) = rq_cpu (sc_rq s c)"
  shows "queues_rep s' c (L', D', C')"
proof -
  have "queues_rep (s'\<lparr>sc_heap := sc_heap s\<rparr>) c (L', D', C')"
    using r rt dl cf cpu by (simp add: queues_rep_def) blast
  then show ?thesis by (rule queues_rep_cong) (simp_all add: h)
qed

lemma sched_attrs_clear [simp]: "sched_attrs (clear_queued t) = sched_attrs t"
  by (simp add: sched_attrs_def)

lemma sorted_map_remove1: "sorted (map f xs) \<Longrightarrow> sorted (map f (remove1 x xs))"
proof (induction xs)
  case (Cons y ys)
  then show ?case using set_remove1_subset [of x ys] by auto
qed simp

section \<open>The next thread\<close>

lemma rt_total_0: "rt_holds q L \<Longrightarrow> rt_total L = 0 \<longleftrightarrow> (\<forall>p. L p = [])"
  by (auto simp: rt_total_def rt_holds_def) (metis leI length_0_conv lessThan_iff list.size(3))

lemma rt_count_pos:
  assumes "rt_holds q L"
  shows "rt_count q > 0 \<longleftrightarrow> (\<exists>p. L p \<noteq> [])"
proof -
  have "rt_count q > 0 \<longleftrightarrow> unat (rt_count q) \<noteq> 0" by (simp add: word_gt_0 unat_eq_zero)
  also have "\<dots> \<longleftrightarrow> (\<exists>p. L p \<noteq> [])" using rt_holds_total [OF assms] rt_total_0 [OF assms] by simp
  finally show ?thesis .
qed

lemma highest_level:
  assumes "rt_holds q L" "\<exists>p. L p \<noteq> []"
  obtains p t ts where "p = (LEAST p. L p \<noteq> [])" "L p = t # ts" "p < 100" "\<forall>r < p. L r = []"
    "concat (map L [0..<100]) = t # concat (map (L(p := ts)) [0..<100])"
proof -
  define p where "p = (LEAST p. L p \<noteq> [])"
  have ne: "L p \<noteq> []" unfolding p_def using assms(2) by (rule LeastI_ex)
  then obtain t ts where Lp: "L p = t # ts" by (cases "L p") auto
  have p100: "p < 100" using ne assms(1) by (metis leI rt_holds_def)
  have below: "\<forall>r < p. L r = []" unfolding p_def using not_less_Least by blast
  show ?thesis using that [OF p_def Lp p100 below concat_levels_pop [where L = L, OF Lp below p100]] .
qed

lemma dequeue_highest_rt_ok:
  assumes r: "sched_rep s n V" and c: "c < n" and v: "V c = (L, D, C)" and ne: "\<exists>p. L p \<noteq> []"
  shows "\<exists>t s' v'. dequeue_highest_rt s c = Some (Some t, s') \<and> service_order (V c) = t # service_order v'
    \<and> sched_rep s' n (V(c := v')) \<and> sc_heap s' = (sc_heap s)(t := clear_queued (sc_heap s t)) \<and> rq_frame s s' c t
    \<and> t = hd (L (LEAST p. L p \<noteq> []))"
proof -
  have q: "queues_rep s c (L, D, C)" using sched_rep_rq [OF r c] by (simp add: rq_rep_def v)
  then have rt: "rt_holds (rq_rt (sc_rq s c)) L" by (simp add: queues_rep_def)
  obtain p t ts where p: "p = (LEAST p. L p \<noteq> [])" "L p = t # ts" "p < 100"
      "concat (map L [0..<100]) = t # concat (map (L(p := ts)) [0..<100])"
    using highest_level [OF rt ne] by metis
  obtain rt' where rt': "RtRunQueue_dequeue_highest (rq_rt (sc_rq s c)) = Some (Some t, rt')" "rt_holds rt' (L(p := ts))"
    using rt_dequeue_ok [OF rt p(1,2)] by blast
  define nr where "nr = rq_nr_running (sc_rq s c)"
  define s' where "s' = rq_put (tcb_put (rq_put s c (\<lambda>rq. rq\<lparr>rq_rt := rt'\<rparr>)) t clear_queued) c
    (\<lambda>rq. update_load_avg (rq\<lparr>rq_nr_running := nr - 1\<rparr>) (ucast (saturating_sub nr 1)))"
  have e: "dequeue_highest_rt s c = Some (Some t, s')"
    using rt'(1) by (simp add: dequeue_highest_rt_def s'_def nr_def Let_def)
  have so: "service_order (V c) = t # service_order (L(p := ts), D, C)" using p(4) by (simp add: v service_order_def)
  have fr: "rq_frame s s' c t" by (simp add: rq_frame_def s'_def update_load_avg_def)
  have "queues_rep s' c (L(p := ts), D, C)"
    by (rule queues_rep_shrink [OF q])
      (use q rt'(2) p(2) in \<open>auto simp: s'_def update_load_avg_def queues_rep_def sched_attrs_def\<close>)
  then have "sched_rep s' n (V(c := (L(p := ts), D, C)))"
    by (rule sched_rep_leave [OF r c _ fr]) (simp_all add: so s'_def update_load_avg_def nr_def)
  moreover have "sc_heap s' = (sc_heap s)(t := clear_queued (sc_heap s t))" by (simp add: s'_def)
  ultimately show ?thesis using e so fr p(1,2) by (metis list.sel(1))
qed

lemma sched_rep_same:
  assumes "sched_rep s n V" "sc_heap s' = sc_heap s" "sc_rq s' = sc_rq s" "sc_dl s' = sc_dl s"
  shows "sched_rep s' n V"
  using assms by (simp add: sched_rep_def rq_rep_def queues_rep_def)

lemma sched_rep_stats:
  assumes r: "sched_rep s n V"
    and f: "\<And>rq. rq_rt (f rq) = rq_rt rq \<and> rq_cfs (f rq) = rq_cfs rq \<and> rq_cpu (f rq) = rq_cpu rq
      \<and> rq_nr_running (f rq) = rq_nr_running rq"
  shows "sched_rep (rq_put s c f) n V"
proof -
  have "rq_rep (rq_put s c f) c' v = rq_rep s c' v" for c' v
    by (cases "c' = c") (simp_all add: rq_rep_def queues_rep_def f)
  then show ?thesis using r by (simp add: sched_rep_def)
qed

lemma service_order_no_rt: "\<forall>p. L p = [] \<Longrightarrow> service_order (L, D, C) = D @ C"
proof -
  assume "\<forall>p. L p = []"
  then have "concat (map L [0..<100]) = []" by simp
  then show ?thesis by (simp add: service_order_def)
qed

lemma pick_dl_ok:
  assumes r: "sched_rep s n V" and c: "c < n" and v: "V c = (L, t # D, C)" and L: "\<forall>p. L p = []"
  shows "\<exists>s'. PerCpuRunQueue_pick_next s c = Some (Some t, s') \<and> sched_rep s' n (V(c := (L, D, C)))
    \<and> sc_heap s' = (sc_heap s)(t := clear_queued (sc_heap s t)) \<and> rq_frame s s' c t"
proof -
  have q: "queues_rep s c (L, t # D, C)" using sched_rep_rq [OF r c] by (simp add: rq_rep_def v)
  then have rt: "rt_holds (rq_rt (sc_rq s c)) L" and dl: "dl_holds (sc_heap s) (sc_dl s c) (t # D)"
    by (simp_all add: queues_rep_def)
  have cnt: "\<not> 0 < rt_count (rq_rt (sc_rq s c))" using rt_count_pos [OF rt] L by simp
  obtain q' where q': "dl_pick_next (sc_heap s) (sc_dlg s) (sc_dl s c) =
      (Some t, q', (sc_dlg s)\<lparr>DL_DEQUEUES := DL_DEQUEUES (sc_dlg s) + 1\<rparr>, (sc_heap s)(t := clear_queued (sc_heap s t)))"
      "dl_holds (sc_heap s) q' D"
    using dl_pick_next_eq(2) [OF dl] by blast
  define s' where "s' = rq_put (s\<lparr>sc_dl := (sc_dl s)(c := q'), sc_dlg := (sc_dlg s)\<lparr>DL_DEQUEUES := DL_DEQUEUES (sc_dlg s) + 1\<rparr>,
      sc_heap := (sc_heap s)(t := clear_queued (sc_heap s t))\<rparr>) c
    (\<lambda>rq. rq\<lparr>rq_picks_total := rq_picks_total rq + 1, rq_picks_dl := rq_picks_dl rq + 1, rq_nr_running := rq_nr_running rq - 1\<rparr>)"
  have di: "dl_index (sc_rq s c\<lparr>rq_picks_total := k\<rparr>) = Some c" for k
    using queues_rep_dl_index [OF q] by (simp add: dl_index_def split: if_splits)
  have e: "PerCpuRunQueue_pick_next s c = Some (Some t, s')"
    using cnt q'(1) di by (simp add: PerCpuRunQueue_pick_next_def Let_def s'_def)
  have so: "service_order (V c) = t # service_order (L, D, C)" using L by (simp add: v service_order_no_rt)
  have fr: "rq_frame s s' c t" by (simp add: rq_frame_def s'_def)
  have "queues_rep s' c (L, D, C)"
    by (rule queues_rep_shrink [OF q])
      (use q q'(2) in \<open>auto simp: s'_def queues_rep_def\<close>)
  then have "sched_rep s' n (V(c := (L, D, C)))"
    by (rule sched_rep_leave [OF r c _ fr]) (simp_all add: so s'_def)
  then show ?thesis using e fr by (simp add: s'_def)
qed

lemma pick_cfs_ok:
  assumes r: "sched_rep s n V" and c: "c < n" and v: "V c = (L, [], t # C)" and L: "\<forall>p. L p = []"
  shows "\<exists>s'. PerCpuRunQueue_pick_next s c = Some (Some t, s') \<and> sched_rep s' n (V(c := (L, [], C)))
    \<and> sc_heap s' = (sc_heap s)(t := clear_queued (sc_heap s t)) \<and> rq_frame s s' c t"
proof -
  have q: "queues_rep s c (L, [], t # C)" using sched_rep_rq [OF r c] by (simp add: rq_rep_def v)
  then have rt: "rt_holds (rq_rt (sc_rq s c)) L" and dl: "dl_holds (sc_heap s) (sc_dl s c) []"
    and cf: "cfs_holds (sc_heap s) (rq_cfs (sc_rq s c)) (t # C)"
    by (simp_all add: queues_rep_def)
  have cnt: "\<not> 0 < rt_count (rq_rt (sc_rq s c))" using rt_count_pos [OF rt] L by simp
  have pos: "0 < cfs_count (rq_cfs (sc_rq s c))" using cf by (simp add: cfs_holds_def)
  obtain q' where q': "CfsRunQueue_dequeue_min (sc_heap s) (rq_cfs (sc_rq s c)) =
      (Some t, q', (sc_heap s)(t := clear_queued (sc_heap s t)))" "cfs_holds (sc_heap s) q' C"
    using cfs_dequeue_ok [OF cf] by blast
  define s' where "s' = rq_put (s\<lparr>sc_heap := (sc_heap s)(t := clear_queued (sc_heap s t))\<rparr>) c
    (\<lambda>rq. rq\<lparr>rq_picks_total := rq_picks_total rq + 1, rq_picks_cfs := rq_picks_cfs rq + 1, rq_cfs := q',
      rq_nr_running := rq_nr_running rq - 1\<rparr>)"
  have di: "dl_index (sc_rq s c\<lparr>rq_picks_total := k\<rparr>) = Some c" for k
    using queues_rep_dl_index [OF q] by (simp add: dl_index_def split: if_splits)
  have e: "PerCpuRunQueue_pick_next s c = Some (Some t, s')"
    using cnt pos q'(1) di dl_pick_next_eq(1) [OF dl]
    by (simp add: PerCpuRunQueue_pick_next_def Let_def s'_def)
  have so: "service_order (V c) = t # service_order (L, [], C)" using L by (simp add: v service_order_no_rt)
  have fr: "rq_frame s s' c t" by (simp add: rq_frame_def s'_def)
  have "queues_rep s' c (L, [], C)"
    by (rule queues_rep_shrink [OF q])
      (use q q'(2) in \<open>auto simp: s'_def queues_rep_def\<close>)
  then have "sched_rep s' n (V(c := (L, [], C)))"
    by (rule sched_rep_leave [OF r c _ fr]) (simp_all add: so s'_def)
  then show ?thesis using e fr by (simp add: s'_def)
qed

lemma pick_idle_ok:
  assumes r: "sched_rep s n V" and c: "c < n" and e: "service_order (V c) = []"
  shows "\<exists>s'. PerCpuRunQueue_pick_next s c = Some (rq_idle_thread (sc_rq s c), s') \<and> sched_rep s' n V
    \<and> sc_heap s' = sc_heap s \<and> (\<forall>t. rq_frame s s' c t)"
proof -
  obtain L D C where v: "V c = (L, D, C)" by (cases "V c")
  have q: "queues_rep s c (L, D, C)" using sched_rep_rq [OF r c] by (simp add: rq_rep_def v)
  then have rt: "rt_holds (rq_rt (sc_rq s c)) L" and dl: "dl_holds (sc_heap s) (sc_dl s c) D"
    and cf: "cfs_holds (sc_heap s) (rq_cfs (sc_rq s c)) C"
    by (simp_all add: queues_rep_def)
  have nil: "D = []" "C = []" "concat (map L [0..<100]) = []" using e by (simp_all add: service_order_def v)
  then have "rt_total L = 0" by (simp only: length_levels [symmetric] list.size)
  then have cnt: "\<not> 0 < rt_count (rq_rt (sc_rq s c))" using rt_count_pos [OF rt] rt_total_0 [OF rt] by simp
  have pos: "cfs_count (rq_cfs (sc_rq s c)) = 0" using cf nil by (simp add: cfs_holds_def)
  define f :: "PerCpuRunQueue \<Rightarrow> PerCpuRunQueue" where "f = (\<lambda>rq. rq\<lparr>rq_picks_total := rq_picks_total rq + 1, rq_picks_idle := rq_picks_idle rq + 1\<rparr>)"
  have di: "dl_index (sc_rq s c\<lparr>rq_picks_total := k\<rparr>) = Some c" for k
    using queues_rep_dl_index [OF q] by (simp add: dl_index_def split: if_splits)
  have "PerCpuRunQueue_pick_next s c = Some (rq_idle_thread (sc_rq s c), rq_put s c f)"
    using cnt pos di dl_pick_next_eq(1) [OF dl [unfolded nil]]
    by (simp add: PerCpuRunQueue_pick_next_def Let_def f_def)
  moreover have "sched_rep (rq_put s c f) n V" by (rule sched_rep_stats [OF r]) (simp add: f_def)
  moreover have "rq_frame s (rq_put s c f) c t" for t by (simp add: rq_frame_def f_def)
  ultimately show ?thesis by auto
qed

text \<open>\<open>pick_next\<close> pops the head of the order of service.\<close>

lemma pick_next_ok:
  assumes r: "sched_rep s n V" and c: "c < n" and so: "service_order (V c) = t # ts"
  shows "\<exists>s' v'. PerCpuRunQueue_pick_next s c = Some (Some t, s') \<and> service_order v' = ts
    \<and> sched_rep s' n (V(c := v')) \<and> sc_heap s' = (sc_heap s)(t := clear_queued (sc_heap s t)) \<and> rq_frame s s' c t"
proof -
  obtain L D C where v: "V c = (L, D, C)" by (cases "V c")
  have q: "queues_rep s c (L, D, C)" using sched_rep_rq [OF r c] by (simp add: rq_rep_def v)
  then have rt: "rt_holds (rq_rt (sc_rq s c)) L" by (simp add: queues_rep_def)
  show ?thesis
  proof (cases "\<exists>p. L p \<noteq> []")
    case True
    define f :: "PerCpuRunQueue \<Rightarrow> PerCpuRunQueue" where "f = (\<lambda>rq. rq\<lparr>rq_picks_total := rq_picks_total rq + 1, rq_picks_rt := rq_picks_rt rq + 1\<rparr>)"
    have r1: "sched_rep (rq_put s c f) n V" by (rule sched_rep_stats [OF r]) (simp add: f_def)
    have "PerCpuRunQueue_pick_next s c = dequeue_highest_rt (rq_put s c f) c"
      using rt_count_pos [OF rt] True by (simp add: PerCpuRunQueue_pick_next_def Let_def f_def)
    moreover obtain t' s' v' where d: "dequeue_highest_rt (rq_put s c f) c = Some (Some t', s')"
        "service_order (V c) = t' # service_order v'" "sched_rep s' n (V(c := v'))"
        "sc_heap s' = (sc_heap s)(t' := clear_queued (sc_heap s t'))" "rq_frame (rq_put s c f) s' c t'"
      using dequeue_highest_rt_ok [OF r1 c v True] by auto
    moreover have "rq_frame s s' c t'" using d(5) by (simp add: rq_frame_def f_def)
    ultimately show ?thesis using so by (metis list.inject)
  next
    case False
    then have L: "\<forall>p. L p = []" by blast
    then have "D @ C = t # ts" using so by (simp add: v service_order_no_rt)
    then consider D' where "D = t # D'" "ts = D' @ C" | "D = []" "C = t # ts" by (cases D) auto
    then show ?thesis
    proof cases
      case 1
      have "service_order (L, D', C) = ts" using L 1 by (simp add: service_order_no_rt)
      then show ?thesis using pick_dl_ok [OF r c _ L, of t D' C] v 1 by metis
    next
      case 2
      have "service_order (L, [], ts) = ts" using L by (simp add: service_order_no_rt)
      then show ?thesis using pick_cfs_ok [OF r c _ L, of t ts] v 2 by metis
    qed
  qed
qed

section \<open>The scan for an eligible thread\<close>

definition eligible :: "ThreadControlBlock \<Rightarrow> bool" where
  "eligible t = (task_state t = Runnable \<or> task_state t = Running \<and> is_idle t)"

lemma eligible_clear [simp]: "eligible (clear_queued t) = eligible t"
  by (simp add: eligible_def)

definition decide :: "ptr option \<Rightarrow> ptr \<Rightarrow> PickResult" where
  "decide current t = (if current = Some t then KeepRunning else Switch t)"

text \<open>The outcome of at most \<open>m\<close> attempts on an order of service, with the idle thread behind it.\<close>

fun pick_from :: "heap \<Rightarrow> ptr option \<Rightarrow> ptr option \<Rightarrow> nat \<Rightarrow> ptr list \<Rightarrow> PickResult" where
  "pick_from h idle current 0 xs = GoIdle"
| "pick_from h idle current (Suc m) [] =
    (case idle of None \<Rightarrow> GoIdle | Some i \<Rightarrow> if eligible (h i) then decide current i else GoIdle)"
| "pick_from h idle current (Suc m) (t # ts) =
    (if eligible (h t) then decide current t else pick_from h idle current m ts)"

fun picked :: "heap \<Rightarrow> nat \<Rightarrow> ptr list \<Rightarrow> nat" where
  "picked h 0 xs = 0"
| "picked h (Suc m) [] = 0"
| "picked h (Suc m) (t # ts) = Suc (if eligible (h t) then 0 else picked h m ts)"

lemma pick_from_cong:
  "(\<And>t. eligible (h' t) = eligible (h t)) \<Longrightarrow> pick_from h' idle current m xs = pick_from h idle current m xs
    \<and> picked h' m xs = picked h m xs"
  by (induction h idle current m xs rule: pick_from.induct) (auto split: option.splits)

lemma pick_scan_step:
  assumes "PerCpuRunQueue_pick_next s c = Some (Some t, s1)"
  shows "pick_scan (Suc m) s c current =
    (if eligible (sc_heap s1 t)
     then Some (decide current t, if current = Some t then s1\<lparr>PICK_SAME_CURRENT := PICK_SAME_CURRENT s1 + 1\<rparr> else s1)
     else pick_scan m (s1\<lparr>PICK_SKIP_INELIGIBLE := PICK_SKIP_INELIGIBLE s1 + 1\<rparr>) c current)"
  using assms by (auto simp: eligible_def decide_def Let_def)

lemma pick_scan_empty:
  assumes "sched_rep s n V" "c < n" "service_order (V c) = []"
  shows "\<exists>s'. pick_scan m s c current = Some (pick_from (sc_heap s) (rq_idle_thread (sc_rq s c)) current m [], s')
    \<and> sched_rep s' n V \<and> sc_heap s' = sc_heap s"
  using assms
proof (induction m arbitrary: s)
  case (Suc m)
  obtain s1 where s1: "PerCpuRunQueue_pick_next s c = Some (rq_idle_thread (sc_rq s c), s1)" "sched_rep s1 n V"
      "sc_heap s1 = sc_heap s" "rq_idle_thread (sc_rq s1 c) = rq_idle_thread (sc_rq s c)"
    using pick_idle_ok [OF Suc.prems] by (auto simp: rq_frame_def)
  show ?case
  proof (cases "rq_idle_thread (sc_rq s c)")
    case None
    then show ?thesis using s1 by auto
  next
    case (Some i)
    show ?thesis
    proof (cases "eligible (sc_heap s i)")
      case True
      have "sched_rep (if current = Some i then s1\<lparr>PICK_SAME_CURRENT := k\<rparr> else s1) n V" for k
        using s1(2) sched_rep_same by auto
      then show ?thesis using True s1 Some pick_scan_step [of s c i s1 m current] by auto
    next
      case False
      define s2 where "s2 = s1\<lparr>PICK_SKIP_INELIGIBLE := PICK_SKIP_INELIGIBLE s1 + 1\<rparr>"
      have r2: "sched_rep s2 n V" unfolding s2_def by (rule sched_rep_same [OF s1(2)]) simp_all
      have "sc_heap s2 = sc_heap s" "rq_idle_thread (sc_rq s2 c) = Some i" using s1 Some by (simp_all add: s2_def)
      moreover have "pick_from h (Some i) current m [] = GoIdle" if "\<not> eligible (h i)" for h
        using that by (cases m) simp_all
      moreover have "pick_scan (Suc m) s c current = pick_scan m s2 c current"
        using False s1 Some pick_scan_step [of s c i s1 m current] by (simp add: s2_def)
      ultimately show ?thesis using Suc.IH [OF r2 Suc.prems(2,3)] False Some by auto
    qed
  qed
qed simp

lemma pick_scan_ok:
  assumes "sched_rep s n V" "c < n"
  shows "\<exists>s' v'. pick_scan m s c current =
      Some (pick_from (sc_heap s) (rq_idle_thread (sc_rq s c)) current m (service_order (V c)), s')
    \<and> sched_rep s' n (V(c := v'))
    \<and> service_order v' = drop (picked (sc_heap s) m (service_order (V c))) (service_order (V c))
    \<and> (\<forall>u. sched_attrs (sc_heap s' u) = sched_attrs (sc_heap s u))"
  using assms
proof (induction m arbitrary: s V)
  case 0
  then show ?case by (intro exI [of _ s] exI [of _ "V c"]) simp
next
  case (Suc m)
  show ?case
  proof (cases "service_order (V c)")
    case Nil
    obtain s' where s': "pick_scan (Suc m) s c current =
        Some (pick_from (sc_heap s) (rq_idle_thread (sc_rq s c)) current (Suc m) [], s')" "sched_rep s' n V"
        "sc_heap s' = sc_heap s"
      using pick_scan_empty [OF Suc.prems Nil, of "Suc m" current] by blast
    show ?thesis using s' by (intro exI [of _ s'] exI [of _ "V c"]) (simp add: Nil)
  next
    case (Cons t ts)
    obtain s1 v1 where s1: "PerCpuRunQueue_pick_next s c = Some (Some t, s1)" "service_order v1 = ts"
        "sched_rep s1 n (V(c := v1))" "sc_heap s1 = (sc_heap s)(t := clear_queued (sc_heap s t))" "rq_frame s s1 c t"
      using pick_next_ok [OF Suc.prems Cons] by blast
    have el: "eligible (sc_heap s1 u) = eligible (sc_heap s u)" for u by (simp add: s1(4))
    show ?thesis
    proof (cases "eligible (sc_heap s t)")
      case True
      define s2 where "s2 = (if current = Some t then s1\<lparr>PICK_SAME_CURRENT := PICK_SAME_CURRENT s1 + 1\<rparr> else s1)"
      have "sched_rep s2 n (V(c := v1))" unfolding s2_def by (cases "current = Some t") (auto intro: sched_rep_same s1(3))
      moreover have "pick_scan (Suc m) s c current = Some (decide current t, s2)"
        using True el pick_scan_step [OF s1(1), of m current] by (simp only: s2_def if_True)
      moreover have "sched_attrs (sc_heap s2 u) = sched_attrs (sc_heap s u)" for u by (simp add: s2_def s1(4))
      ultimately show ?thesis using True Cons s1(2) by (intro exI [of _ s2] exI [of _ v1]) (simp del: fun_upd_apply pick_scan.simps)
    next
      case False
      define s2 where "s2 = s1\<lparr>PICK_SKIP_INELIGIBLE := PICK_SKIP_INELIGIBLE s1 + 1\<rparr>"
      have r2: "sched_rep s2 n (V(c := v1))" unfolding s2_def by (rule sched_rep_same [OF s1(3)]) simp_all
      have h2: "sc_heap s2 = sc_heap s1" "rq_idle_thread (sc_rq s2 c) = rq_idle_thread (sc_rq s c)"
        using s1(5) by (simp_all add: s2_def rq_frame_def)
      have pf: "pick_from (sc_heap s1) i current m ts = pick_from (sc_heap s) i current m ts
          \<and> picked (sc_heap s1) m ts = picked (sc_heap s) m ts" for i
        by (rule pick_from_cong) (rule el)
      have "pick_scan (Suc m) s c current = pick_scan m s2 c current"
        using False el pick_scan_step [OF s1(1), of m current] by (simp add: s2_def)
      moreover obtain s' v' where ih: "pick_scan m s2 c current =
          Some (pick_from (sc_heap s2) (rq_idle_thread (sc_rq s2 c)) current m (service_order ((V(c := v1)) c)), s')"
          "sched_rep s' n ((V(c := v1))(c := v'))"
          "service_order v' = drop (picked (sc_heap s2) m (service_order ((V(c := v1)) c))) (service_order ((V(c := v1)) c))"
          "\<forall>u. sched_attrs (sc_heap s' u) = sched_attrs (sc_heap s2 u)"
        using Suc.IH [OF r2 Suc.prems(2)] by blast
      moreover have "sched_rep s' n (V(c := v'))" using ih(2) by (simp only: fun_upd_upd)
      moreover have "\<forall>u. sched_attrs (sc_heap s' u) = sched_attrs (sc_heap s u)" using ih(4) by (simp add: h2 s1(4))
      moreover have "service_order v' = drop (picked (sc_heap s) m ts) ts" using ih(3) pf h2 s1(2) by simp
      moreover have "pick_scan m s2 c current =
          Some (pick_from (sc_heap s) (rq_idle_thread (sc_rq s c)) current m ts, s')"
        using ih(1) pf h2 s1(2) by simp
      ultimately show ?thesis using False Cons by (intro exI [of _ s'] exI [of _ v']) (simp del: fun_upd_apply pick_scan.simps)
    qed
  qed
qed

section \<open>Preemption between real-time threads\<close>

lemma sched_rep_set_state:
  assumes r: "sched_rep s n V"
  shows "sched_rep (tcb_put s t (\<lambda>x. set_task_state x st)) n V"
proof -
  have "queues_rep (tcb_put s t (\<lambda>x. set_task_state x st)) c v" if "queues_rep s c v" for c v
    by (rule queues_rep_cong [OF that]) (simp_all add: sched_attrs_def)
  then show ?thesis using r by (auto simp: sched_rep_def rq_rep_def)
qed

lemma view_insert_rt:
  assumes "tcb_policy (h t) \<in> {Fifo, RoundRobin}"
  shows "view_insert h t (L, D, C) = (L(unat (tcb_priority (h t)) := L (unat (tcb_priority (h t))) @ [t]), D, C)"
  using assms by (auto simp: view_insert_def Let_def)

lemma highest_level_append:
  assumes "\<exists>p < (k::nat). L p \<noteq> []"
  shows "(LEAST p. (L(k := L k @ [t])) p \<noteq> []) = (LEAST p. L p \<noteq> [])"
    "hd ((L(k := L k @ [t])) (LEAST p. L p \<noteq> [])) = hd (L (LEAST p. L p \<noteq> []))" "(LEAST p. L p \<noteq> []) < k"
proof -
  obtain p where p: "p < k" "L p \<noteq> []" using assms by blast
  define m where "m = (LEAST p. L p \<noteq> [])"
  have ne: "L m \<noteq> []" unfolding m_def by (rule LeastI [of "\<lambda>p. L p \<noteq> []", OF p(2)])
  have "m \<le> p" unfolding m_def by (rule Least_le) (rule p(2))
  then have mk: "m < k" using p(1) by simp
  have "m \<le> y" if "(L(k := L k @ [t])) y \<noteq> []" for y
  proof (cases "y = k")
    case False
    then show ?thesis unfolding m_def using that by (intro Least_le) simp
  qed (use mk in simp)
  then show "(LEAST p. (L(k := L k @ [t])) p \<noteq> []) = (LEAST p. L p \<noteq> [])"
    unfolding m_def [symmetric] using ne mk by (intro Least_equality) simp_all
  show "hd ((L(k := L k @ [t])) (LEAST p. L p \<noteq> [])) = hd (L (LEAST p. L p \<noteq> []))" "(LEAST p. L p \<noteq> []) < k"
    using mk unfolding m_def [symmetric] by simp_all
qed

lemma rt_bitmap_highest:
  assumes r: "sched_rep s n V" and c: "c < n" and v: "V c = (L, D, C)"
  shows "rt_bitmap_highest_prio (sc_rq s c) = (if \<exists>p. L p \<noteq> [] then Some (LEAST p. L p \<noteq> []) else None)"
proof -
  have rt: "rt_holds (rq_rt (sc_rq s c)) L" using sched_rep_rq [OF r c] by (simp add: rq_rep_def queues_rep_def v)
  show ?thesis
    using rt_highest_level [OF rt] rt_count_pos [OF rt] by (auto simp: rt_bitmap_highest_prio_def word_gt_0)
qed

lemma rt_preemption_ok:
  assumes r: "sched_rep s n V" and c: "c < n" and v: "V c = (L, D, C)"
    and cur: "task_state (sc_heap s t) = Running" "tcb_policy (sc_heap s t) \<in> {Fifo, RoundRobin}"
      "\<not> is_queued (sc_heap s t)" "rt_prio_ok (sc_heap s t)"
    and hi: "\<exists>p < unat (tcb_priority (sc_heap s t)). L p \<noteq> []"
  shows "\<exists>s' v'. pick_next_task True now s c (Some t) = Some (Switch (hd (L (LEAST p. L p \<noteq> []))), s')
    \<and> sched_rep s' n (V(c := v')) \<and> task_state (sc_heap s' t) = Runnable
    \<and> (t \<in> set (service_order v') \<longleftrightarrow> rt_total L < RT_QUEUE_CAPACITY)"
proof -
  define k where "k = unat (tcb_priority (sc_heap s t))"
  define s1 where "s1 = tcb_put (s\<lparr>PICK_NEXT_TOTAL := PICK_NEXT_TOTAL s + 1, PICK_RT_RT := PICK_RT_RT s + 1\<rparr>) t
      (\<lambda>x. set_task_state x Runnable)"
  have "sched_rep (s\<lparr>PICK_NEXT_TOTAL := PICK_NEXT_TOTAL s + 1, PICK_RT_RT := PICK_RT_RT s + 1\<rparr>) n V"
    by (rule sched_rep_same [OF r]) simp_all
  then have r1: "sched_rep s1 n V" unfolding s1_def by (rule sched_rep_set_state)
  have t1: "task_state (sc_heap s1 t) = Runnable" "\<not> is_queued (sc_heap s1 t)" "rt_prio_ok (sc_heap s1 t)"
      "tcb_policy (sc_heap s1 t) = tcb_policy (sc_heap s t)" "tcb_priority (sc_heap s1 t) = tcb_priority (sc_heap s t)"
    using cur by (simp_all add: s1_def rt_prio_ok_def)
  have room: "accepts s1 t (V c) \<longleftrightarrow> rt_total L < 256"
    using t1 cur(2) by (auto simp: accepts_def has_room_def v)
  obtain s2 where s2: "PerCpuRunQueue_enqueue now s1 c t = Some (accepts s1 t (V c), s2)"
      "sched_rep s2 n (if accepts s1 t (V c) then V(c := view_insert (sc_heap s2) t (V c)) else V)"
      "rq_frame s1 s2 c t" "task_state (sc_heap s2 t) = Runnable" "tcb_policy (sc_heap s2 t) = tcb_policy (sc_heap s t)"
      "tcb_priority (sc_heap s2 t) = tcb_priority (sc_heap s t)"
    using enqueue_ok [OF r1 c t1(3), of now] t1(1,4,5) by metis
  define L2 where "L2 = (if rt_total L < 256 then L(k := L k @ [t]) else L)"
  have "view_insert (sc_heap s2) t (V c) = (L(k := L k @ [t]), D, C)"
    using cur(2) s2(5,6) by (simp add: v view_insert_rt k_def)
  then have r2: "sched_rep s2 n (V(c := (L2, D, C)))" using s2(2) room v by (auto simp: L2_def fun_upd_idem)
  note hl = highest_level_append [where k = k and L = L, OF hi [folded k_def]]
  have ne: "\<exists>p. L2 p \<noteq> []" using hi by (auto simp: L2_def)
  obtain u s3 v3 where u: "dequeue_highest_rt s2 c = Some (Some u, s3)"
      "service_order (L2, D, C) = u # service_order v3" "sched_rep s3 n (V(c := v3))"
      "sc_heap s3 = (sc_heap s2)(u := clear_queued (sc_heap s2 u))" "u = hd (L2 (LEAST p. L2 p \<noteq> []))"
    using dequeue_highest_rt_ok [OF r2 c _ ne] by auto
  have uL: "u = hd (L (LEAST p. L p \<noteq> []))" using u(5) hl by (simp add: L2_def split: if_splits)
  have "rt_bitmap_highest_prio (sc_rq s c) = Some (LEAST p. L p \<noteq> [])"
    using rt_bitmap_highest [OF r c v] hi by auto
  then have "pick_next_task True now s c (Some t) = Some (Switch u, s3)"
    using cur(1,2) hl(3) u(1) s2(1) unfolding pick_next_task_def preempt_current_def k_def s1_def by (auto simp: Let_def)
  moreover have "task_state (sc_heap s3 t) = Runnable" using s2(4) by (cases "t = u") (simp_all add: u(4))
  moreover have "t \<in> set (service_order v3) \<longleftrightarrow> rt_total L < 256"
  proof -
    have nq: "t \<notin> set (service_order (V c))" by (rule not_queued [OF r c cur(3)])
    have "L (LEAST p. L p \<noteq> []) \<noteq> []" by (rule LeastI_ex) (use hi in auto)
    then have "u \<in> set (L (LEAST p. L p \<noteq> []))" unfolding uL by (rule hd_in_set)
    moreover have "(LEAST p. L p \<noteq> []) < 100" using hl(3) cur(2,4) by (auto simp: k_def rt_prio_ok_def)
    ultimately have "u \<in> set (service_order (V c))" by (auto simp: v set_service_order)
    then have "u \<noteq> t" using nq by auto
    then have "t \<in> set (service_order v3) \<longleftrightarrow> t \<in> set (service_order (L2, D, C))" by (simp add: u(2))
    also have "\<dots> \<longleftrightarrow> rt_total L < 256"
      using nq cur(2,4) unfolding v set_service_order by (auto simp: L2_def k_def rt_prio_ok_def)
    finally show ?thesis .
  qed
  ultimately show ?thesis using u(3) uL by (intro exI [of _ s3] exI [of _ v3]) (simp del: fun_upd_apply)
qed

section \<open>Removal\<close>

lemma remove1_levels:
  assumes "p < 100" "\<And>q. q \<noteq> p \<Longrightarrow> t \<notin> set (L q)"
  shows "remove1 t (concat (map L [0..<100])) = concat (map (L(p := remove1 t (L p))) [0..<100])"
proof -
  have "t \<notin> set (concat (map L [0..<p]))" "t \<notin> set (concat (map L [Suc p..<100]))" using assms(2) by auto
  moreover have "map (L(p := remove1 t (L p))) [0..<p] = map L [0..<p]"
    "map (L(p := remove1 t (L p))) [Suc p..<100] = map L [Suc p..<100]" by simp_all
  ultimately show ?thesis
    unfolding concat_levels_split [OF assms(1)] by (simp add: remove1_append remove1_idem)
qed

text \<open>A removal from one of the three queues, reported and reflected in the view.\<close>

definition removed_rep :: "Sched \<Rightarrow> Sched \<Rightarrow> nat \<Rightarrow> ptr \<Rightarrow> view \<Rightarrow> view \<Rightarrow> bool" where
  "removed_rep s s' c t v v' =
    (queues_rep s' c v' \<and> service_order v' = remove1 t (service_order v) \<and> rq_frame s s' c t
     \<and> rq_nr_running (sc_rq s' c) = rq_nr_running (sc_rq s c)
     \<and> (sc_heap s' t = sc_heap s t \<or> sc_heap s' t = clear_queued (sc_heap s t))
     \<and> (t \<notin> set (service_order v) \<longrightarrow> sc_heap s' t = sc_heap s t))"

lemma queues_rep_class:
  assumes "queues_rep s c (L, D, C)" "t \<in> set (service_order (L, D, C))"
  shows "tcb_policy (sc_heap s t) \<in> {Fifo, RoundRobin} \<longleftrightarrow> (\<exists>p. t \<in> set (L p))"
    "tcb_policy (sc_heap s t) = Deadline \<longleftrightarrow> t \<in> set D"
    "tcb_policy (sc_heap s t) \<in> {NormalPolicy, Batch} \<longleftrightarrow> t \<in> set C"
    "tcb_policy (sc_heap s t) \<noteq> IdlePolicy"
  using assms unfolding set_service_order queues_rep_def prod.case by fastforce+

lemma remove_rt_class:
  assumes q: "queues_rep s c (L, D, C)" and pol: "tcb_policy (sc_heap s t) \<in> {Fifo, RoundRobin}" and p: "rt_prio_ok (sc_heap s t)"
  shows "\<exists>s' v'. remove_by_policy s c t = Some (t \<in> set (service_order (L, D, C)), s') \<and> removed_rep s s' c t (L, D, C) v'"
proof -
  define k where "k = unat (tcb_priority (sc_heap s t))"
  have k: "k < 100" using pol p by (auto simp: k_def rt_prio_ok_def)
  have rt: "rt_holds (rq_rt (sc_rq s c)) L" using q by (simp add: queues_rep_def)
  have out: "t \<notin> set D" "t \<notin> set C" "\<And>r. r \<noteq> k \<Longrightarrow> t \<notin> set (L r)"
    using q pol by (auto simp: queues_rep_def k_def)
  have mem: "t \<in> set (service_order (L, D, C)) \<longleftrightarrow> t \<in> set (L k)"
    using out k unfolding set_service_order by (metis UN_iff Un_iff lessThan_iff)
  obtain rt' where rt': "rt_remove (sc_heap s) (rq_rt (sc_rq s c)) t = Some (t \<in> set (L k), rt')"
      "rt_holds rt' (L(k := remove1 t (L k)))"
    using rt_remove_ok [where h = "sc_heap s" and t = t, OF rt k_def k] by blast
  define s' where "s' = rq_put s c (\<lambda>rq. rq\<lparr>rq_rt := rt'\<rparr>)"
  have "remove_by_policy s c t = Some (t \<in> set (service_order (L, D, C)), s')"
    using pol rt'(1) by (auto simp: remove_by_policy_def s'_def mem)
  moreover have "queues_rep s' c (L(k := remove1 t (L k)), D, C)"
    by (rule queues_rep_shrink [OF q]) (use q rt'(2) set_remove1_subset [of t "L k"] in \<open>auto simp: s'_def queues_rep_def\<close>)
  moreover have "service_order (L(k := remove1 t (L k)), D, C) = remove1 t (service_order (L, D, C))"
    using remove1_levels [where L = L and t = t, OF k out(3)] out(1,2)
    by (auto simp: service_order_def remove1_append remove1_idem simp del: set_concat)
  ultimately have "removed_rep s s' c t (L, D, C) (L(k := remove1 t (L k)), D, C)"
    by (simp add: removed_rep_def rq_frame_def s'_def)
  then show ?thesis using \<open>remove_by_policy s c t = _\<close> by blast
qed

lemma remove_dl_class:
  assumes q: "queues_rep s c (L, D, C)" and pol: "tcb_policy (sc_heap s t) = Deadline"
  shows "\<exists>s' v'. remove_by_policy s c t = Some (t \<in> set (service_order (L, D, C)), s') \<and> removed_rep s s' c t (L, D, C) v'"
proof -
  have dl: "dl_holds (sc_heap s) (sc_dl s c) D" "sorted (map (deadline_in (sc_heap s)) D)" using q by (simp_all add: queues_rep_def)
  have out: "t \<notin> set C" "\<And>r. t \<notin> set (L r)" using q pol by (fastforce simp: queues_rep_def)+
  have mem: "t \<in> set (service_order (L, D, C)) \<longleftrightarrow> t \<in> set D" using out unfolding set_service_order by blast
  define h where "h = (if t \<in> set D then (sc_heap s)(t := clear_queued (sc_heap s t)) else sc_heap s)"
  obtain q' where q': "dl_remove (sc_heap s) (sc_dl s c) t = (t \<in> set D, q', h)" "dl_holds (sc_heap s) q' (remove1 t D)"
    using dl_remove_ok [OF dl(1), of t] unfolding h_def by blast
  define s' where "s' = s\<lparr>sc_dl := (sc_dl s)(c := q'), sc_heap := h\<rparr>"
  have "remove_by_policy s c t = Some (t \<in> set (service_order (L, D, C)), s')"
    using pol q'(1) queues_rep_dl_index [OF q] by (simp add: remove_by_policy_def s'_def mem)
  moreover have "queues_rep s' c (L, remove1 t D, C)"
    by (rule queues_rep_shrink [OF q])
      (use q q'(2) sorted_map_remove1 [OF dl(2), of t] set_remove1_subset [of t D] in \<open>auto simp: s'_def h_def queues_rep_def\<close>)
  moreover have "service_order (L, remove1 t D, C) = remove1 t (service_order (L, D, C))"
    using out by (auto simp: service_order_def remove1_append remove1_idem)
  ultimately have "removed_rep s s' c t (L, D, C) (L, remove1 t D, C)"
    using mem by (simp add: removed_rep_def rq_frame_def s'_def h_def)
  then show ?thesis using \<open>remove_by_policy s c t = _\<close> by blast
qed

lemma remove_cfs_class:
  assumes q: "queues_rep s c (L, D, C)" and pol: "tcb_policy (sc_heap s t) \<in> {NormalPolicy, Batch, IdlePolicy}"
  shows "\<exists>s' v'. remove_by_policy s c t = Some (t \<in> set (service_order (L, D, C)), s') \<and> removed_rep s s' c t (L, D, C) v'"
proof -
  have cf: "cfs_holds (sc_heap s) (rq_cfs (sc_rq s c)) C"
    using q by (simp_all add: queues_rep_def)
  have out: "t \<notin> set D" "\<And>r. t \<notin> set (L r)" using q pol by (fastforce simp: queues_rep_def)+
  have mem: "t \<in> set (service_order (L, D, C)) \<longleftrightarrow> t \<in> set C" using out unfolding set_service_order by blast
  obtain q' where q': "CfsRunQueue_remove (sc_heap s) (rq_cfs (sc_rq s c)) t = (t \<in> set C, q')"
      "cfs_holds (sc_heap s) q' (remove1 t C)"
    using cfs_remove_ok [OF cf(1), of t] by blast
  define s' where "s' = rq_put s c (\<lambda>rq. rq\<lparr>rq_cfs := q'\<rparr>)"
  have "remove_by_policy s c t = Some (t \<in> set (service_order (L, D, C)), s')"
    using pol q'(1) by (auto simp: remove_by_policy_def s'_def mem)
  moreover have "queues_rep s' c (L, D, remove1 t C)"
    by (rule queues_rep_shrink [OF q])
      (use q q'(2) set_remove1_subset [of t C] in \<open>auto simp: s'_def queues_rep_def\<close>)
  moreover have "service_order (L, D, remove1 t C) = remove1 t (service_order (L, D, C))"
    using out by (auto simp: service_order_def remove1_append remove1_idem)
  ultimately have "removed_rep s s' c t (L, D, C) (L, D, remove1 t C)"
    by (simp add: removed_rep_def rq_frame_def s'_def)
  then show ?thesis using \<open>remove_by_policy s c t = _\<close> by blast
qed

lemma remove_by_policy_ok:
  assumes q: "queues_rep s c (L, D, C)" and p: "rt_prio_ok (sc_heap s t)"
  shows "\<exists>s' v'. remove_by_policy s c t = Some (t \<in> set (service_order (L, D, C)), s') \<and> removed_rep s s' c t (L, D, C) v'"
proof -
  consider "tcb_policy (sc_heap s t) \<in> {Fifo, RoundRobin}" | "tcb_policy (sc_heap s t) = Deadline"
    | "tcb_policy (sc_heap s t) \<in> {NormalPolicy, Batch, IdlePolicy}"
    by (cases "tcb_policy (sc_heap s t)") auto
  then show ?thesis using remove_rt_class [OF q _ p] remove_dl_class [OF q] remove_cfs_class [OF q] by cases blast+
qed

lemma sched_rep_replace:
  assumes r: "sched_rep s n V" and c: "c < n" and v: "rq_rep s' c v" "service_order v = service_order (V c)"
    and h: "sc_heap s' = sc_heap s" and q: "\<And>c'. c' \<noteq> c \<Longrightarrow> sc_rq s' c' = sc_rq s c' \<and> sc_dl s' c' = sc_dl s c'"
  shows "sched_rep s' n (V(c := v))"
proof -
  have so: "service_order ((V(c := v)) a) = service_order (V a)" for a using v(2) by simp
  have "rq_rep s' a ((V(c := v)) a)" if "a < n" for a
  proof (cases "a = c")
    case False
    then have "rq_rep s' a (V a) = rq_rep s a (V a)" using q h by (simp add: rq_rep_def queues_rep_def)
    then show ?thesis using r that False by (simp add: sched_rep_def)
  qed (use v(1) in simp)
  then show ?thesis using r unfolding sched_rep_def so h by blast
qed

lemma remove_ok:
  assumes r: "sched_rep s n V" and c: "c < n" and p: "rt_prio_ok (sc_heap s t)"
  shows "\<exists>s' v'. PerCpuRunQueue_remove s c t = Some (t \<in> set (service_order (V c)), s')
    \<and> sched_rep s' n (V(c := v')) \<and> service_order v' = remove1 t (service_order (V c)) \<and> rq_frame s s' c t
    \<and> (\<forall>u. sched_attrs (sc_heap s' u) = sched_attrs (sc_heap s u))"
proof -
  note rc = sched_rep_rq [OF r c]
  obtain L D C where v: "V c = (L, D, C)" by (cases "V c")
  have q: "queues_rep s c (L, D, C)" using rc by (simp add: rq_rep_def v)
  obtain s1 v' where s1: "remove_by_policy s c t = Some (t \<in> set (service_order (V c)), s1)" "removed_rep s s1 c t (V c) v'"
    using remove_by_policy_ok [OF q p] unfolding v by blast
  have at: "sched_attrs (sc_heap s1 u) = sched_attrs (sc_heap s u)" for u
    using s1(2) by (cases "u = t") (auto simp: removed_rep_def rq_frame_def)
  show ?thesis
  proof (cases "t \<in> set (service_order (V c))")
    case True
    define s' where "s' = rq_put (tcb_put s1 t clear_queued) c (\<lambda>rq. rq\<lparr>rq_nr_running := rq_nr_running rq - 1\<rparr>)"
    have "PerCpuRunQueue_remove s c t = Some (True, s')" using s1(1) True by (simp add: PerCpuRunQueue_remove_def s'_def)
    moreover have fr: "rq_frame s s' c t" using s1(2) by (auto simp: removed_rep_def rq_frame_def s'_def)
    moreover have "queues_rep s' c v'"
      by (rule queues_rep_cong [of s1]) (use s1(2) in \<open>auto simp: removed_rep_def s'_def\<close>)
    then have "sched_rep s' n (V(c := v'))"
      by (rule sched_rep_leave [OF r c _ fr]) (use s1(2) True in \<open>auto simp: removed_rep_def s'_def\<close>)
    moreover have "sched_attrs (sc_heap s' u) = sched_attrs (sc_heap s u)" for u using at by (simp add: s'_def)
    ultimately show ?thesis using s1(2) True
      by (intro exI [of _ s'] exI [of _ v']) (simp add: removed_rep_def del: fun_upd_apply)
  next
    case False
    have "PerCpuRunQueue_remove s c t = Some (False, s1)" using s1(1) False by (simp add: PerCpuRunQueue_remove_def)
    moreover have fr: "rq_frame s s1 c t" and so: "service_order v' = service_order (V c)"
      and h: "sc_heap s1 t = sc_heap s t"
      using s1(2) False by (simp_all add: removed_rep_def remove1_idem)
    moreover have "rq_rep s1 c v'" using s1(2) rc so by (simp add: removed_rep_def rq_rep_def)
    then have "sched_rep s1 n (V(c := v'))"
    proof (rule sched_rep_replace [OF r c _ so])
      show "sc_heap s1 = sc_heap s"
      proof
        fix u show "sc_heap s1 u = sc_heap s u" using fr h by (cases "u = t") (simp_all add: rq_frame_def)
      qed
    qed (use fr in \<open>simp add: rq_frame_def\<close>)
    ultimately show ?thesis using False at
      by (intro exI [of _ s1] exI [of _ v']) (simp add: remove1_idem del: fun_upd_apply)
  qed
qed

end
