(* ===== verification/Sched_Props.thy ===== *)
theory Sched_Props
  imports Sched_Pick
begin

text \<open>
  The properties of the scheduler: what each operation of the run queues does to the order of
  service, the invariant of every sequence of operations, the thread that \<open>pick_next_task\<close> returns,
  the order in which the sorted queues serve, admission control and time slices.
\<close>

section \<open>The initial state\<close>

definition no_view :: view where
  "no_view = (\<lambda>p. [], [], [])"

lemma service_order_no_view [simp]: "service_order no_view = []"
  by (simp add: no_view_def service_order_no_rt)

lemma rt_total_no_view [simp]: "rt_total (\<lambda>p. []) = 0"
  by (simp add: rt_total_def)

lemma sched_init_rep:
  assumes "\<forall>t. \<not> is_queued (sc_heap s t)" "n \<le> MAX_CPUS"
  shows "sched_rep (deadline_timer_init (init_percpu s n) n) n (\<lambda>c. no_view)"
proof -
  have "rq_rep (deadline_timer_init (init_percpu s n) n) c no_view" if "c < n" for c
  proof -
    have "c < min n MAX_CPUS" using that assms(2) by simp
    then show ?thesis
      using rt_new_holds dl_new_holds cfs_new_holds
      by (simp add: rq_rep_def queues_rep_def no_view_def deadline_timer_init_def init_percpu_def PerCpuRunQueue_new_def
          service_order_no_rt Let_def)
  qed
  moreover have "sc_heap (deadline_timer_init (init_percpu s n) n) = sc_heap s"
    by (simp add: deadline_timer_init_def init_percpu_def Let_def)
  ultimately show ?thesis using assms(1) by (simp add: sched_rep_def)
qed

section \<open>Runs of the scheduler\<close>

definition sched_inv :: "Sched \<Rightarrow> nat \<Rightarrow> (nat \<Rightarrow> view) \<Rightarrow> bool" where
  "sched_inv s n V = (sched_rep s n V \<and> (\<forall>t. rt_prio_ok (sc_heap s t)))"

lemma rt_prio_ok_attrs: "sched_attrs t = sched_attrs u \<Longrightarrow> rt_prio_ok t = rt_prio_ok u"
  by (simp add: sched_attrs_def rt_prio_ok_def)

lemma pick_scan_safe:
  assumes i: "sched_inv s n V" and c: "c < n"
  shows "\<exists>r s' V'. pick_scan m s c current = Some (r, s') \<and> sched_inv s' n V'"
proof -
  have r: "sched_rep s n V" using i by (simp add: sched_inv_def)
  obtain s' v' where s': "pick_scan m s c current =
      Some (pick_from (sc_heap s) (rq_idle_thread (sc_rq s c)) current m (service_order (V c)), s')"
      "sched_rep s' n (V(c := v'))" "\<forall>u. sched_attrs (sc_heap s' u) = sched_attrs (sc_heap s u)"
    using pick_scan_ok [OF r c, of m current] by blast
  have "rt_prio_ok (sc_heap s' t)" for t
    using rt_prio_ok_attrs [of "sc_heap s' t" "sc_heap s t"] s'(3) i by (simp add: sched_inv_def)
  then have "sched_inv s' n (V(c := v'))" using s'(2) by (simp add: sched_inv_def)
  then show ?thesis using s'(1) by blast
qed

lemma enqueue_safe:
  assumes i: "sched_inv s n V" and c: "c < n"
  shows "\<exists>b s' V'. PerCpuRunQueue_enqueue now s c t = Some (b, s') \<and> sched_inv s' n V'
    \<and> (\<forall>p. fst (V c) p \<noteq> [] \<longrightarrow> fst (V' c) p \<noteq> [])"
proof -
  have r: "sched_rep s n V" and p: "\<And>t. rt_prio_ok (sc_heap s t)" using i by (simp_all add: sched_inv_def)
  define b where "b = accepts s t (V c)"
  obtain s' where s': "PerCpuRunQueue_enqueue now s c t = Some (b, s')"
      "sched_rep s' n (if b then V(c := view_insert (sc_heap s') t (V c)) else V)" "rq_frame s s' c t"
      "tcb_policy (sc_heap s' t) = tcb_policy (sc_heap s t)" "tcb_priority (sc_heap s' t) = tcb_priority (sc_heap s t)"
    using enqueue_ok [OF r c p, of now t] unfolding b_def by blast
  define V' where "V' = (if b then V(c := view_insert (sc_heap s') t (V c)) else V)"
  have "rt_prio_ok (sc_heap s' x)" for x
    using p [of x] s'(3-5) by (cases "x = t") (simp_all add: rt_prio_ok_def rq_frame_def)
  then have "sched_inv s' n V'" using s'(2) by (simp add: sched_inv_def V'_def)
  moreover have "fst (view_insert h t v) p \<noteq> []" if "fst v p \<noteq> []" for h v p
    using that by (cases v) (auto simp: view_insert_def Let_def split: SchedPolicy.splits)
  then have "\<forall>p. fst (V c) p \<noteq> [] \<longrightarrow> fst (V' c) p \<noteq> []" by (simp add: V'_def)
  ultimately show ?thesis using s'(1) by blast
qed

lemma preempt_current_safe:
  assumes i: "sched_inv s n V" and c: "c < n" and ne: "fst (V c) p \<noteq> []"
  shows "\<exists>r s' V'. preempt_current now s c t = Some (r, s') \<and> sched_inv s' n V'"
proof -
  define s1 where "s1 = tcb_put (s\<lparr>PICK_RT_RT := PICK_RT_RT s + 1\<rparr>) t (\<lambda>x. set_task_state x Runnable)"
  have "sched_rep (s\<lparr>PICK_RT_RT := PICK_RT_RT s + 1\<rparr>) n V"
    by (rule sched_rep_same [of s]) (use i in \<open>simp_all add: sched_inv_def\<close>)
  then have "sched_rep s1 n V" unfolding s1_def by (rule sched_rep_set_state)
  moreover have "rt_prio_ok (sc_heap s1 u)" for u using i by (simp add: s1_def rt_prio_ok_def sched_inv_def)
  ultimately have "sched_inv s1 n V" by (simp add: sched_inv_def)
  then obtain b s2 V2 where s2: "PerCpuRunQueue_enqueue now s1 c t = Some (b, s2)" "sched_inv s2 n V2" "fst (V2 c) p \<noteq> []"
    using enqueue_safe [OF _ c, of s1 V now t] ne by blast
  obtain L D C where v: "V2 c = (L, D, C)" by (cases "V2 c")
  have "\<exists>p. L p \<noteq> []" using s2(3) v by auto
  then obtain u s3 v3 where u: "dequeue_highest_rt s2 c = Some (Some u, s3)" "sched_rep s3 n (V2(c := v3))"
      "sc_heap s3 = (sc_heap s2)(u := clear_queued (sc_heap s2 u))"
    using dequeue_highest_rt_ok [of s2 n V2 c L D C] s2(2) c v unfolding sched_inv_def by blast
  have "rt_prio_ok (sc_heap s3 x)" for x using s2(2) by (simp add: u(3) rt_prio_ok_def sched_inv_def)
  then have "sched_inv s3 n (V2(c := v3))" using u(2) by (simp add: sched_inv_def)
  moreover have "preempt_current now s c t = Some (Switch u, s3)"
    using s2(1) u(1) by (simp add: preempt_current_def s1_def)
  ultimately show ?thesis by blast
qed

lemma pick_next_task_safe:
  assumes i: "sched_inv s n V" and c: "c < n"
  shows "\<exists>r s' V'. pick_next_task True now s c current = Some (r, s') \<and> sched_inv s' n V'"
proof -
  define s0 where "s0 = s\<lparr>PICK_NEXT_TOTAL := PICK_NEXT_TOTAL s + 1\<rparr>"
  have i0: "sched_inv s0 n V" "sched_inv (s0\<lparr>PICK_SAME_CURRENT := k\<rparr>) n V" for k
    using i sched_rep_same [of s n V] by (simp_all add: sched_inv_def s0_def)
  obtain L D C where v: "V c = (L, D, C)" by (cases "V c")
  have bm: "rt_bitmap_highest_prio (sc_rq s0 c) = (if \<exists>p. L p \<noteq> [] then Some (LEAST p. L p \<noteq> []) else None)"
    by (rule rt_bitmap_highest [of s0 n V c L D C]) (use i0 c v in \<open>simp_all add: sched_inv_def\<close>)
  have pre: "\<exists>r s' V'. preempt_current now s0 c t = Some (r, s') \<and> sched_inv s' n V'" if "rt_bitmap_highest_prio (sc_rq s0 c) = Some b" for b t
    using preempt_current_safe [OF i0(1) c] that bm v by (metis fst_conv option.discI)
  have scan: "\<exists>r s' V'. pick_scan MAX_PICK_SKIP_SCAN s0 c current = Some (r, s') \<and> sched_inv s' n V'"
    by (rule pick_scan_safe [OF i0(1) c])
  have e: "pick_next_task True now s c current = (case current of
       None \<Rightarrow> pick_scan MAX_PICK_SKIP_SCAN s0 c current
     | Some cur \<Rightarrow>
         if task_state (sc_heap s0 cur) = Running
            \<and> (tcb_policy (sc_heap s0 cur) = Fifo \<or> tcb_policy (sc_heap s0 cur) = RoundRobin)
         then (case rt_bitmap_highest_prio (sc_rq s0 c) of
                 Some best_prio \<Rightarrow> if best_prio < unat (tcb_priority (sc_heap s0 cur)) then preempt_current now s0 c cur
                   else Some (KeepRunning, s0\<lparr>PICK_SAME_CURRENT := PICK_SAME_CURRENT s0 + 1\<rparr>)
               | None \<Rightarrow> Some (KeepRunning, s0\<lparr>PICK_SAME_CURRENT := PICK_SAME_CURRENT s0 + 1\<rparr>))
         else pick_scan MAX_PICK_SKIP_SCAN s0 c current)"
    by (simp only: pick_next_task_def s0_def Let_def not_True_eq_False if_False)
  show ?thesis unfolding e using i0(2) pre scan by (auto split: option.split)
qed

section \<open>Fairness order\<close>

text \<open>The fair class of an order of service stands in order of virtual run time.\<close>

definition fair_order :: "heap \<Rightarrow> ptr list \<Rightarrow> bool" where
  "fair_order h xs = sorted (map (vruntime_in h) (filter (\<lambda>t. tcb_policy (h t) \<in> {NormalPolicy, Batch}) xs))"

lemma fair_order_cong:
  assumes "\<And>t. t \<in> set xs \<Longrightarrow> tcb_policy (h' t) = tcb_policy (h t) \<and> tcb_vruntime (h' t) = tcb_vruntime (h t)"
  shows "fair_order h' xs = fair_order h xs"
proof -
  have "filter (\<lambda>t. tcb_policy (h' t) \<in> {NormalPolicy, Batch}) xs = filter (\<lambda>t. tcb_policy (h t) \<in> {NormalPolicy, Batch}) xs"
    using assms by (intro filter_cong) auto
  moreover have "vruntime_in h' t = vruntime_in h t" if "t \<in> set xs" for t
    using assms [OF that] by (simp add: vruntime_in_def)
  ultimately show ?thesis unfolding fair_order_def by (auto intro!: arg_cong [of _ _ sorted])
qed

lemma fair_order_view:
  assumes "queues_rep s c (L, D, C)"
  shows "fair_order (sc_heap s) (service_order (L, D, C)) = sorted (map (vruntime_in (sc_heap s)) C)"
proof -
  have n: "filter (\<lambda>t. tcb_policy (sc_heap s t) \<in> {NormalPolicy, Batch}) xs = []"
    if "\<forall>t \<in> set xs. tcb_policy (sc_heap s t) \<in> {Fifo, RoundRobin, Deadline}" for xs
    using that by (auto simp: filter_empty_conv)
  have "filter (\<lambda>t. tcb_policy (sc_heap s t) \<in> {NormalPolicy, Batch}) (concat (map L [0..<100])) = []"
    "filter (\<lambda>t. tcb_policy (sc_heap s t) \<in> {NormalPolicy, Batch}) D = []"
    by (rule n, use assms in \<open>fastforce simp: queues_rep_def\<close>)+
  moreover have "filter (\<lambda>t. tcb_policy (sc_heap s t) \<in> {NormalPolicy, Batch}) C = C"
    using assms by (simp add: queues_rep_def)
  ultimately show ?thesis by (simp only: fair_order_def service_order_def prod.case filter_append append_Nil)
qed

lemma fair_order_drop: "fair_order h xs \<Longrightarrow> fair_order h (drop k xs)"
  unfolding fair_order_def
  by (metis append_take_drop_id filter_append map_append sorted_append)

lemma fair_order_enqueue:
  assumes r: "queues_rep s c v" and r': "queues_rep s' c (view_insert (sc_heap s') t v)"
    and f: "fair_order (sc_heap s) (service_order v)"
    and h: "\<And>u. u \<noteq> t \<Longrightarrow> sc_heap s' u = sc_heap s u" and t: "t \<notin> set (service_order v)"
  shows "fair_order (sc_heap s') (service_order (view_insert (sc_heap s') t v))"
proof -
  obtain L D C where v: "v = (L, D, C)" by (cases v)
  have "sorted (map (vruntime_in (sc_heap s)) C)" using f r fair_order_view by (simp add: v)
  moreover have "vruntime_in (sc_heap s') u = vruntime_in (sc_heap s) u" if "u \<in> set C" for u
  proof -
    have "u \<noteq> t" using that t unfolding v set_service_order by blast
    then show ?thesis by (simp add: h vruntime_in_def)
  qed
  ultimately have so: "sorted (map (vruntime_in (sc_heap s')) C)" by (metis map_eq_conv)
  obtain L' D' C' where v': "view_insert (sc_heap s') t v = (L', D', C')" by (metis prod_cases3)
  have "C' = C \<or> C' = insert_after (vruntime_in (sc_heap s')) t C"
    using v' bisect_insert_sorted [OF so, of t]
    by (cases "tcb_policy (sc_heap s' t)") (simp_all add: v view_insert_def Let_def)
  then have "sorted (map (vruntime_in (sc_heap s')) C')" using so sorted_insert_after by metis
  then show ?thesis using fair_order_view r' v' by simp
qed

section \<open>A small machine\<close>

text \<open>
  Two CPUs; thread 8 is a FIFO thread of priority 10, thread 9 a deadline thread, thread 7 a
  round-robin thread of priority 20, every other thread is of the fair class.
\<close>

definition sample_heap :: heap where
  "sample_heap t =
    (if t = 7 then TCB_new 7 1 RoundRobin 20 else if t = 8 then TCB_new 8 1 Fifo 10
     else if t = 9 then (TCB_new 9 1 Deadline 120)\<lparr>tcb_dl_runtime := 200, tcb_dl_period := 1000\<rparr>
     else TCB_new (of_nat t) 1 NormalPolicy 120)"

definition sample_sched :: Sched where
  "sample_sched = deadline_timer_init (init_percpu
    \<lparr>sc_heap = sample_heap, sc_rq = (\<lambda>c. PerCpuRunQueue_new 0), sc_dl = (\<lambda>c. DeadlineQueue_new),
     sc_dlg = DeadlineGlobals_init, RUNQUEUE_INITIALIZED = False, RUNQUEUE_NR_CPUS = 0, PICK_NEXT_TOTAL = 0,
     PICK_SAME_CURRENT = 0, PICK_RT_RT = 0, PICK_SKIP_INELIGIBLE = 0\<rparr> 2) 2"

lemma new_tcb_reads [simp]:
  "\<not> is_queued (TCB_new a b p q)" "task_state (TCB_new a b p q) = Runnable"
  "tcb_policy (TCB_new a b p q) = p" "tcb_priority (TCB_new a b p q) = q" "tcb_vruntime (TCB_new a b p q) = 0"
  by (simp_all add: is_queued_def task_state_def TCB_new_def TaskState_as_u8_def TaskState_from_u8_def
      SCHED_QUEUED_BIT_def)

lemma dl_fields_reads [simp]:
  "is_queued (t\<lparr>tcb_dl_runtime := a, tcb_dl_period := b\<rparr>) = is_queued t"
  "task_state (t\<lparr>tcb_dl_runtime := a, tcb_dl_period := b\<rparr>) = task_state t"
  by (simp_all add: is_queued_def task_state_def)

lemma sample_heap_of [simp]: "sc_heap sample_sched = sample_heap"
  by (simp add: sample_sched_def deadline_timer_init_def init_percpu_def Let_def)

lemma sample_ready: "task_state (sample_heap t) = Runnable" "\<not> is_queued (sample_heap t)" "rt_prio_ok (sample_heap t)"
  by (simp_all add: sample_heap_def rt_prio_ok_def)

lemma sample_rep: "sched_rep sample_sched 2 (\<lambda>c. no_view)"
  unfolding sample_sched_def by (rule sched_init_rep) (simp_all add: sample_ready)

lemma sample_room: "has_room sample_heap t no_view"
  by (simp add: has_room_def no_view_def sample_heap_def)

text \<open>The machine after threads have arrived on CPU 0.\<close>

definition arrive :: "Sched \<Rightarrow> ptr \<Rightarrow> Sched" where
  "arrive s t = snd (the (PerCpuRunQueue_enqueue 5 s 0 t))"

definition queues_at :: "Sched \<Rightarrow> view \<Rightarrow> bool" where
  "queues_at s v = (sched_rep s 2 ((\<lambda>c. no_view)(0 := v))
    \<and> (\<forall>t. tcb_policy (sc_heap s t) = tcb_policy (sample_heap t) \<and> tcb_priority (sc_heap s t) = tcb_priority (sample_heap t)
        \<and> tcb_vruntime (sc_heap s t) = tcb_vruntime (sample_heap t) \<and> task_state (sc_heap s t) = Runnable)
    \<and> rq_idle_thread (sc_rq s 0) = None)"

lemma queues_at_sample: "queues_at sample_sched no_view"
proof -
  have "rq_idle_thread (sc_rq sample_sched 0) = None"
    by (simp add: sample_sched_def deadline_timer_init_def init_percpu_def PerCpuRunQueue_new_def)
  moreover have "(\<lambda>c :: nat. no_view)(0 := no_view) = (\<lambda>c. no_view)" by (rule fun_upd_idem) simp
  ultimately show ?thesis using sample_rep sample_ready by (simp only: queues_at_def sample_heap_of simp_thms)
qed

lemma queues_at_arrive:
  assumes q: "queues_at s v" and t: "t \<notin> set (service_order v)" "has_room sample_heap t v"
  shows "PerCpuRunQueue_enqueue 5 s 0 t = Some (True, arrive s t)"
    "queues_at (arrive s t) (view_insert (sc_heap (arrive s t)) t v)"
proof -
  define V where "V = (\<lambda>c :: nat. no_view)(0 := v)"
  have r: "sched_rep s 2 V" using q by (simp add: queues_at_def V_def)
  have at: "tcb_policy (sc_heap s u) = tcb_policy (sample_heap u)" "tcb_priority (sc_heap s u) = tcb_priority (sample_heap u)"
    "task_state (sc_heap s u) = Runnable" for u using q by (simp_all add: queues_at_def)
  have nq: "\<not> is_queued (sc_heap s t)"
    using r t(1) by (simp add: sched_rep_def V_def less_2_cases_iff)
  have acc: "accepts s t (V 0)" using nq t(2) at has_room_cong [of "sc_heap s" t sample_heap v] by (simp add: accepts_def V_def)
  have p: "rt_prio_ok (sc_heap s t)" using at sample_ready(3) [of t] by (simp add: rt_prio_ok_def)
  obtain s' where s': "PerCpuRunQueue_enqueue 5 s 0 t = Some (True, s')"
      "sched_rep s' 2 (V(0 := view_insert (sc_heap s') t v))" "rq_frame s s' 0 t"
      "task_state (sc_heap s' t) = task_state (sc_heap s t)"
      "tcb_policy (sc_heap s' t) = tcb_policy (sc_heap s t)" "tcb_priority (sc_heap s' t) = tcb_priority (sc_heap s t)"
      "tcb_vruntime (sc_heap s' t) = tcb_vruntime (sc_heap s t)"
    using enqueue_ok [OF r _ p, of 0 5] acc by (auto simp: V_def)
  have "arrive s t = s'" by (simp add: arrive_def s'(1))
  moreover have h: "u \<noteq> t \<Longrightarrow> sc_heap s' u = sc_heap s u" for u using s'(3) by (simp add: rq_frame_def)
  moreover have "tcb_policy (sc_heap s' u) = tcb_policy (sample_heap u) \<and> tcb_priority (sc_heap s' u) = tcb_priority (sample_heap u)
        \<and> tcb_vruntime (sc_heap s' u) = tcb_vruntime (sample_heap u) \<and> task_state (sc_heap s' u) = Runnable" for u
    using h [of u] s'(4-7) q by (cases "u = t") (simp_all add: queues_at_def)
  moreover have "rq_idle_thread (sc_rq s' 0) = None" using s'(3) q by (simp add: rq_frame_def queues_at_def)
  ultimately show "PerCpuRunQueue_enqueue 5 s 0 t = Some (True, arrive s t)"
    "queues_at (arrive s t) (view_insert (sc_heap (arrive s t)) t v)"
    using s'(1,2) by (simp_all add: queues_at_def V_def)
qed

text \<open>A real-time, a deadline and a fair thread are waiting.\<close>

definition sample_busy :: Sched where
  "sample_busy = arrive (arrive (arrive sample_sched 3) 9) 8"

lemma sample_busy_view: "queues_at sample_busy ((\<lambda>p. [])(10 := [8]), [9], [3])"
proof -
  have pol: "tcb_policy (sc_heap s 3) = NormalPolicy" "tcb_policy (sc_heap s 9) = Deadline" "tcb_policy (sc_heap s 8) = Fifo"
    "tcb_priority (sc_heap s 8) = 10" if "queues_at s v" for s v
    using that by (simp_all add: queues_at_def sample_heap_def)
  define s1 where "s1 = arrive sample_sched 3"
  have q1: "queues_at s1 (view_insert (sc_heap s1) 3 no_view)" unfolding s1_def
    by (rule queues_at_arrive(2) [OF queues_at_sample]) (simp_all add: sample_room)
  then have v1: "queues_at s1 ((\<lambda>p. []), [], [3])"
    using pol(1) [OF q1] by (simp add: view_insert_def no_view_def bisect_insert_def)
  define s2 where "s2 = arrive s1 9"
  have q2: "queues_at s2 (view_insert (sc_heap s2) 9 ((\<lambda>p. []), [], [3]))" unfolding s2_def
    by (rule queues_at_arrive(2) [OF v1]) (simp_all add: set_service_order has_room_def sample_heap_def)
  then have v2: "queues_at s2 ((\<lambda>p. []), [9], [3])"
    using pol(2) [OF q2] by (simp add: view_insert_def insert_after_def)
  define s3 where "s3 = arrive s2 8"
  have q3: "queues_at s3 (view_insert (sc_heap s3) 8 ((\<lambda>p. []), [9], [3]))" unfolding s3_def
    by (rule queues_at_arrive(2) [OF v2]) (simp_all add: set_service_order has_room_def sample_heap_def)
  have "view_insert (sc_heap s3) 8 ((\<lambda>p. []), [9], [3]) = ((\<lambda>p. [])(10 := [8]), [9], [3])"
    using pol(3,4) [OF q3] by (simp add: view_insert_def)
  then show ?thesis using q3 by (simp only: sample_busy_def s1_def s2_def s3_def)
qed

lemma one_level: "concat (map ((\<lambda>p. [])(10 := [8 :: ptr])) [0..<100]) = [8]"
  using concat_levels_split [of 10 "(\<lambda>p. [])(10 := [8 :: ptr])"] by simp

lemma sample_busy_order: "service_order ((\<lambda>p. [])(10 := [8]), [9], [3]) = [8, 9, 3]"
  by (simp only: service_order_def prod.case one_level) simp

section \<open>Properties\<close>



text \<open>
  C18: \<open>PerCpuRunQueue::pick_next\<close> pops the order of service.  It returns the head: the oldest thread of
  the highest non-empty real-time level, else the earliest deadline, else the first fair thread, else
  the idle thread.  The rest of the order is unchanged, the queued bit of the returned thread is
  cleared and nothing else in memory changes.
\<close>

theorem pick_next_pops_order:
  assumes r: "sched_rep s n V" and c: "c < n"
  shows "\<exists>s' v'. PerCpuRunQueue_pick_next s c =
      Some (case service_order (V c) of [] \<Rightarrow> rq_idle_thread (sc_rq s c) | t # _ \<Rightarrow> Some t, s')
    \<and> sched_rep s' n (V(c := v')) \<and> service_order v' = tl (service_order (V c))
    \<and> sc_heap s' = (case service_order (V c) of [] \<Rightarrow> sc_heap s | t # _ \<Rightarrow> (sc_heap s)(t := clear_queued (sc_heap s t)))"
proof (cases "service_order (V c)")
  case Nil
  obtain s' where "PerCpuRunQueue_pick_next s c = Some (rq_idle_thread (sc_rq s c), s')" "sched_rep s' n V"
      "sc_heap s' = sc_heap s"
    using pick_idle_ok [OF r c Nil] by blast
  then show ?thesis using Nil by (intro exI [of _ s'] exI [of _ "V c"]) simp
next
  case (Cons t ts)
  obtain s' v' where "PerCpuRunQueue_pick_next s c = Some (Some t, s')" "service_order v' = ts"
      "sched_rep s' n (V(c := v'))" "sc_heap s' = (sc_heap s)(t := clear_queued (sc_heap s t))"
    using pick_next_ok [OF r c Cons] by blast
  then show ?thesis using Cons by (intro exI [of _ s'] exI [of _ v']) (simp del: fun_upd_apply)
qed

theorem pick_next_pops_order_witness:
  "\<exists>s' v'. PerCpuRunQueue_pick_next sample_busy 0 = Some (Some 8, s')
    \<and> sched_rep s' 2 ((\<lambda>c. no_view)(0 := v')) \<and> service_order v' = [9, 3]
    \<and> sc_heap s' = (sc_heap sample_busy)(8 := clear_queued (sc_heap sample_busy 8))"
  using pick_next_pops_order [of sample_busy 2 "(\<lambda>c. no_view)(0 := ((\<lambda>p. [])(10 := [8]), [9], [3]))" 0]
    sample_busy_view by (simp add: queues_at_def sample_busy_order del: fun_upd_apply add: fun_upd_same)

lemma pick_from_prefix:
  assumes "k = length (takeWhile (\<lambda>t. \<not> eligible (h t)) xs)"
  shows "k < m \<Longrightarrow> k < length xs \<Longrightarrow> pick_from h idle current m xs = decide current (xs ! k) \<and> picked h m xs = Suc k"
    "m \<le> k \<Longrightarrow> pick_from h idle current m xs = GoIdle \<and> picked h m xs = m"
  using assms
  by (induction h idle current m xs arbitrary: k rule: pick_from.induct) (auto split: if_splits)

text \<open>
  C20: What \<open>pick_next_task\<close> returns when the current thread is not a running real-time thread.  Let \<open>k\<close>
  be the number of threads at the head of the order of service that are no longer runnable.  If
  \<open>k\<close> is below the scan limit of 800 and below the length of the order, the thread behind them is
  returned (as \<open>KeepRunning\<close> when it is the current one), and the threads up to it have left the queue.
  If the limit is reached the CPU goes idle, whatever is waiting behind: the queues can hold
  832 threads.
\<close>

theorem pick_next_task_first_eligible:
  assumes r: "sched_rep s n V" and c: "c < n"
    and cur: "\<forall>t. current = Some t \<longrightarrow>
      task_state (sc_heap s t) \<noteq> Running \<or> tcb_policy (sc_heap s t) \<notin> {Fifo, RoundRobin}"
    and k: "k = length (takeWhile (\<lambda>t. \<not> eligible (sc_heap s t)) (service_order (V c)))"
  shows "\<exists>s' v' result. pick_next_task True now s c current = Some (result, s') \<and> sched_rep s' n (V(c := v'))
    \<and> (k < 800 \<and> k < length (service_order (V c)) \<longrightarrow>
         result = decide current (service_order (V c) ! k) \<and> service_order v' = drop (Suc k) (service_order (V c)))
    \<and> (800 \<le> k \<longrightarrow> result = GoIdle \<and> service_order v' = drop 800 (service_order (V c)))"
proof -
  define s0 where "s0 = s\<lparr>PICK_NEXT_TOTAL := PICK_NEXT_TOTAL s + 1\<rparr>"
  have r0: "sched_rep s0 n V" unfolding s0_def by (rule sched_rep_same [OF r]) simp_all
  have h0: "sc_heap s0 = sc_heap s" by (simp add: s0_def)
  have "pick_next_task True now s c current = pick_scan 800 s0 c current"
    using cur by (auto simp: pick_next_task_def s0_def Let_def MAX_PICK_SKIP_SCAN_def split: option.split)
  moreover obtain s' v' where s': "pick_scan 800 s0 c current =
      Some (pick_from (sc_heap s) (rq_idle_thread (sc_rq s0 c)) current 800 (service_order (V c)), s')"
      "sched_rep s' n (V(c := v'))"
      "service_order v' = drop (picked (sc_heap s) 800 (service_order (V c))) (service_order (V c))"
    using pick_scan_ok [OF r0 c, of 800 current] unfolding h0 by blast
  moreover define result where "result = pick_from (sc_heap s) (rq_idle_thread (sc_rq s0 c)) current 800 (service_order (V c))"
  moreover note pick_from_prefix [OF k, of 800 "rq_idle_thread (sc_rq s0 c)" current, folded result_def]
  ultimately show ?thesis
    by (intro exI [of _ s'] exI [of _ v'] exI [of _ result]) (simp del: fun_upd_apply)
qed

text \<open>Thread 8 went to sleep while it was queued.\<close>

definition sample_stale :: Sched where
  "sample_stale = tcb_put sample_busy 8 (\<lambda>t. set_task_state t Sleeping)"

theorem pick_next_task_first_eligible_witness:
  "\<exists>s' v' result. pick_next_task True 0 sample_stale 0 None = Some (result, s') \<and> sched_rep s' 2 ((\<lambda>c. no_view)(0 := v'))
    \<and> result = Switch 9 \<and> service_order v' = [3]"
proof -
  define V where "V = (\<lambda>c :: nat. no_view)(0 := ((\<lambda>p. [])(10 := [8]), [9], [3]))"
  have r: "sched_rep sample_stale 2 V" unfolding sample_stale_def V_def
    by (rule sched_rep_set_state) (use sample_busy_view in \<open>simp add: queues_at_def\<close>)
  have st: "task_state (sc_heap sample_busy t) = Runnable" for t using sample_busy_view by (simp add: queues_at_def)
  have so: "service_order (V 0) = [8, 9, 3]" unfolding V_def fun_upd_same by (rule sample_busy_order)
  have e: "length (takeWhile (\<lambda>t. \<not> eligible (sc_heap sample_stale t)) (service_order (V 0))) = 1"
    by (simp add: so sample_stale_def eligible_def st)
  obtain s' v' result where res: "pick_next_task True 0 sample_stale 0 None = Some (result, s')" "sched_rep s' 2 (V(0 := v'))"
      "(1 :: nat) < 800 \<and> 1 < length (service_order (V 0)) \<longrightarrow>
        result = decide None (service_order (V 0) ! 1) \<and> service_order v' = drop (Suc 1) (service_order (V 0))"
    using pick_next_task_first_eligible [OF r _ _ e [symmetric], of None 0] by fastforce
  have "V(0 := v') = (\<lambda>c. no_view)(0 := v')" by (simp add: V_def)
  then show ?thesis using res so by (intro exI [of _ s'] exI [of _ v'] exI [of _ result]) (simp add: decide_def del: fun_upd_apply)
qed


definition sample_preempt :: Sched where
  "sample_preempt = tcb_put sample_busy 7 (\<lambda>t. set_task_state t Running)"


text \<open>
  C19: The fair queue and the deadline queue serve in stable order of their key.  Threads enqueued one
  after the other into an empty queue, at most as many as it can hold, are dequeued in the order of a
  stable sort: by virtual run time for the bisected CFS array, by absolute deadline for the scanned
  EDF array, and in order of arrival among equal keys.
\<close>

theorem sorted_queues_are_stable_sorts:
  assumes "length ts \<le> 512" "length us \<le> 64"
  shows "cfs.pop_n (length ts) h (foldl (\<lambda>q t. snd (CfsRunQueue_enqueue h q t)) CfsRunQueue_new ts)
      = map Some (sort_key (\<lambda>t. tcb_vruntime (h t)) ts)
    \<and> edf.pop_n g (length us) h (foldl (\<lambda>q t. snd (DeadlineQueue_insert h q t)) DeadlineQueue_new us)
      = map Some (sort_key (\<lambda>t. tcb_deadline_abs (h t)) us)"
proof -
  have "vruntime_in h = (\<lambda>t. tcb_vruntime (h t))" "deadline_in h = (\<lambda>t. tcb_deadline_abs (h t))"
    by (simp_all add: fun_eq_iff vruntime_in_def deadline_in_def)
  then show ?thesis
    using cfs.stable_order [OF cfs_new_holds, of ts h]
      edf.stable_order [where g = g and ts = us and h = h, OF dl_new_holds] assms
    by (simp add: cfs.push_all_def edf.push_all_def)
qed

definition sample_keys :: heap where
  "sample_keys t = (TCB_new (of_nat t) 1 NormalPolicy 120)\<lparr>tcb_vruntime := of_nat (t mod 3), tcb_deadline_abs := of_nat (t mod 2)\<rparr>"

theorem sorted_queues_are_stable_sorts_witness:
  "cfs.pop_n 4 sample_keys (foldl (\<lambda>q t. snd (CfsRunQueue_enqueue sample_keys q t)) CfsRunQueue_new [5, 4, 3, 6])
      = map Some [3, 6, 4, 5]
   \<and> edf.pop_n DeadlineGlobals_init 3 sample_keys
      (foldl (\<lambda>q t. snd (DeadlineQueue_insert sample_keys q t)) DeadlineQueue_new [5, 4, 3]) = map Some [4, 5, 3]"
proof -
  have "sort_key (\<lambda>t. tcb_vruntime (sample_keys t)) [5, 4, 3, 6] = [3, 6, 4, 5]"
    "sort_key (\<lambda>t. tcb_deadline_abs (sample_keys t)) [5, 4, 3] = [4, 5, 3]"
    by (simp_all add: sample_keys_def TCB_new_def word_le_nat_alt)
  moreover have "length [5, 4, 3, 6 :: ptr] = 4" "length [5, 4, 3 :: ptr] = 3" "(4 :: nat) \<le> 512" "(3 :: nat) \<le> 64" by simp_all
  ultimately show ?thesis
    using sorted_queues_are_stable_sorts [of "[5, 4, 3, 6]" "[5, 4, 3]" sample_keys DeadlineGlobals_init] by (simp only: simp_thms)
qed

text \<open>
  C22: The walks over the linked real-time slots end.  On a queue that holds its levels, enqueue and
  remove return for every thread whose priority is a real-time level, and the dequeue always returns.
  They panic for a priority of 100 or more, which indexes past the level table; only a full pool
  makes enqueue return before it looks at the priority.
\<close>

theorem rt_walks_terminate:
  assumes q: "rt_holds q L"
  shows "((\<exists>r. RtRunQueue_enqueue h q t = Some r) \<longleftrightarrow> unat (tcb_priority (h t)) < 100 \<or> rt_total L = 256)
    \<and> ((\<exists>r. rt_remove h q t = Some r) \<longleftrightarrow> unat (tcb_priority (h t)) < 100)
    \<and> (\<exists>r. RtRunQueue_dequeue_highest q = Some r)"
proof (intro conjI)
  have le: "rt_total L \<le> 256" using rt_holds_total [OF q] by simp
  show "(\<exists>r. RtRunQueue_enqueue h q t = Some r) \<longleftrightarrow> unat (tcb_priority (h t)) < 100 \<or> rt_total L = 256"
  proof (cases "rt_total L = 256 \<or> unat (tcb_priority (h t)) < 100")
    case True
    then show ?thesis
      using rt_enqueue_at_capacity [OF q, of h t] rt_enqueue_ok [where h = h and t = t, OF q refl] le by fastforce
  next
    case False
    obtain S F where r: "rt_rel q S F" using q by (auto simp: rt_holds_def)
    have "length F + unat (rt_count q) = 256" using r by (simp add: rt_rel_def)
    then have "F \<noteq> []" using rt_holds_total [OF q] False by auto
    then have "RtRunQueue_enqueue h q t = None"
      using rt_enqueue_panics [of q S] r False by (cases F) auto
    then show ?thesis using False by simp
  qed
  show "(\<exists>r. rt_remove h q t = Some r) \<longleftrightarrow> unat (tcb_priority (h t)) < 100"
    using rt_remove_ok [where h = h and t = t, OF q refl] rt_remove_panics [of h t q] by fastforce
  show "\<exists>r. RtRunQueue_dequeue_highest q = Some r"
  proof (cases "\<exists>p. L p \<noteq> []")
    case True
    obtain p t ts where "p = (LEAST p. L p \<noteq> [])" "L p = t # ts" using highest_level [OF q True] by metis
    then show ?thesis using rt_dequeue_ok [OF q] by blast
  qed (use rt_dequeue_empty [OF q] in blast)
qed

theorem rt_walks_terminate_witness:
  "((\<exists>r. RtRunQueue_enqueue sample_heap RtRunQueue_new 8 = Some r) \<longleftrightarrow> unat (tcb_priority (sample_heap 8)) < 100 \<or> rt_total (\<lambda>p. []) = 256)
    \<and> ((\<exists>r. rt_remove sample_heap RtRunQueue_new 8 = Some r) \<longleftrightarrow> unat (tcb_priority (sample_heap 8)) < 100)
    \<and> (\<exists>r. RtRunQueue_dequeue_highest RtRunQueue_new = Some r)"
  by (rule rt_walks_terminate [OF rt_new_holds])

text \<open>The operations that write one flag of the state word, and those that write its state byte.\<close>

definition flag_ops :: "(ThreadControlBlock \<Rightarrow> ThreadControlBlock) list" where
  "flag_ops = [set_signal_pending, clear_signal_pending, mark_exiting, clear_queued, \<lambda>t. snd (try_mark_queued t),
     \<lambda>t. set_fpu_loaded t True, \<lambda>t. set_fpu_loaded t False, request_preemption, \<lambda>t. snd (take_need_resched t)]"

definition state_ops :: "TaskState \<Rightarrow> TaskState \<Rightarrow> (ThreadControlBlock \<Rightarrow> ThreadControlBlock) list" where
  "state_ops src dst = [\<lambda>t. set_task_state t dst, \<lambda>t. snd (try_transition t src dst), \<lambda>t. force_transition t src dst]"

text \<open>The state byte is one of the seven encodings.\<close>

definition state_wf :: "ThreadControlBlock \<Rightarrow> bool" where
  "state_wf t = (tcb_sched_state t AND SCHED_STATE_MASK \<in> range TaskState_as_u8)"

lemma flag_op_keeps_byte:
  assumes "f \<in> set flag_ops"
  shows "tcb_sched_state (f t) AND SCHED_STATE_MASK = tcb_sched_state t AND SCHED_STATE_MASK"
proof -
  have e: "tcb_sched_state (mark_exiting t) AND SCHED_STATE_MASK = tcb_sched_state t AND SCHED_STATE_MASK"
    by (simp add: mark_exiting_def sched_bits state_of_flag_update or.assoc [symmetric] del: push_bit_of_1)
  show ?thesis
    using assms e unfolding flag_ops_def
    by (auto simp: set_signal_pending_def clear_signal_pending_def clear_queued_def try_mark_queued_def
        set_fpu_loaded_def request_preemption_def take_need_resched_def sched_bits state_of_flag_update
        simp del: push_bit_of_1)
qed

lemma state_op_word:
  "f \<in> set (state_ops src dst) \<Longrightarrow>
    tcb_sched_state (f t) = tcb_sched_state t \<or> tcb_sched_state (f t) = (tcb_sched_state t AND NOT SCHED_STATE_MASK) OR TaskState_as_u8 dst"
  by (auto simp: state_ops_def set_task_state_def try_transition_def force_transition_def)



end
