(* ===== verification/Sched_Switch.thy ===== *)
theory Sched_Switch
  imports Sched_Props
begin

text \<open>
  The scheduling points of \<open>kernel/src/scheduler/core/switch.rs\<close>: voluntary yield, blocking, wake-up,
  the idle loop, and what \<open>context_switch\<close> does to the two control blocks.  Registers, page tables,
  FPU areas and model-specific registers belong to the processor and are not represented.  A handler
  that reads the clock several times gets the reading \<open>clock i\<close> at its \<open>i\<close>-th enqueue.
\<close>

section \<open>Definitions\<close>

record Machine =
  m_sched :: Sched
  TSC_HZ :: u64
  last_switch_tsc :: "nat \<Rightarrow> u64"
  CURRENT_THREAD_PER_CPU :: "nat \<Rightarrow> ptr option"

definition tsc_cycles_to_ns :: "u64 \<Rightarrow> u64 \<Rightarrow> u64" where
  "tsc_cycles_to_ns hz cycles = (if hz = 0 then cycles else of_nat (unat cycles * 1000000000 div unat hz))"

text \<open>
  \<open>now_tsc\<close> and \<open>out_tsc\<close> are the two readings of the time-stamp counter, \<open>cpu\<close> the executing CPU.
\<close>

definition charge_runtime :: "u64 \<Rightarrow> Machine \<Rightarrow> nat \<Rightarrow> ThreadControlBlock \<Rightarrow> ThreadControlBlock" where
  "charge_runtime now_tsc m cpu prev =
    (let last = last_switch_tsc m cpu in
     if cpu < MAX_CPUS \<and> last \<noteq> 0 then
       let delta_ns = tsc_cycles_to_ns (TSC_HZ m) (now_tsc - last) in
       (case tcb_policy prev of
          NormalPolicy \<Rightarrow> advance_vruntime prev delta_ns (cfs_weight (tcb_priority prev))
        | Batch \<Rightarrow> advance_vruntime prev delta_ns (cfs_weight (tcb_priority prev))
        | _ \<Rightarrow> prev)
     else prev)"

definition switch_out :: "ThreadControlBlock \<Rightarrow> ThreadControlBlock" where
  "switch_out prev =
    (let prev = set_fpu_loaded prev False in
     if task_state prev = Running then set_task_state prev Runnable else prev)"

definition switch_in :: "nat \<Rightarrow> ThreadControlBlock \<Rightarrow> ThreadControlBlock" where
  "switch_in cpu next =
    (let next = set_fpu_loaded next (\<not> is_kthread next);
         next = assign_cpu next (of_nat cpu)
     in set_task_state next Running)"

definition context_switch :: "u64 \<Rightarrow> u64 \<Rightarrow> Machine \<Rightarrow> nat \<Rightarrow> ptr \<Rightarrow> ptr \<Rightarrow> Machine" where
  "context_switch now_tsc out_tsc m cpu prev next =
    (let s = tcb_put (m_sched m) prev (\<lambda>t. charge_runtime now_tsc m cpu (switch_out t));
         s = tcb_put s next (switch_in cpu);
         m = m\<lparr>m_sched := s\<rparr>
     in if cpu < MAX_CPUS
        then m\<lparr>last_switch_tsc := (last_switch_tsc m)(cpu := out_tsc),
               CURRENT_THREAD_PER_CPU := (CURRENT_THREAD_PER_CPU m)(cpu := Some next)\<rparr>
        else m)"

text \<open>
  The part of \<open>schedule_yield\<close> inside the critical section: the thread to switch to, if any.
  \<open>c\<close> is the CPU of the run queue and \<open>cpu\<close> the executing one.
\<close>

definition requeue_current :: "(nat \<Rightarrow> u64) \<Rightarrow> Sched \<Rightarrow> nat \<Rightarrow> ptr \<Rightarrow> (bool \<times> Sched) option" where
  "requeue_current clock s c ptr = do {
     s \<leftarrow> (if is_queued (sc_heap s ptr)
          then do { (_, s) \<leftarrow> PerCpuRunQueue_remove s c ptr; Some (tcb_put s ptr clear_queued) }
          else Some s);
     PerCpuRunQueue_enqueue (clock 0) (tcb_put s ptr (\<lambda>t. set_task_state t Runnable)) c ptr
   }"

definition pick_replacement :: "(nat \<Rightarrow> u64) \<Rightarrow> Sched \<Rightarrow> nat \<Rightarrow> ptr \<Rightarrow> (ptr option \<times> Sched) option" where
  "pick_replacement clock s c ptr = do {
     (replacement, s) \<leftarrow>
       (if rq_nr_running (sc_rq s c) > 0
        then do {
          (r, s) \<leftarrow> pick_next_task True (clock 2) s c None;
          Some (case r of Switch next \<Rightarrow> if next \<noteq> ptr then Some next else None | _ \<Rightarrow> None, s) }
        else Some (None, s));
     (case replacement of
        Some next \<Rightarrow> do {
          (ok, s) \<leftarrow> PerCpuRunQueue_enqueue (clock 3) s c ptr;
          (if ok then Some (Some next, s)
           else do {
             (_, s) \<leftarrow> PerCpuRunQueue_enqueue (clock 4) (tcb_put s ptr (\<lambda>t. set_task_state t Running)) c next;
             Some (None, s) }) }
      | None \<Rightarrow> Some (None, tcb_put s ptr (\<lambda>t. set_task_state t Running)))
   }"

definition yield_select :: "(nat \<Rightarrow> u64) \<Rightarrow> Sched \<Rightarrow> nat \<Rightarrow> ptr \<Rightarrow> (ptr option \<times> Sched) option" where
  "yield_select clock s c ptr = do {
     (ok, s) \<leftarrow> requeue_current clock s c ptr;
     (if \<not> ok then Some (None, tcb_put s ptr (\<lambda>t. set_task_state t Running))
      else do {
        (r, s) \<leftarrow> pick_next_task True (clock 1) s c None;
        (case r of
           Switch next \<Rightarrow> if next \<noteq> ptr then Some (Some next, s) else pick_replacement clock s c ptr
         | _ \<Rightarrow> do {
             (_, s) \<leftarrow> PerCpuRunQueue_remove s c ptr;
             Some (None, tcb_put s ptr (\<lambda>t. set_task_state t Running)) }) })
   }"

definition schedule_yield ::
  "(nat \<Rightarrow> u64) \<Rightarrow> u64 \<Rightarrow> u64 \<Rightarrow> Machine \<Rightarrow> nat \<Rightarrow> nat \<Rightarrow> ptr \<Rightarrow> (bool \<times> Machine) option" where
  "schedule_yield clock now_tsc out_tsc m cpu c current = do {
     (selected, s) \<leftarrow> yield_select clock (m_sched m) c current;
     (case selected of
        None \<Rightarrow> Some (False, m\<lparr>m_sched := s\<rparr>)
      | Some next \<Rightarrow>
          if current \<noteq> next then Some (True, context_switch now_tsc out_tsc (m\<lparr>m_sched := s\<rparr>) cpu current next)
          else Some (False, m\<lparr>m_sched := tcb_put s current (\<lambda>t. set_task_state t Running)\<rparr>))
   }"

text \<open>\<open>schedule_current\<close>: the run queue is that of the CPU recorded in the control block.\<close>

definition schedule_current ::
  "(nat \<Rightarrow> u64) \<Rightarrow> u64 \<Rightarrow> u64 \<Rightarrow> Machine \<Rightarrow> nat \<Rightarrow> bool \<Rightarrow> (bool \<times> Machine) option" where
  "schedule_current clock now_tsc out_tsc m cpu force =
    (case CURRENT_THREAD_PER_CPU m cpu of
       None \<Rightarrow> Some (False, m)
     | Some current \<Rightarrow>
         let t = sc_heap (m_sched m) current; cpu_id = current_cpu t in
         if MAX_CPUS \<le> unat cpu_id then Some (False, m)
         else do {
           c \<leftarrow> run_queue (m_sched m) cpu_id;
           (if \<not> (force \<or> need_resched t) then Some (False, m)
            else schedule_yield clock now_tsc out_tsc
              (m\<lparr>m_sched := tcb_put (m_sched m) current (\<lambda>t. snd (take_need_resched t))\<rparr>) cpu c current)
         })"

definition schedule_idle_cpu_once ::
  "(nat \<Rightarrow> u64) \<Rightarrow> u64 \<Rightarrow> u64 \<Rightarrow> Machine \<Rightarrow> nat \<Rightarrow> CpuId \<Rightarrow> (bool \<times> Machine) option" where
  "schedule_idle_cpu_once clock now_tsc out_tsc m cpu cpu_id =
    (case CURRENT_THREAD_PER_CPU m cpu of
       None \<Rightarrow> Some (False, m)
     | Some current \<Rightarrow> do {
         c \<leftarrow> run_queue (m_sched m) cpu_id;
         let t = sc_heap (m_sched m) current;
         (if rq_nr_running (sc_rq (m_sched m) c) = 0 \<and> \<not> need_resched t then Some (False, m)
          else do {
            let s = tcb_put (m_sched m) current (\<lambda>t. snd (take_need_resched t));
            (r, s) \<leftarrow> pick_next_task True (clock 0) s c (Some current);
            (case r of
               Switch next \<Rightarrow>
                 if next \<noteq> current then Some (True, context_switch now_tsc out_tsc (m\<lparr>m_sched := s\<rparr>) cpu current next)
                 else Some (False, m\<lparr>m_sched := s\<rparr>)
             | _ \<Rightarrow> Some (False, m\<lparr>m_sched := s\<rparr>)) })
       })"

definition finish_preblock_wake :: "Sched \<Rightarrow> nat \<Rightarrow> ptr \<Rightarrow> Sched option" where
  "finish_preblock_wake s c current = do {
     (_, s) \<leftarrow> PerCpuRunQueue_remove s c current;
     Some (tcb_put s current (\<lambda>t. set_task_state t Running))
   }"

definition blocked_state :: "TaskState \<Rightarrow> bool" where
  "blocked_state st = (st = Sleeping \<or> st = Uninterruptible \<or> st = Stopped \<or> st = Dead)"

text \<open>
  \<open>boot_idle i\<close> is the answer of the \<open>i\<close>-th call of \<open>published_boot_idle\<close>: another CPU may publish
  the idle thread while this one spins.
\<close>

primrec spin_boot_idle :: "(nat \<Rightarrow> ptr option) \<Rightarrow> nat \<Rightarrow> nat \<Rightarrow> ptr option" where
  "spin_boot_idle boot_idle i 0 = None"
| "spin_boot_idle boot_idle i (Suc n) =
    (case boot_idle i of Some idle \<Rightarrow> Some idle | None \<Rightarrow> spin_boot_idle boot_idle (Suc i) n)"

definition recover_idle :: "(nat \<Rightarrow> ptr option) \<Rightarrow> Sched \<Rightarrow> nat \<Rightarrow> ptr option \<times> Sched" where
  "recover_idle boot_idle s c =
    (case rq_idle_thread (sc_rq s c) of
       Some idle \<Rightarrow> (Some idle, s)
     | None \<Rightarrow>
         case spin_boot_idle boot_idle 0 1025 of
           None \<Rightarrow> (None, s)
         | Some idle \<Rightarrow>
             let s = set_idle_thread s c idle in
             (Some idle, if rq_current (sc_rq s c) = None then rq_put s c (\<lambda>rq. rq\<lparr>rq_current := Some idle\<rparr>) else s))"

definition block_select ::
  "(nat \<Rightarrow> u64) \<Rightarrow> Sched \<Rightarrow> nat \<Rightarrow> ptr \<Rightarrow> ptr option \<Rightarrow> (ptr option \<times> Sched) option" where
  "block_select clock s c current idle_thread = do {
     s \<leftarrow> (if is_queued (sc_heap s current)
          then do { (_, s) \<leftarrow> PerCpuRunQueue_remove s c current; Some (tcb_put s current clear_queued) }
          else Some s);
     (r, s) \<leftarrow> pick_next_task True (clock 0) s c (Some current);
     let fallback = (case idle_thread of Some idle \<Rightarrow> if idle \<noteq> current then Some idle else None | None \<Rightarrow> None);
     Some (case r of Switch next \<Rightarrow> if next \<noteq> current then Some next else fallback | _ \<Rightarrow> fallback, s)
   }"

definition schedule_block ::
  "(nat \<Rightarrow> u64) \<Rightarrow> (nat \<Rightarrow> ptr option) \<Rightarrow> u64 \<Rightarrow> u64 \<Rightarrow> Machine \<Rightarrow> nat \<Rightarrow> nat \<Rightarrow> ptr \<Rightarrow> Machine option" where
  "schedule_block clock boot_idle now_tsc out_tsc m cpu c current =
    (let s = m_sched m; st = task_state (sc_heap s current) in
     if st = Runnable then do { s \<leftarrow> finish_preblock_wake s c current; Some (m\<lparr>m_sched := s\<rparr>) }
     else if \<not> blocked_state st then Some m
     else
       let (idle_thread, s) = recover_idle boot_idle s c in do {
       (selected, s) \<leftarrow> block_select clock s c current idle_thread;
       (case selected of
          None \<Rightarrow> Some (m\<lparr>m_sched := tcb_put s current (\<lambda>t. set_task_state t Running)\<rparr>)
        | Some next \<Rightarrow>
            if \<not> blocked_state (task_state (sc_heap s current)) then Some (m\<lparr>m_sched := s\<rparr>)
            else Some (context_switch now_tsc out_tsc (m\<lparr>m_sched := s\<rparr>) cpu current next))
     })"

definition wake_enqueue :: "u64 \<Rightarrow> Sched \<Rightarrow> nat \<Rightarrow> ptr \<Rightarrow> Sched option" where
  "wake_enqueue now s c tcb =
    (let t = sc_heap s tcb;
         (should_enqueue, t) = (case task_state t of
            Sleeping \<Rightarrow> try_transition t Sleeping Runnable
          | Uninterruptible \<Rightarrow> try_transition t Uninterruptible Runnable
          | Stopped \<Rightarrow> try_transition t Stopped Runnable
          | Runnable \<Rightarrow> (True, t)
          | _ \<Rightarrow> (False, t));
         s = tcb_put s tcb (\<lambda>_. t)
     in if should_enqueue then do { (_, s) \<leftarrow> PerCpuRunQueue_enqueue now s c tcb; Some s } else Some s)"

section \<open>Positions and room in the order of service\<close>

lemma view_insert_split:
  assumes "rt_prio_ok (h t)" "tcb_policy (h t) \<noteq> IdlePolicy"
  shows "\<exists>xs ys. service_order v = xs @ ys \<and> service_order (view_insert h t v) = xs @ t # ys"
proof -
  obtain L D C where v: "v = (L, D, C)" by (cases v)
  define R where "R = concat (map L [0..<100])"
  define p where "p = unat (tcb_priority (h t))"
  consider (rt) "tcb_policy (h t) \<in> {Fifo, RoundRobin}" "p < 100" | (dl) "tcb_policy (h t) = Deadline"
    | (cf) "tcb_policy (h t) \<in> {NormalPolicy, Batch}"
    using assms by (cases "tcb_policy (h t)") (auto simp: rt_prio_ok_def p_def)
  then show ?thesis
  proof cases
    case rt
    have "map (L(p := L p @ [t])) [0..<p] = map L [0..<p]" "map (L(p := L p @ [t])) [Suc p..<100] = map L [Suc p..<100]" by simp_all
    then have "concat (map (L(p := L p @ [t])) [0..<100]) = (concat (map L [0..<p]) @ L p) @ t # concat (map L [Suc p..<100])"
      unfolding concat_levels_split [OF rt(2)] by simp
    moreover have "view_insert h t v = (L(p := L p @ [t]), D, C)" using rt(1) by (simp add: v view_insert_rt p_def)
    moreover have "concat (map L [0..<100]) = (concat (map L [0..<p]) @ L p) @ concat (map L [Suc p..<100])"
      unfolding concat_levels_split [OF rt(2)] by simp
    ultimately show ?thesis unfolding v
      by (intro exI [of _ "concat (map L [0..<p]) @ L p"] exI [of _ "concat (map L [Suc p..<100]) @ D @ C"])
        (simp add: service_order_def)
  next
    case dl
    obtain D1 D2 where D: "D = D1 @ D2" "insert_after (deadline_in h) t D = D1 @ t # D2"
      unfolding insert_after_def by (metis takeWhile_dropWhile_id)
    have "view_insert h t v = (L, D1 @ t # D2, C)" using dl D(2) by (simp add: v view_insert_def Let_def)
    then show ?thesis unfolding v
      by (intro exI [of _ "R @ D1"] exI [of _ "D2 @ C"]) (simp add: service_order_def D(1) R_def [symmetric])
  next
    case cf
    define pos where "pos = cfs_bisect (\<lambda>i. vruntime_in h (C ! i)) (vruntime_in h t) 0 (length C)"
    have "view_insert h t v = (L, D, take pos C @ t # drop pos C)"
      using cf by (auto simp: v view_insert_def bisect_insert_def pos_def Let_def)
    then show ?thesis unfolding v
      by (intro exI [of _ "R @ D @ take pos C"] exI [of _ "drop pos C"])
        (simp add: service_order_def R_def [symmetric])
  qed
qed

text \<open>The room left in a class is a matter of how many of its threads wait.\<close>

definition class_of_policy :: "SchedPolicy \<Rightarrow> nat" where
  "class_of_policy p = (case p of Fifo \<Rightarrow> 0 | RoundRobin \<Rightarrow> 0 | Deadline \<Rightarrow> 1 | NormalPolicy \<Rightarrow> 2 | Batch \<Rightarrow> 2 | IdlePolicy \<Rightarrow> 3)"

definition class_cap :: "nat \<Rightarrow> nat" where
  "class_cap k = (if k = 0 then RT_QUEUE_CAPACITY else if k = 1 then MAX_DL_TASKS else if k = 2 then MAX_TASKS_PER_CPU else 0)"

lemma has_room_count:
  assumes q: "queues_rep s c v"
  shows "has_room (sc_heap s) t v \<longleftrightarrow>
    length (filter (\<lambda>u. class_of_policy (tcb_policy (sc_heap s u)) = class_of_policy (tcb_policy (sc_heap s t))) (service_order v))
      < class_cap (class_of_policy (tcb_policy (sc_heap s t)))"
proof -
  obtain L D C where v: "v = (L, D, C)" by (cases v)
  define k where "k = (\<lambda>u. class_of_policy (tcb_policy (sc_heap s u)))"
  define R where "R = concat (map L [0..<100])"
  have "k u = 0" if "u \<in> set R" for u using that q by (fastforce simp: R_def v queues_rep_def k_def class_of_policy_def)
  moreover have "k u = 1" if "u \<in> set D" for u using that q by (simp add: v queues_rep_def k_def class_of_policy_def)
  moreover have "k u = 2" if "u \<in> set C" for u using that q by (fastforce simp: v queues_rep_def k_def class_of_policy_def)
  ultimately have f: "filter (\<lambda>u. k u = j) (service_order v) = (if j = 0 then R else if j = 1 then D else if j = 2 then C else [])" for j
    by (auto simp: service_order_def v R_def [symmetric] filter_id_conv filter_empty_conv)
  have "length R = rt_total L" unfolding R_def by (rule length_levels)
  then have "has_room (sc_heap s) t v \<longleftrightarrow> length (filter (\<lambda>u. k u = k t) (service_order v)) < class_cap (k t)"
    unfolding f by (cases "tcb_policy (sc_heap s t)") (simp_all add: has_room_def v k_def class_of_policy_def class_cap_def)
  then show ?thesis by (simp add: k_def)
qed

section \<open>Yield\<close>

lemma pick_head_ok:
  assumes r: "sched_rep s n V" and c: "c < n" and so: "service_order (V c) = t # ts" and st: "task_state (sc_heap s t) = Runnable"
  shows "\<exists>s' v'. pick_next_task True now s c None = Some (Switch t, s') \<and> sched_rep s' n (V(c := v')) \<and> service_order v' = ts
    \<and> sc_heap s' = (sc_heap s)(t := clear_queued (sc_heap s t))"
proof -
  define s0 where "s0 = s\<lparr>PICK_NEXT_TOTAL := PICK_NEXT_TOTAL s + 1\<rparr>"
  have r0: "sched_rep s0 n V" unfolding s0_def by (rule sched_rep_same [OF r]) simp_all
  obtain s' v' where s': "PerCpuRunQueue_pick_next s0 c = Some (Some t, s')" "service_order v' = ts"
      "sched_rep s' n (V(c := v'))" "sc_heap s' = (sc_heap s)(t := clear_queued (sc_heap s t))"
    using pick_next_ok [OF r0 c so] by (auto simp: s0_def simp del: fun_upd_apply)
  have "MAX_PICK_SKIP_SCAN = Suc 799" by (simp add: MAX_PICK_SKIP_SCAN_def)
  then have "pick_next_task True now s c None = pick_scan (Suc 799) s0 c None"
    by (simp only: pick_next_task_def s0_def Let_def not_True_eq_False if_False option.case)
  also have "\<dots> = Some (Switch t, s')"
    using pick_scan_step [OF s'(1), of 799 None] st by (simp add: s'(4) eligible_def decide_def)
  finally show ?thesis using s'(2-4) by (intro exI [of _ s'] exI [of _ v']) (simp del: fun_upd_apply)
qed

lemma nr_running_pos:
  assumes "sched_rep s n V" "c < n"
  shows "rq_nr_running (sc_rq s c) > 0 \<longleftrightarrow> service_order (V c) \<noteq> []"
proof -
  have "unat (rq_nr_running (sc_rq s c)) = length (service_order (V c))" using sched_rep_rq [OF assms] by (simp add: rq_rep_def)
  then show ?thesis by (metis length_0_conv unat_eq_zero word_gt_0)
qed

lemma has_room_shrink:
  assumes q: "queues_rep s c v" "queues_rep s' c v'" and room: "has_room (sc_heap s) t v"
    and p: "\<And>u. tcb_policy (sc_heap s' u) = tcb_policy (sc_heap s u)" and so: "service_order v = ys @ service_order v'"
  shows "has_room (sc_heap s') t v'"
  using room unfolding has_room_count [OF q(1)] has_room_count [OF q(2)] p so by simp

text \<open>
  What giving up the CPU promises: with nobody waiting the thread keeps running, else the head of the
  order gets the CPU and the thread waits in its place.
\<close>

definition gives_way :: "ptr list \<Rightarrow> ptr \<Rightarrow> ptr option \<Rightarrow> Sched \<Rightarrow> view \<Rightarrow> bool" where
  "gives_way xs cur r s' v' =
    (case xs of
       [] \<Rightarrow> r = None \<and> service_order v' = [] \<and> task_state (sc_heap s' cur) = Running
     | t # ts \<Rightarrow> r = Some t \<and> mset (service_order v') = add_mset cur (mset ts) \<and> task_state (sc_heap s' cur) = Runnable)"

text \<open>A step that charges nobody and keeps a fair class in order.\<close>

definition keeps_fair :: "Sched \<Rightarrow> Sched \<Rightarrow> ptr list \<Rightarrow> ptr list \<Rightarrow> bool" where
  "keeps_fair s s' xs xs' =
    ((\<forall>u. tcb_policy (sc_heap s' u) = tcb_policy (sc_heap s u) \<and> tcb_vruntime (sc_heap s' u) = tcb_vruntime (sc_heap s u)
        \<and> tcb_priority (sc_heap s' u) = tcb_priority (sc_heap s u))
     \<and> (fair_order (sc_heap s) xs \<longrightarrow> fair_order (sc_heap s') xs'))"

lemma keeps_fair_trans: "keeps_fair s s1 xs ys \<Longrightarrow> keeps_fair s1 s2 ys zs \<Longrightarrow> keeps_fair s s2 xs zs"
  by (simp add: keeps_fair_def)

lemma keeps_fair_drop:
  assumes "\<And>u. tcb_policy (sc_heap s' u) = tcb_policy (sc_heap s u) \<and> tcb_vruntime (sc_heap s' u) = tcb_vruntime (sc_heap s u)
    \<and> tcb_priority (sc_heap s' u) = tcb_priority (sc_heap s u)"
  shows "keeps_fair s s' xs (drop k xs)"
  using fair_order_drop [of "sc_heap s" xs k] fair_order_cong [of "drop k xs" "sc_heap s'" "sc_heap s"] assms
  by (simp add: keeps_fair_def)

lemma enqueue_accepts:
  assumes r: "sched_rep s n V" and c: "c < n" and p: "rt_prio_ok (sc_heap s t)" and a: "accepts s t (V c)"
  shows "\<exists>s' v' xs ys. PerCpuRunQueue_enqueue now s c t = Some (True, s') \<and> sched_rep s' n (V(c := v'))
    \<and> service_order (V c) = xs @ ys \<and> service_order v' = xs @ t # ys \<and> rq_frame s s' c t
    \<and> task_state (sc_heap s' t) = Runnable \<and> (\<forall>u. tcb_policy (sc_heap s' u) = tcb_policy (sc_heap s u))
    \<and> tcb_priority (sc_heap s' t) = tcb_priority (sc_heap s t) \<and> keeps_fair s s' (service_order (V c)) (service_order v')"
proof -
  obtain s' where s': "PerCpuRunQueue_enqueue now s c t = Some (True, s')"
      "sched_rep s' n (V(c := view_insert (sc_heap s') t (V c)))" "rq_frame s s' c t"
      "task_state (sc_heap s' t) = task_state (sc_heap s t)" "tcb_policy (sc_heap s' t) = tcb_policy (sc_heap s t)"
      "tcb_priority (sc_heap s' t) = tcb_priority (sc_heap s t)" "tcb_vruntime (sc_heap s' t) = tcb_vruntime (sc_heap s t)"
    using enqueue_ok [OF r c p, of now] a by auto
  have at: "tcb_policy (sc_heap s' u) = tcb_policy (sc_heap s u) \<and> tcb_vruntime (sc_heap s' u) = tcb_vruntime (sc_heap s u)
      \<and> tcb_priority (sc_heap s' u) = tcb_priority (sc_heap s u)" for u
    using s'(3,5-7) by (cases "u = t") (simp_all add: rq_frame_def)
  have "keeps_fair s s' (service_order (V c)) (service_order (view_insert (sc_heap s') t (V c)))"
    unfolding keeps_fair_def
  proof (intro conjI impI)
    show "fair_order (sc_heap s') (service_order (view_insert (sc_heap s') t (V c)))"
      if f: "fair_order (sc_heap s) (service_order (V c))"
    proof (rule fair_order_enqueue [OF _ _ f])
      show "queues_rep s c (V c)" using sched_rep_rq [OF r c] by (simp add: rq_rep_def)
      show "queues_rep s' c (view_insert (sc_heap s') t (V c))" using sched_rep_rq [OF s'(2) c] by (simp add: rq_rep_def)
      show "t \<notin> set (service_order (V c))" using a by (intro not_queued [OF r c]) (simp add: accepts_def)
    qed (use s'(3) in \<open>simp add: rq_frame_def\<close>)
  qed (use at in simp)
  moreover have "tcb_policy (sc_heap s t) \<noteq> IdlePolicy"
    using a by (auto simp: accepts_def has_room_def split: prod.splits)
  then obtain xs ys where "service_order (V c) = xs @ ys" "service_order (view_insert (sc_heap s') t (V c)) = xs @ t # ys"
    using view_insert_split [of "sc_heap s'" t "V c"] p s'(5,6) by (auto simp: rt_prio_ok_def)
  ultimately show ?thesis using s'(1-4,6) at a unfolding accepts_def by metis
qed

lemma replacement_ok:
  assumes r: "sched_rep s n V" and c: "c < n"
    and cur: "task_state (sc_heap s cur) = Runnable" "\<not> is_queued (sc_heap s cur)" "rt_prio_ok (sc_heap s cur)"
    and st: "\<forall>t \<in> set (service_order (V c)). task_state (sc_heap s t) = Runnable"
    and room: "has_room (sc_heap s) cur (V c)"
  shows "\<exists>r s' v'. pick_replacement clock s c cur = Some (r, s') \<and> sched_rep s' n (V(c := v'))
    \<and> gives_way (service_order (V c)) cur r s' v' \<and> keeps_fair s s' (service_order (V c)) (service_order v')"
proof (cases "service_order (V c)")
  case Nil
  define s' where "s' = tcb_put s cur (\<lambda>t. set_task_state t Running)"
  have "pick_replacement clock s c cur = Some (None, s')"
    using nr_running_pos [OF r c] Nil by (simp add: pick_replacement_def s'_def)
  moreover have "sched_rep s' n (V(c := V c))" unfolding s'_def fun_upd_triv by (rule sched_rep_set_state [OF r])
  moreover have "gives_way [] cur None s' (V c)" by (simp add: gives_way_def s'_def Nil)
  moreover have "keeps_fair s s' (service_order (V c)) (service_order (V c))"
    using keeps_fair_drop [of s' s "service_order (V c)" 0] by (simp add: s'_def)
  ultimately show ?thesis by (metis Nil)
next
  case (Cons t ts)
  have "task_state (sc_heap s t) = Runnable" using st Cons by simp
  then obtain s2 v2 where s2: "pick_next_task True (clock 2) s c None = Some (Switch t, s2)" "sched_rep s2 n (V(c := v2))"
      "service_order v2 = ts" "sc_heap s2 = (sc_heap s)(t := clear_queued (sc_heap s t))"
    using pick_head_ok [OF r c Cons, of "clock 2"] by blast
  have ne: "t \<noteq> cur" using not_queued [OF r c cur(2)] Cons by auto
  then have h2: "sc_heap s2 cur = sc_heap s cur" by (simp add: s2(4))
  have "has_room (sc_heap s2) cur v2"
  proof (rule has_room_shrink [where ys = "[t]", OF _ _ room])
    show "queues_rep s c (V c)" using sched_rep_rq [OF r c] by (simp add: rq_rep_def)
    show "queues_rep s2 c v2" using sched_rep_rq [OF s2(2) c] by (simp add: rq_rep_def)
  qed (simp_all add: s2(3,4) Cons)
  then have a: "accepts s2 cur ((V(c := v2)) c)" using cur h2 by (simp add: accepts_def)
  have "rt_prio_ok (sc_heap s2 cur)" using cur(3) h2 by simp
  from enqueue_accepts [OF s2(2) c this a, of "clock 3"] obtain s3 v3 xs ys where
    s3: "PerCpuRunQueue_enqueue (clock 3) s2 c cur = Some (True, s3)" "sched_rep s3 n (V(c := v3))"
      "ts = xs @ ys" "service_order v3 = xs @ cur # ys" "task_state (sc_heap s3 cur) = Runnable"
      "keeps_fair s2 s3 ts (service_order v3)"
    unfolding fun_upd_same fun_upd_upd s2(3) by blast
  have "pick_replacement clock s c cur = Some (Some t, s3)"
    using nr_running_pos [OF r c] Cons s2(1) s3(1) ne by (simp add: pick_replacement_def)
  moreover have "gives_way (t # ts) cur (Some t) s3 v3" using s3(3-5) by (simp add: gives_way_def)
  moreover have "keeps_fair s s2 (t # ts) ts" using keeps_fair_drop [of s2 s "t # ts" 1] by (simp add: s2(4))
  ultimately show ?thesis unfolding Cons using s3(2,6) keeps_fair_trans by blast
qed

lemma yield_select_ok:
  assumes r: "sched_rep s n V" and c: "c < n" and cur: "\<not> is_queued (sc_heap s cur)" "rt_prio_ok (sc_heap s cur)"
    and st: "\<forall>t \<in> set (service_order (V c)). task_state (sc_heap s t) = Runnable"
    and room: "has_room (sc_heap s) cur (V c)"
  shows "\<exists>r s' v'. yield_select clock s c cur = Some (r, s') \<and> sched_rep s' n (V(c := v'))
    \<and> gives_way (service_order (V c)) cur r s' v' \<and> keeps_fair s s' (service_order (V c)) (service_order v')"
proof -
  define s0 where "s0 = tcb_put s cur (\<lambda>t. set_task_state t Runnable)"
  have r0: "sched_rep s0 n V" unfolding s0_def by (rule sched_rep_set_state [OF r])
  have h0: "tcb_policy (sc_heap s0 u) = tcb_policy (sc_heap s u)" for u by (simp add: s0_def)
  have a: "accepts s0 cur (V c)" using cur(1) room has_room_cong [of "sc_heap s0" cur "sc_heap s" "V c"] by (simp add: accepts_def s0_def)
  have p0: "rt_prio_ok (sc_heap s0 cur)" using cur(2) by (simp add: s0_def rt_prio_ok_def)
  from enqueue_accepts [OF r0 c p0 a, of "clock 0"] obtain s1 v1 xs ys where
    s1: "PerCpuRunQueue_enqueue (clock 0) s0 c cur = Some (True, s1)" "sched_rep s1 n (V(c := v1))"
      "service_order (V c) = xs @ ys" "service_order v1 = xs @ cur # ys" "rq_frame s0 s1 c cur"
      "task_state (sc_heap s1 cur) = Runnable" "\<forall>u. tcb_policy (sc_heap s1 u) = tcb_policy (sc_heap s0 u)"
      "tcb_priority (sc_heap s1 cur) = tcb_priority (sc_heap s0 cur)" "keeps_fair s0 s1 (service_order (V c)) (service_order v1)"
    by blast
  have k1: "keeps_fair s s1 (service_order (V c)) (service_order v1)"
    by (rule keeps_fair_trans [OF _ s1(9)]) (use keeps_fair_drop [of s0 s "service_order (V c)" 0] in \<open>simp add: s0_def\<close>)
  have nc: "cur \<notin> set (xs @ ys)" using not_queued [OF r c cur(1)] unfolding s1(3) .
  have h1: "sc_heap s1 u = sc_heap s u" if "u \<noteq> cur" for u using s1(5) that by (simp add: rq_frame_def s0_def)
  have st1: "task_state (sc_heap s1 u) = Runnable" if "u \<in> set (xs @ ys)" for u using st s1(3) that nc h1 by metis
  have rq: "requeue_current clock s c cur = Some (True, s1)" using cur(1) s1(1) by (simp add: requeue_current_def s0_def)
  show ?thesis
  proof (cases xs)
    case (Cons t ts)
    have so: "service_order ((V(c := v1)) c) = t # ts @ cur # ys" using s1(4) Cons by simp
    obtain s2 v2 where s2: "pick_next_task True (clock 1) s1 c None = Some (Switch t, s2)" "sched_rep s2 n (V(c := v2))"
        "service_order v2 = ts @ cur # ys" "sc_heap s2 = (sc_heap s1)(t := clear_queued (sc_heap s1 t))"
      using pick_head_ok [OF s1(2) c so, of "clock 1"] st1 Cons unfolding fun_upd_upd by auto
    have "t \<noteq> cur" using nc Cons by auto
    then have "yield_select clock s c cur = Some (Some t, s2)" "task_state (sc_heap s2 cur) = Runnable"
      using rq s2(1) s1(6) by (simp_all add: yield_select_def s2(4))
    moreover from this have "gives_way (service_order (V c)) cur (Some t) s2 v2"
      using s2(3) Cons s1(3) by (simp add: gives_way_def)
    moreover have "keeps_fair s1 s2 (service_order v1) (service_order v2)"
      using keeps_fair_drop [of s2 s1 "service_order v1" 1] so by (simp add: s2(3,4))
    ultimately show ?thesis using s2(2) keeps_fair_trans [OF k1] by blast
  next
    case Nil
    have so: "service_order ((V(c := v1)) c) = cur # ys" using s1(4) Nil by simp
    obtain s2 v2 where s2: "pick_next_task True (clock 1) s1 c None = Some (Switch cur, s2)" "sched_rep s2 n (V(c := v2))"
        "service_order v2 = ys" "sc_heap s2 = (sc_heap s1)(cur := clear_queued (sc_heap s1 cur))"
      using pick_head_ok [OF s1(2) c so, of "clock 1"] s1(6) unfolding fun_upd_upd by blast
    have ys: "service_order v2 = service_order (V c)" using s2(3) s1(3) Nil by simp
    have room2: "has_room (sc_heap s2) cur v2"
    proof (rule has_room_shrink [where ys = "[]", OF _ _ room])
      show "queues_rep s c (V c)" using sched_rep_rq [OF r c] by (simp add: rq_rep_def)
      show "queues_rep s2 c v2" using sched_rep_rq [OF s2(2) c] by (simp add: rq_rep_def)
      show "tcb_policy (sc_heap s2 u) = tcb_policy (sc_heap s u)" for u using s1(7) by (simp add: s2(4) h0)
    qed (simp add: ys)
    have "\<exists>r s' v'. pick_replacement clock s2 c cur = Some (r, s') \<and> sched_rep s' n ((V(c := v2))(c := v'))
        \<and> gives_way (service_order ((V(c := v2)) c)) cur r s' v'
        \<and> keeps_fair s2 s' (service_order ((V(c := v2)) c)) (service_order v')"
    proof (rule replacement_ok [OF s2(2) c])
      show "\<forall>t \<in> set (service_order ((V(c := v2)) c)). task_state (sc_heap s2 t) = Runnable"
        using st1 Nil nc by (simp add: ys s1(3) s2(4))
      show "rt_prio_ok (sc_heap s2 cur)" using cur(2) s1(7,8) by (simp add: s2(4) rt_prio_ok_def s0_def)
    qed (use s1(6) room2 in \<open>simp_all add: s2(4)\<close>)
    moreover have "yield_select clock s c cur = pick_replacement clock s2 c cur"
      using rq s2(1) by (simp add: yield_select_def)
    moreover have "keeps_fair s1 s2 (service_order v1) (service_order v2)"
      using keeps_fair_drop [of s2 s1 "service_order v1" 1] so by (simp add: s2(3,4))
    ultimately show ?thesis using keeps_fair_trans [OF k1] keeps_fair_trans unfolding fun_upd_same fun_upd_upd ys by metis
  qed
qed

section \<open>The context switch and the queues\<close>

lemma set_fpu_loaded_reads [simp]:
  "is_queued (set_fpu_loaded t b) = is_queued t" "task_state (set_fpu_loaded t b) = task_state t"
  "queue_attrs (set_fpu_loaded t b) = queue_attrs t" "tcb_vruntime (set_fpu_loaded t b) = tcb_vruntime t"
  "tcb_policy (set_fpu_loaded t b) = tcb_policy t" "tcb_priority (set_fpu_loaded t b) = tcb_priority t"
  by (auto simp: set_fpu_loaded_def flag_reads task_state_def queue_attrs_def sched_bits state_of_flag_update bit_simps
      simp del: push_bit_of_1)

lemma charge_runtime_reads [simp]:
  "is_queued (charge_runtime a m cpu t) = is_queued t" "task_state (charge_runtime a m cpu t) = task_state t"
  "queue_attrs (charge_runtime a m cpu t) = queue_attrs t" "tcb_policy (charge_runtime a m cpu t) = tcb_policy t"
  by (auto simp: charge_runtime_def advance_vruntime_def is_queued_def task_state_def queue_attrs_def Let_def
      split: SchedPolicy.split)

lemma queue_attrs_set_state [simp]: "queue_attrs (set_task_state t st) = queue_attrs t"
  by (simp add: queue_attrs_def)

lemma switch_out_reads [simp]:
  "is_queued (switch_out t) = is_queued t" "queue_attrs (switch_out t) = queue_attrs t"
  "task_state (switch_out t) = (if task_state t = Running then Runnable else task_state t)"
  "tcb_vruntime (switch_out t) = tcb_vruntime t" "tcb_policy (switch_out t) = tcb_policy t"
  "tcb_priority (switch_out t) = tcb_priority t"
  by (simp_all add: switch_out_def Let_def)

lemma switch_in_reads [simp]:
  "is_queued (switch_in cpu t) = is_queued t" "queue_attrs (switch_in cpu t) = queue_attrs t"
  "task_state (switch_in cpu t) = Running" "tcb_vruntime (switch_in cpu t) = tcb_vruntime t"
  "tcb_policy (switch_in cpu t) = tcb_policy t"
proof -
  have a: "is_queued (assign_cpu t k) = is_queued t" "queue_attrs (assign_cpu t k) = queue_attrs t"
    "tcb_vruntime (assign_cpu t k) = tcb_vruntime t" "tcb_policy (assign_cpu t k) = tcb_policy t" for t k
    by (simp_all add: assign_cpu_def is_queued_def queue_attrs_def)
  show "is_queued (switch_in cpu t) = is_queued t" "queue_attrs (switch_in cpu t) = queue_attrs t"
    "task_state (switch_in cpu t) = Running" "tcb_vruntime (switch_in cpu t) = tcb_vruntime t"
    "tcb_policy (switch_in cpu t) = tcb_policy t"
    by (simp_all add: switch_in_def Let_def a)
qed

lemma sched_rep_heap:
  assumes r: "sched_rep s n V" and s': "sc_rq s' = sc_rq s" "sc_dl s' = sc_dl s"
    and h: "\<And>t. queue_attrs (sc_heap s' t) = queue_attrs (sc_heap s t) \<and> is_queued (sc_heap s' t) = is_queued (sc_heap s t)"
  shows "sched_rep s' n V"
proof -
  have "queues_rep s' c v" if "queues_rep s c v" for c v
    by (rule queues_rep_weak_cong [OF that]) (simp_all add: s' h)
  then show ?thesis using r h by (auto simp: sched_rep_def rq_rep_def s')
qed

lemma context_switch_rep:
  assumes "sched_rep (m_sched m) n V"
  shows "sched_rep (m_sched (context_switch a b m cpu prev next)) n V"
proof -
  have "m_sched (context_switch a b m cpu prev next) =
      tcb_put (tcb_put (m_sched m) prev (\<lambda>t. charge_runtime a m cpu (switch_out t))) next (switch_in cpu)"
    by (simp add: context_switch_def Let_def)
  then show ?thesis by (simp only:) (rule sched_rep_heap [OF assms], simp_all)
qed

lemma context_switch_heap:
  assumes "prev \<noteq> next"
  shows "sc_heap (m_sched (context_switch a b m cpu prev next)) =
    (sc_heap (m_sched m))(prev := charge_runtime a m cpu (switch_out (sc_heap (m_sched m) prev)),
      next := switch_in cpu (sc_heap (m_sched m) next))"
  using assms by (simp add: context_switch_def Let_def)

lemma yield_switch:
  assumes r: "sched_rep (m_sched m) n V" and c: "c < n"
    and cur: "\<not> is_queued (sc_heap (m_sched m) cur)" "rt_prio_ok (sc_heap (m_sched m) cur)"
    and st: "\<forall>t \<in> set (service_order (V c)). task_state (sc_heap (m_sched m) t) = Runnable"
    and room: "has_room (sc_heap (m_sched m)) cur (V c)" and so: "service_order (V c) = t # ts"
  shows "\<exists>s' v'. schedule_yield clock a b m cpu c cur = Some (True, context_switch a b (m\<lparr>m_sched := s'\<rparr>) cpu cur t)
    \<and> sched_rep s' n (V(c := v')) \<and> mset (service_order v') = add_mset cur (mset ts) \<and> t \<noteq> cur
    \<and> task_state (sc_heap s' cur) = Runnable \<and> keeps_fair (m_sched m) s' (service_order (V c)) (service_order v')"
proof -
  obtain s' v' where s': "yield_select clock (m_sched m) c cur = Some (Some t, s')" "sched_rep s' n (V(c := v'))"
      "mset (service_order v') = add_mset cur (mset ts)" "task_state (sc_heap s' cur) = Runnable"
      "keeps_fair (m_sched m) s' (service_order (V c)) (service_order v')"
    using yield_select_ok [OF r c cur st room, of clock] by (auto simp: gives_way_def so simp del: fun_upd_apply)
  have "t \<noteq> cur" using not_queued [OF r c cur(1)] so by auto
  then have "schedule_yield clock a b m cpu c cur = Some (True, context_switch a b (m\<lparr>m_sched := s'\<rparr>) cpu cur t)"
    using s'(1) by (simp add: schedule_yield_def)
  then show ?thesis using s'(2-5) \<open>t \<noteq> cur\<close> by blast
qed


text \<open>Thread 6 yields while the threads 8, 9 and 3 wait.\<close>

definition sample_machine :: Machine where
  "sample_machine = \<lparr>m_sched = sample_busy, TSC_HZ = 1000000000, last_switch_tsc = (\<lambda>c. 100),
     CURRENT_THREAD_PER_CPU = (\<lambda>c. Some 6)\<rparr>"

lemma queues_at_not_queued:
  assumes "queues_at s v" "t \<notin> set (service_order v)"
  shows "\<not> is_queued (sc_heap s t)"
  using assms by (simp add: queues_at_def sched_rep_def less_2_cases_iff)


lemma charge_cong:
  assumes "tcb_policy t = tcb_policy t'" "tcb_priority t = tcb_priority t'" "tcb_vruntime t = tcb_vruntime t'"
    "last_switch_tsc m = last_switch_tsc m'" "TSC_HZ m = TSC_HZ m'"
  shows "tcb_vruntime (charge_runtime a m cpu t) = tcb_vruntime (charge_runtime a m' cpu t')"
  using assms by (cases "tcb_policy t'") (simp_all add: charge_runtime_def advance_vruntime_def Let_def)

lemma fair_order_overtaken:
  assumes f: "fair_order h xs" and x: "x \<in> set xs" "tcb_policy (h x) \<in> {NormalPolicy, Batch}"
    and y: "y \<in> set xs" "tcb_policy (h y) \<in> {NormalPolicy, Batch}" and lt: "tcb_vruntime (h x) < tcb_vruntime (h y)"
    and h': "\<And>u. tcb_policy (h' u) = tcb_policy (h u)" "tcb_vruntime (h' y) = tcb_vruntime (h y)" "tcb_vruntime (h y) < tcb_vruntime (h' x)"
  shows "\<not> fair_order h' xs"
proof
  assume f': "fair_order h' xs"
  define zs where "zs = filter (\<lambda>t. tcb_policy (h t) \<in> {NormalPolicy, Batch}) xs"
  have s: "sorted (map (vruntime_in h) zs)" "sorted (map (vruntime_in h') zs)"
    using f f' by (simp_all add: fair_order_def zs_def h'(1))
  have "x \<in> set zs" "y \<in> set zs" using x y by (simp_all add: zs_def)
  then obtain i j where i: "i < length zs" "zs ! i = x" and j: "j < length zs" "zs ! j = y" by (metis in_set_conv_nth)
  show False
  proof (cases "i \<le> j")
    case True
    then have "vruntime_in h' x \<le> vruntime_in h' y"
      using s(2) i j by (metis length_map nth_map sorted_iff_nth_mono)
    then show False using h'(2,3) by (simp add: vruntime_in_def)
  next
    case False
    then have "vruntime_in h y \<le> vruntime_in h x"
      using s(1) i j by (metis length_map nat_le_linear nth_map sorted_iff_nth_mono)
    then show False using lt by (simp add: vruntime_in_def)
  qed
qed

text \<open>
  C40: The queue is not kept in order of virtual run time across a yield.  \<open>schedule_yield\<close> queues the
  current thread with the virtual run time it had when it was last switched in;
  \<open>context_switch\<close> charges the time it just used afterwards, while the thread is already queued.
  Whenever that charge carries it past a waiting fair thread, the array that enqueue searches by
  bisection and that \<open>dequeue_min\<close> takes the first element of is left out of order.
\<close>

theorem yield_breaks_fair_order:
  assumes r: "sched_rep (m_sched m) n V" and c: "c < n"
    and cur: "\<not> is_queued (sc_heap (m_sched m) cur)" "tcb_policy (sc_heap (m_sched m) cur) \<in> {NormalPolicy, Batch}"
    and st: "\<forall>t \<in> set (service_order (V c)). task_state (sc_heap (m_sched m) t) = Runnable"
    and room: "has_room (sc_heap (m_sched m)) cur (V c)" and so: "service_order (V c) = t # ts"
    and fair: "fair_order (sc_heap (m_sched m)) (service_order (V c))"
    and u: "u \<in> set ts" "tcb_policy (sc_heap (m_sched m) u) \<in> {NormalPolicy, Batch}"
      "tcb_vruntime (sc_heap (m_sched m) cur) < tcb_vruntime (sc_heap (m_sched m) u)"
      "tcb_vruntime (sc_heap (m_sched m) u) < tcb_vruntime (charge_runtime a m cpu (sc_heap (m_sched m) cur))"
  shows "\<exists>m' v'. schedule_yield clock a b m cpu c cur = Some (True, m') \<and> sched_rep (m_sched m') n (V(c := v'))
    \<and> \<not> fair_order (sc_heap (m_sched m')) (service_order v')"
proof -
  have p: "rt_prio_ok (sc_heap (m_sched m) cur)" using cur(2) by (auto simp: rt_prio_ok_def)
  obtain s' v' where s': "schedule_yield clock a b m cpu c cur = Some (True, context_switch a b (m\<lparr>m_sched := s'\<rparr>) cpu cur t)"
      "sched_rep s' n (V(c := v'))" "mset (service_order v') = add_mset cur (mset ts)" "t \<noteq> cur"
      "keeps_fair (m_sched m) s' (service_order (V c)) (service_order v')"
    using yield_switch [OF r c cur(1) p st room so] by blast
  define m' where "m' = context_switch a b (m\<lparr>m_sched := s'\<rparr>) cpu cur t"
  have "distinct (t # ts)" using sched_rep_rq [OF r c] so by simp
  then have ne: "u \<noteq> t" "u \<noteq> cur" using u(1,3) by auto
  have mem: "set (service_order v') = insert cur (set ts)" using s'(3) by (metis set_mset_add_mset_insert set_mset_mset)
  have h: "sc_heap (m_sched m') = (sc_heap s')(cur := charge_runtime a (m\<lparr>m_sched := s'\<rparr>) cpu (switch_out (sc_heap s' cur)),
      t := switch_in cpu (sc_heap s' t))"
    unfolding m'_def using s'(4) by (subst context_switch_heap) simp_all
  have k: "tcb_policy (sc_heap s' x) = tcb_policy (sc_heap (m_sched m) x)" "tcb_vruntime (sc_heap s' x) = tcb_vruntime (sc_heap (m_sched m) x)"
    "tcb_priority (sc_heap s' x) = tcb_priority (sc_heap (m_sched m) x)" for x using s'(5) by (simp_all add: keeps_fair_def)
  have ch: "tcb_vruntime (sc_heap (m_sched m') cur) = tcb_vruntime (charge_runtime a m cpu (sc_heap (m_sched m) cur))"
    using s'(4) by (auto simp: h k intro!: charge_cong)
  have "\<not> fair_order (sc_heap (m_sched m')) (service_order v')"
    by (rule fair_order_overtaken [of "sc_heap s'" _ cur u])
      (use s'(5) fair u cur(2) ch ne in \<open>simp_all add: k mem h keeps_fair_def\<close>)
  moreover have "sched_rep (m_sched m') n (V(c := v'))" unfolding m'_def by (rule context_switch_rep) (use s'(2) in simp)
  ultimately show ?thesis using s'(1) unfolding m'_def by blast
qed

text \<open>Threads 4 and 5 wait with virtual run times 1 and 5; thread 6, at 0, has run for ten nanoseconds.\<close>

definition fair_sched :: Sched where
  "fair_sched = tcb_put (tcb_put (arrive (arrive sample_sched 4) 5) 4 (\<lambda>t. t\<lparr>tcb_vruntime := 1\<rparr>)) 5 (\<lambda>t. t\<lparr>tcb_vruntime := 5\<rparr>)"

definition fair_machine :: Machine where
  "fair_machine = \<lparr>m_sched = fair_sched, TSC_HZ = 1000000000, last_switch_tsc = (\<lambda>c. 100),
     CURRENT_THREAD_PER_CPU = (\<lambda>c. Some 6)\<rparr>"

lemma fair_arrivals: "queues_at (arrive (arrive sample_sched 4) 5) ((\<lambda>p. []), [], [4, 5])"
proof -
  have pol: "tcb_policy (sc_heap s t) = NormalPolicy" "tcb_vruntime (sc_heap s t) = 0" if "queues_at s v" "t = 4 \<or> t = 5" for s v t
    using that by (auto simp: queues_at_def sample_heap_def)
  define s1 where "s1 = arrive sample_sched 4"
  have q1: "queues_at s1 (view_insert (sc_heap s1) 4 no_view)" unfolding s1_def
    by (rule queues_at_arrive(2) [OF queues_at_sample]) (simp_all add: sample_room)
  then have v1: "queues_at s1 ((\<lambda>p. []), [], [4])"
    using pol [OF q1] by (simp add: view_insert_def no_view_def bisect_insert_def Let_def)
  define s2 where "s2 = arrive s1 5"
  have q2: "queues_at s2 (view_insert (sc_heap s2) 5 ((\<lambda>p. []), [], [4]))" unfolding s2_def
    by (rule queues_at_arrive(2) [OF v1]) (simp_all add: set_service_order has_room_def sample_heap_def)
  have "cfs_bisect (\<lambda>i. vruntime_in (sc_heap s2) ([4] ! i)) (vruntime_in (sc_heap s2) 5) 0 1 = 1"
    using pol [OF q2] by (simp add: cfs_bisect.simps vruntime_in_def)
  then have "view_insert (sc_heap s2) 5 ((\<lambda>p. []), [], [4]) = ((\<lambda>p. []), [], [4, 5])"
    using pol [OF q2] by (simp add: view_insert_def bisect_insert_def Let_def)
  then show ?thesis using q2 by (simp only: s1_def s2_def)
qed

theorem yield_breaks_fair_order_witness:
  "\<exists>m' v'. schedule_yield (\<lambda>i. 0) 110 120 fair_machine 0 0 6 = Some (True, m')
    \<and> sched_rep (m_sched m') 2 ((\<lambda>c. no_view)(0 := v')) \<and> \<not> fair_order (sc_heap (m_sched m')) (service_order v')"
proof -
  define V where "V = (\<lambda>c :: nat. no_view)(0 := ((\<lambda>p. []), [], [4, 5]))"
  have so: "service_order (V 0) = [4, 5]" by (simp add: V_def service_order_no_rt)
  define s where "s = arrive (arrive sample_sched 4) 5"
  have at: "tcb_policy (sc_heap s t) = tcb_policy (sample_heap t)" "task_state (sc_heap s t) = Runnable"
    "tcb_vruntime (sc_heap s t) = tcb_vruntime (sample_heap t)" "tcb_priority (sc_heap s t) = tcb_priority (sample_heap t)" for t
    using fair_arrivals by (simp_all add: queues_at_def s_def)
  have st: "task_state (t\<lparr>tcb_vruntime := k\<rparr>) = task_state t" "is_queued (t\<lparr>tcb_vruntime := k\<rparr>) = is_queued t"
    "queue_attrs (t\<lparr>tcb_vruntime := k\<rparr>) = queue_attrs t" for t k by (simp_all add: task_state_def is_queued_def queue_attrs_def)
  have f: "fair_sched = tcb_put (tcb_put s 4 (\<lambda>t. t\<lparr>tcb_vruntime := 1\<rparr>)) 5 (\<lambda>t. t\<lparr>tcb_vruntime := 5\<rparr>)"
    by (simp only: fair_sched_def s_def)
  have h: "sc_heap fair_sched = (sc_heap s)(4 := (sc_heap s 4)\<lparr>tcb_vruntime := 1\<rparr>, 5 := (sc_heap s 5)\<lparr>tcb_vruntime := 5\<rparr>)"
    by (simp add: f)
  have "sched_rep fair_sched 2 V"
    by (rule sched_rep_heap [of s]) (use fair_arrivals in \<open>simp_all add: queues_at_def V_def s_def [symmetric] f st\<close>)
  then have r: "sched_rep (m_sched fair_machine) 2 V" by (simp add: fair_machine_def)
  have "\<not> is_queued (sc_heap s 6)"
    using queues_at_not_queued [OF fair_arrivals, of 6] so by (simp add: s_def V_def)
  then have cur: "\<not> is_queued (sc_heap (m_sched fair_machine) 6)" "tcb_policy (sc_heap (m_sched fair_machine) 6) \<in> {NormalPolicy, Batch}"
    by (simp_all add: fair_machine_def h at sample_heap_def)
  have "tcb_vruntime (charge_runtime 110 fair_machine 0 (sc_heap (m_sched fair_machine) 6)) = 10"
    by (simp add: fair_machine_def h at sample_heap_def charge_runtime_def advance_vruntime_def tsc_cycles_to_ns_def cfs_weight_def
        prio_to_weight_def Let_def saturating_mul_def)
  then have "\<exists>m' v'. schedule_yield (\<lambda>i. 0) 110 120 fair_machine 0 0 6 = Some (True, m')
    \<and> sched_rep (m_sched m') 2 (V(0 := v')) \<and> \<not> fair_order (sc_heap (m_sched m')) (service_order v')"
    by (intro yield_breaks_fair_order [OF r _ cur, where t = 4 and ts = "[5]" and u = 5])
      (simp_all add: service_order_no_rt fair_order_def vruntime_in_def fair_machine_def h at st sample_heap_def has_room_def V_def)
  moreover have "(\<lambda>c. no_view)(0 := v) = V(0 := v)" for v by (simp add: V_def)
  ultimately show ?thesis by simp
qed

end
