(* ===== verification/Sched_Reach.thy ===== *)
theory Sched_Reach
  imports Sched_Switch
begin

text \<open>
  Sequences of scheduling events.  A computation on the scheduler is safe when it returns from every
  state whose queues are well formed and leaves them well formed; the handlers are safe because the
  queue operations are and safety is closed under sequencing.  Every state reachable by handlers of
  any CPU in any order is then well formed.
\<close>

section \<open>Safe computations\<close>

definition sched_ok :: "nat \<Rightarrow> Sched \<Rightarrow> bool" where
  "sched_ok n s = (\<exists>V. sched_inv s n V)"

definition safe :: "nat \<Rightarrow> (Sched \<Rightarrow> ('a \<times> Sched) option) \<Rightarrow> bool" where
  "safe n f = (\<forall>s. sched_ok n s \<longrightarrow> (\<exists>r s'. f s = Some (r, s') \<and> sched_ok n s'))"

named_theorems sched_safe

lemma safe_bind [sched_safe]:
  assumes "safe n f" "\<And>r. safe n (g r)"
  shows "safe n (\<lambda>s. Option.bind (f s) (\<lambda>(r, s). g r s))"
  unfolding safe_def
proof (intro allI impI)
  fix s assume "sched_ok n s"
  then obtain r s1 where 1: "f s = Some (r, s1)" "sched_ok n s1" using assms(1) unfolding safe_def by blast
  then show "\<exists>r s'. Option.bind (f s) (\<lambda>(r, s). g r s) = Some (r, s') \<and> sched_ok n s'"
    using assms(2) [of r] by (simp add: safe_def)
qed

lemma safe_if [sched_safe]: "safe n f \<Longrightarrow> safe n g \<Longrightarrow> safe n (\<lambda>s. if P s then f s else g s)"
  by (simp add: safe_def)

lemma safe_return [sched_safe]: "safe n (\<lambda>s. Some (r s, s))"
  by (simp add: safe_def)

definition preserves :: "nat \<Rightarrow> (Sched \<Rightarrow> Sched) \<Rightarrow> bool" where
  "preserves n g = (\<forall>s. sched_ok n s \<longrightarrow> sched_ok n (g s))"

lemma safe_after: "safe n f \<Longrightarrow> preserves n g \<Longrightarrow> safe n (\<lambda>s. f (g s))"
  by (simp add: safe_def preserves_def)

lemma safe_return_after: "preserves n g \<Longrightarrow> safe n (\<lambda>s. Some (r, g s))"
  by (simp add: safe_def preserves_def)

lemma sched_ok_heap:
  assumes "sched_ok n s" "sc_rq s' = sc_rq s" "sc_dl s' = sc_dl s"
    and h: "\<And>t. queue_attrs (sc_heap s' t) = queue_attrs (sc_heap s t) \<and> is_queued (sc_heap s' t) = is_queued (sc_heap s t)"
  shows "sched_ok n s'"
proof -
  have "rt_prio_ok (sc_heap s' t) = rt_prio_ok (sc_heap s t)" for t
    using h [of t] by (simp add: queue_attrs_def rt_prio_ok_def)
  then show ?thesis
    using assms(1) sched_rep_heap [OF _ assms(2,3) h] by (auto simp: sched_ok_def sched_inv_def)
qed

lemma preserves_heap:
  assumes "\<And>s. sc_rq (g s) = sc_rq s" "\<And>s. sc_dl (g s) = sc_dl s"
    and "\<And>s t. queue_attrs (sc_heap (g s) t) = queue_attrs (sc_heap s t) \<and> is_queued (sc_heap (g s) t) = is_queued (sc_heap s t)"
  shows "preserves n g"
  unfolding preserves_def using sched_ok_heap [OF _ assms] by blast

lemma preserves_set_state [sched_safe]: "preserves n (\<lambda>s. tcb_put s t (\<lambda>x. set_task_state x st))"
  by (rule preserves_heap) simp_all

section \<open>The operations of the run queues are safe\<close>

lemma safe_enqueue [sched_safe]: "c < n \<Longrightarrow> safe n (\<lambda>s. PerCpuRunQueue_enqueue now s c t)"
  using enqueue_safe unfolding safe_def sched_ok_def by metis

lemma safe_pick [sched_safe]: "c < n \<Longrightarrow> safe n (\<lambda>s. pick_next_task True now s c current)"
  using pick_next_task_safe unfolding safe_def sched_ok_def by metis

lemma remove_safe:
  assumes i: "sched_inv s n V" and c: "c < n"
  shows "\<exists>s' V'. PerCpuRunQueue_remove s c t = Some (t \<in> set (service_order (V c)), s') \<and> sched_inv s' n V'
    \<and> (t \<in> set (service_order (V c)) \<longrightarrow> \<not> is_queued (sc_heap s' t))"
proof -
  have r: "sched_rep s n V" and p: "\<And>t. rt_prio_ok (sc_heap s t)" using i by (simp_all add: sched_inv_def)
  obtain s' v' where s': "PerCpuRunQueue_remove s c t = Some (t \<in> set (service_order (V c)), s')"
      "sched_rep s' n (V(c := v'))" "service_order v' = remove1 t (service_order (V c))"
      "\<forall>u. sched_attrs (sc_heap s' u) = sched_attrs (sc_heap s u)"
    using remove_ok [OF r c p] by blast
  have "rt_prio_ok (sc_heap s' u)" for u
    using p [of u] s'(4) rt_prio_ok_attrs [of "sc_heap s' u" "sc_heap s u"] by simp
  then have "sched_inv s' n (V(c := v'))" using s'(2) by (simp add: sched_inv_def)
  moreover have "\<not> is_queued (sc_heap s' t)" if t: "t \<in> set (service_order (V c))"
  proof -
    have "t \<notin> set (service_order ((V(c := v')) c'))" if "c' < n" for c'
      using that sched_rep_member(2) [OF r c t] sched_rep_rq [OF r c] s'(3) by (cases "c' = c") simp_all
    then show ?thesis using s'(2) by (simp add: sched_rep_def)
  qed
  ultimately show ?thesis using s'(1) by blast
qed

lemma safe_remove [sched_safe]: "c < n \<Longrightarrow> safe n (\<lambda>s. PerCpuRunQueue_remove s c t)"
  using remove_safe unfolding safe_def sched_ok_def by metis

lemma safe_pick_result [sched_safe]:
  "safe n g \<Longrightarrow> (\<And>t. safe n (f t)) \<Longrightarrow> safe n h
    \<Longrightarrow> safe n (\<lambda>s. case r of KeepRunning \<Rightarrow> g s | Switch t \<Rightarrow> f t s | GoIdle \<Rightarrow> h s)"
  by (cases r) simp_all

lemma safe_option [sched_safe]:
  "safe n g \<Longrightarrow> (\<And>t. safe n (f t)) \<Longrightarrow> safe n (\<lambda>s. case r of None \<Rightarrow> g s | Some t \<Rightarrow> f t s)"
  by (cases r) simp_all

section \<open>The handlers are safe\<close>

text \<open>
  A handler on the queue of CPU \<open>c\<close> may run for a thread that is queued there or nowhere.
\<close>

definition queued_here :: "Sched \<Rightarrow> nat \<Rightarrow> ptr \<Rightarrow> bool" where
  "queued_here s c t = (is_queued (sc_heap s t) \<longrightarrow> (\<exists>s'. PerCpuRunQueue_remove s c t = Some (True, s')))"

lemma take_off_queue:
  assumes "sched_ok n s" "c < n" "queued_here s c t"
  shows "\<exists>s'. (if is_queued (sc_heap s t)
      then do { (_, s) \<leftarrow> PerCpuRunQueue_remove s c t; Some (tcb_put s t clear_queued) } else Some s) = Some s'
    \<and> sched_ok n s' \<and> \<not> is_queued (sc_heap s' t)"
proof (cases "is_queued (sc_heap s t)")
  case True
  obtain V where V: "sched_inv s n V" using assms(1) by (auto simp: sched_ok_def)
  obtain s1 V1 where s1: "PerCpuRunQueue_remove s c t = Some (t \<in> set (service_order (V c)), s1)" "sched_inv s1 n V1"
      "t \<in> set (service_order (V c)) \<longrightarrow> \<not> is_queued (sc_heap s1 t)"
    using remove_safe [OF V assms(2)] by blast
  then have n: "\<not> is_queued (sc_heap s1 t)" using True assms(3) by (auto simp: queued_here_def)
  have "sched_ok n s1" using s1(2) by (auto simp: sched_ok_def)
  then have "sched_ok n (tcb_put s1 t clear_queued)"
    by (rule sched_ok_heap) (use n in \<open>simp_all add: queue_attrs_def\<close>)
  then show ?thesis using True s1(1) n by simp
qed (use assms in simp)

lemma requeue_safe:
  assumes "sched_ok n s" "c < n" "queued_here s c t"
  shows "\<exists>r s'. requeue_current clock s c t = Some (r, s') \<and> sched_ok n s'"
proof -
  obtain s1 where s1: "(if is_queued (sc_heap s t)
      then do { (_, s) \<leftarrow> PerCpuRunQueue_remove s c t; Some (tcb_put s t clear_queued) } else Some s) = Some s1" "sched_ok n s1"
    using take_off_queue [OF assms] by blast
  have "safe n (\<lambda>s. PerCpuRunQueue_enqueue (clock 0) (tcb_put s t (\<lambda>t. set_task_state t Runnable)) c t)"
    by (rule safe_after [OF safe_enqueue [OF assms(2)] preserves_set_state])
  then show ?thesis unfolding requeue_current_def s1(1) using s1(2) by (simp add: safe_def)
qed

lemma safe_pick_replacement [sched_safe]:
  assumes c: "c < n"
  shows "safe n (\<lambda>s. pick_replacement clock s c t)"
  unfolding pick_replacement_def
  by (intro sched_safe c safe_return_after preserves_set_state safe_after [OF safe_enqueue [OF c] preserves_set_state])

lemma yield_select_safe:
  assumes "sched_ok n s" and c: "c < n" and "queued_here s c t"
  shows "\<exists>r s'. yield_select clock s c t = Some (r, s') \<and> sched_ok n s'"
proof -
  obtain ok s1 where s1: "requeue_current clock s c t = Some (ok, s1)" "sched_ok n s1"
    using requeue_safe [OF assms] by blast
  have "safe n (\<lambda>s. if \<not> ok then Some (None, tcb_put s t (\<lambda>t. set_task_state t Running))
      else do {
        (r, s) \<leftarrow> pick_next_task True (clock 1) s c None;
        (case r of
           Switch next \<Rightarrow> if next \<noteq> t then Some (Some next, s) else pick_replacement clock s c t
         | _ \<Rightarrow> do {
             (_, s) \<leftarrow> PerCpuRunQueue_remove s c t;
             Some (None, tcb_put s t (\<lambda>t. set_task_state t Running)) }) })"
    by (intro sched_safe c safe_return_after preserves_set_state)
  then show ?thesis unfolding yield_select_def s1(1) using s1(2) by (simp add: safe_def)
qed

lemma context_switch_ok:
  assumes "sched_ok n (m_sched m)"
  shows "sched_ok n (m_sched (context_switch a b m cpu prev next))"
proof -
  have "m_sched (context_switch a b m cpu prev next) =
      tcb_put (tcb_put (m_sched m) prev (\<lambda>t. charge_runtime a m cpu (switch_out t))) next (switch_in cpu)"
    by (simp add: context_switch_def Let_def)
  then show ?thesis by (simp only:) (rule sched_ok_heap [OF assms], simp_all)
qed

lemma schedule_yield_safe:
  assumes "sched_ok n (m_sched m)" "c < n" "queued_here (m_sched m) c t"
  shows "\<exists>r m'. schedule_yield clock a b m cpu c t = Some (r, m') \<and> sched_ok n (m_sched m')"
proof -
  obtain sel s1 where s1: "yield_select clock (m_sched m) c t = Some (sel, s1)" "sched_ok n s1"
    using yield_select_safe [OF assms] by blast
  have "sched_ok n (tcb_put s1 t (\<lambda>t. set_task_state t Running))"
    using preserves_set_state s1(2) by (simp add: preserves_def)
  then show ?thesis
    using s1 context_switch_ok [of n "m\<lparr>m_sched := s1\<rparr>"] by (cases sel) (auto simp: schedule_yield_def)
qed

lemma queued_here_iff:
  assumes "sched_inv s n V" "c < n"
  shows "queued_here s c t \<longleftrightarrow> (is_queued (sc_heap s t) \<longrightarrow> t \<in> set (service_order (V c)))"
  using remove_safe [OF assms, of t] by (auto simp: queued_here_def)

lemma sched_inv_heap:
  assumes "sched_inv s n V" "sc_rq s' = sc_rq s" "sc_dl s' = sc_dl s"
    and h: "\<And>t. queue_attrs (sc_heap s' t) = queue_attrs (sc_heap s t) \<and> is_queued (sc_heap s' t) = is_queued (sc_heap s t)"
  shows "sched_inv s' n V"
proof -
  have "rt_prio_ok (sc_heap s' t) = rt_prio_ok (sc_heap s t)" for t
    using h [of t] by (simp add: queue_attrs_def rt_prio_ok_def)
  then show ?thesis using assms(1) sched_rep_heap [OF _ assms(2,3) h] by (simp add: sched_inv_def)
qed

lemma recover_idle_inv:
  assumes i: "sched_inv s n V"
  shows "sched_inv (snd (recover_idle boot_idle s c)) n V"
    "is_queued (sc_heap (snd (recover_idle boot_idle s c)) t) = is_queued (sc_heap s t)"
proof -
  have q: "is_queued (t\<lparr>tcb_sched_state := tcb_sched_state t OR SCHED_IDLE_BIT\<rparr>) = is_queued t"
    "queue_attrs (t\<lparr>tcb_sched_state := k\<rparr>) = queue_attrs t" for t k
    by (simp_all add: flag_reads queue_attrs_def sched_bits bit_simps del: push_bit_of_1)
  have st: "sched_inv (rq_put s c f) n V" if "sched_inv s n V" "\<And>rq. rq_rt (f rq) = rq_rt rq \<and> rq_cfs (f rq) = rq_cfs rq
      \<and> rq_cpu (f rq) = rq_cpu rq \<and> rq_nr_running (f rq) = rq_nr_running rq" for s f
    using that sched_rep_stats [of s n V f c] by (simp add: sched_inv_def)
  have "sched_inv (tcb_put s idle (\<lambda>t. t\<lparr>tcb_sched_state := tcb_sched_state t OR SCHED_IDLE_BIT\<rparr>)) n V" for idle
    by (rule sched_inv_heap [OF i]) (simp_all add: q)
  then have "sched_inv (set_idle_thread s c idle) n V" for idle unfolding set_idle_thread_def by (intro st) simp_all
  then show "sched_inv (snd (recover_idle boot_idle s c)) n V"
    using i st by (auto simp: recover_idle_def Let_def simp del: fun_upd_apply split: option.split)
  show "is_queued (sc_heap (snd (recover_idle boot_idle s c)) t) = is_queued (sc_heap s t)"
    by (auto simp: recover_idle_def set_idle_thread_def q Let_def split: option.split)
qed

lemma block_select_safe:
  assumes "sched_ok n s" and c: "c < n" and "queued_here s c t"
  shows "\<exists>r s'. block_select clock s c t idle = Some (r, s') \<and> sched_ok n s'"
proof -
  obtain s1 where s1: "(if is_queued (sc_heap s t)
      then do { (_, s) \<leftarrow> PerCpuRunQueue_remove s c t; Some (tcb_put s t clear_queued) } else Some s) = Some s1" "sched_ok n s1"
    using take_off_queue [OF assms] by blast
  obtain r s2 where "pick_next_task True (clock 0) s1 c (Some t) = Some (r, s2)" "sched_ok n s2"
    using safe_pick [OF c] s1(2) unfolding safe_def by blast
  then show ?thesis unfolding block_select_def s1(1) by (simp add: Let_def)
qed

lemma schedule_block_safe:
  assumes o: "sched_ok n (m_sched m)" and c: "c < n" and q: "queued_here (m_sched m) c t"
  shows "\<exists>m'. schedule_block clock boot_idle a b m cpu c t = Some m' \<and> sched_ok n (m_sched m')"
proof -
  obtain V where V: "sched_inv (m_sched m) n V" using o by (auto simp: sched_ok_def)
  obtain idle s1 where s1: "recover_idle boot_idle (m_sched m) c = (idle, s1)" by (metis surj_pair)
  have i1: "sched_inv s1 n V" "\<And>u. is_queued (sc_heap s1 u) = is_queued (sc_heap (m_sched m) u)"
    using recover_idle_inv [OF V, of boot_idle c] s1 by simp_all
  have "queued_here s1 c t" using q queued_here_iff [OF V c, of t] queued_here_iff [OF i1(1) c, of t] i1(2) by simp
  moreover have "sched_ok n s1" using i1(1) by (auto simp: sched_ok_def)
  ultimately obtain sel s2 where s2: "block_select clock s1 c t idle = Some (sel, s2)" "sched_ok n s2"
    using block_select_safe [OF _ c] by blast
  have st: "sched_ok n (tcb_put s t (\<lambda>t. set_task_state t Running))" if "sched_ok n s" for s
    using preserves_set_state that by (simp add: preserves_def)
  obtain ok s3 where s3: "PerCpuRunQueue_remove (m_sched m) c t = Some (ok, s3)" "sched_ok n s3"
    using safe_remove [OF c] o unfolding safe_def by blast
  show ?thesis
    using s1 s2 st [OF s2(2)] st [OF s3(2)] s3(1) o context_switch_ok [of n "m\<lparr>m_sched := s2\<rparr>"]
    by (cases sel) (simp_all add: schedule_block_def finish_preblock_wake_def Let_def del: fun_upd_apply)
qed

lemma wake_enqueue_safe:
  assumes o: "sched_ok n s" and c: "c < n"
  shows "\<exists>s'. wake_enqueue now s c t = Some s' \<and> sched_ok n s'"
proof -
  have tr: "queue_attrs (snd (try_transition x st st')) = queue_attrs x \<and> is_queued (snd (try_transition x st st')) = is_queued x" for x st st'
    by (simp add: try_transition_def queue_attrs_def flag_reads replace_state_bit)
  obtain b x where bx: "(case task_state (sc_heap s t) of
            Sleeping \<Rightarrow> try_transition (sc_heap s t) Sleeping Runnable
          | Uninterruptible \<Rightarrow> try_transition (sc_heap s t) Uninterruptible Runnable
          | Stopped \<Rightarrow> try_transition (sc_heap s t) Stopped Runnable
          | Runnable \<Rightarrow> (True, sc_heap s t)
          | _ \<Rightarrow> (False, sc_heap s t)) = (b, x)" by (metis surj_pair)
  have "queue_attrs x = queue_attrs (sc_heap s t) \<and> is_queued x = is_queued (sc_heap s t)"
    using bx tr [of "sc_heap s t"] by (cases "task_state (sc_heap s t)") (auto, (metis snd_conv)+)
  then have o1: "sched_ok n (tcb_put s t (\<lambda>_. x))" by (intro sched_ok_heap [OF o]) simp_all
  obtain ok s1 where "PerCpuRunQueue_enqueue now (tcb_put s t (\<lambda>_. x)) c t = Some (ok, s1)" "sched_ok n s1"
    using safe_enqueue [OF c] o1 unfolding safe_def by blast
  then show ?thesis unfolding wake_enqueue_def bx Let_def prod.case using o1 by (cases b) simp_all
qed

lemma take_resched_reads [simp]:
  "queue_attrs (snd (take_need_resched t)) = queue_attrs t" "is_queued (snd (take_need_resched t)) = is_queued t"
  by (simp_all add: take_need_resched_def queue_attrs_def flag_reads sched_bits bit_simps del: push_bit_of_1)

lemma schedule_idle_safe:
  assumes o: "sched_ok n (m_sched m)" and c: "unat cpu_id < n"
    and m: "schedule_idle_cpu_once clock a b m cpu cpu_id = Some (r, m')"
  shows "sched_ok n (m_sched m')"
proof (cases "CURRENT_THREAD_PER_CPU m cpu")
  case (Some cur)
  define s1 where "s1 = tcb_put (m_sched m) cur (\<lambda>t. snd (take_need_resched t))"
  have o1: "sched_ok n s1" unfolding s1_def by (rule sched_ok_heap [OF o]) simp_all
  obtain res s2 where s2: "pick_next_task True (clock 0) s1 (unat cpu_id) (Some cur) = Some (res, s2)" "sched_ok n s2"
    using safe_pick [OF c] o1 unfolding safe_def by blast
  have "run_queue (m_sched m) cpu_id = Some (unat cpu_id)"
    using m Some by (auto simp: schedule_idle_cpu_once_def run_queue_def split: if_splits)
  then show ?thesis
    using m Some o s2 context_switch_ok [of n "m\<lparr>m_sched := s2\<rparr>"]
    by (auto simp: schedule_idle_cpu_once_def s1_def [symmetric] Let_def split: if_splits PickResult.splits)
qed (use m o in \<open>simp add: schedule_idle_cpu_once_def\<close>)

section \<open>Every reachable machine is well formed\<close>

text \<open>
  The events on a machine with CPUs \<open>0..<n\<close>, in any interleaving.  A thread that yields or blocks on
  a run queue is queued there or nowhere.
\<close>

inductive sched_step :: "nat \<Rightarrow> Machine \<Rightarrow> Machine \<Rightarrow> bool" for n where
  enqueue: "c < n \<Longrightarrow> PerCpuRunQueue_enqueue now (m_sched m) c t = Some (ok, s) \<Longrightarrow> sched_step n m (m\<lparr>m_sched := s\<rparr>)"
| remove: "c < n \<Longrightarrow> PerCpuRunQueue_remove (m_sched m) c t = Some (ok, s) \<Longrightarrow> sched_step n m (m\<lparr>m_sched := s\<rparr>)"
| pick: "c < n \<Longrightarrow> pick_next_task True now (m_sched m) c current = Some (r, s) \<Longrightarrow> sched_step n m (m\<lparr>m_sched := s\<rparr>)"
| set_state: "sched_step n m (m\<lparr>m_sched := tcb_put (m_sched m) t (\<lambda>x. set_task_state x st)\<rparr>)"
| wake: "c < n \<Longrightarrow> wake_enqueue now (m_sched m) c t = Some s \<Longrightarrow> sched_step n m (m\<lparr>m_sched := s\<rparr>)"
| yield: "c < n \<Longrightarrow> queued_here (m_sched m) c t \<Longrightarrow> schedule_yield clock a b m cpu c t = Some (ok, m') \<Longrightarrow> sched_step n m m'"
| block: "c < n \<Longrightarrow> queued_here (m_sched m) c t \<Longrightarrow> schedule_block clock boot_idle a b m cpu c t = Some m' \<Longrightarrow> sched_step n m m'"
| idle: "unat cpu_id < n \<Longrightarrow> schedule_idle_cpu_once clock a b m cpu cpu_id = Some (ok, m') \<Longrightarrow> sched_step n m m'"

lemma safe_returns: "safe n f \<Longrightarrow> sched_ok n s \<Longrightarrow> f s = Some (r, s') \<Longrightarrow> sched_ok n s'"
  by (force simp: safe_def)

lemma sched_step_ok:
  assumes "sched_step n m m'" "sched_ok n (m_sched m)"
  shows "sched_ok n (m_sched m')"
  using assms
proof (induction rule: sched_step.induct)
  case (enqueue c now m t ok s)
  then show ?case using safe_returns [OF safe_enqueue [OF enqueue(1)]] by simp
next
  case (remove c m t ok s)
  then show ?case using safe_returns [OF safe_remove [OF remove(1)]] by simp
next
  case (pick c now m current r s)
  then show ?case using safe_returns [OF safe_pick [OF pick(1)]] by simp
next
  case (set_state m t st)
  then show ?case using preserves_set_state by (simp add: preserves_def)
next
  case (wake c now m t s)
  then show ?case using wake_enqueue_safe [OF wake(3) wake(1), of now t] by auto
next
  case (yield c m t clock a b cpu ok m')
  then show ?case using schedule_yield_safe [OF yield(4) yield(1,2), of clock a b cpu] by auto
next
  case (block c m t clock boot_idle a b cpu m')
  then show ?case using schedule_block_safe [OF block(4) block(1,2), of clock boot_idle a b cpu] by auto
next
  case (idle cpu_id clock a b m cpu ok m')
  then show ?case using schedule_idle_safe by blast
qed


definition idle_machine :: Machine where
  "idle_machine = \<lparr>m_sched = sample_sched, TSC_HZ = 1000000000, last_switch_tsc = (\<lambda>c. 100),
     CURRENT_THREAD_PER_CPU = (\<lambda>c. None)\<rparr>"


end
