(* ===== verification/Fifo_Spec.thy ===== *)
theory Fifo_Spec
  imports Exo_Prelude
begin

text \<open>
  The contract of a bounded first-in first-out buffer, and what every implementation of it inherits:
  whatever sequence of insertions and removals is run, the answers are those of a list.  The
  migration rings of the scheduler and the message rings of the IPC layer are instances.
\<close>

section \<open>Requests\<close>

datatype 'a fifo_req = Put 'a | Take

datatype 'a fifo_resp = Stored bool | Taken "'a option"

primrec spec_step :: "nat \<Rightarrow> 'a list \<Rightarrow> 'a fifo_req \<Rightarrow> 'a fifo_resp \<times> 'a list" where
  "spec_step cap xs (Put x) = (if length xs < cap then (Stored True, xs @ [x]) else (Stored False, xs))"
| "spec_step cap xs Take = (case xs of [] \<Rightarrow> (Taken None, []) | x # xs \<Rightarrow> (Taken (Some x), xs))"

primrec spec_run :: "nat \<Rightarrow> 'a list \<Rightarrow> 'a fifo_req list \<Rightarrow> 'a fifo_resp list" where
  "spec_run cap xs [] = []"
| "spec_run cap xs (r # rs) = (case spec_step cap xs r of (a, ys) \<Rightarrow> a # spec_run cap ys rs)"

lemma spec_step_bound: "length xs \<le> cap \<Longrightarrow> length (snd (spec_step cap xs r)) \<le> cap"
  by (cases r) (auto split: list.split)

section \<open>The contract\<close>

locale bounded_fifo =
  fixes stores :: "'q \<Rightarrow> 'a list \<Rightarrow> bool"
    and cap :: nat
    and put :: "'q \<Rightarrow> 'a \<Rightarrow> bool \<times> 'q"
    and take_first :: "'q \<Rightarrow> 'a option \<times> 'q"
    and fits :: "'a \<Rightarrow> bool"
  assumes put_full: "stores q xs \<Longrightarrow> cap \<le> length xs \<Longrightarrow> fits x \<Longrightarrow> put q x = (False, q)"
    and put_ok: "stores q xs \<Longrightarrow> length xs < cap \<Longrightarrow> fits x \<Longrightarrow> \<exists>q'. put q x = (True, q') \<and> stores q' (xs @ [x])"
    and take_empty: "stores q [] \<Longrightarrow> take_first q = (None, q)"
    and take_ok: "stores q (x # xs) \<Longrightarrow> \<exists>q'. take_first q = (Some x, q') \<and> stores q' xs"
begin

primrec step :: "'q \<Rightarrow> 'a fifo_req \<Rightarrow> 'a fifo_resp \<times> 'q" where
  "step q (Put x) = (case put q x of (b, q') \<Rightarrow> (Stored b, q'))"
| "step q Take = (case take_first q of (r, q') \<Rightarrow> (Taken r, q'))"

primrec run :: "'q \<Rightarrow> 'a fifo_req list \<Rightarrow> 'a fifo_resp list" where
  "run q [] = []"
| "run q (r # rs) = (case step q r of (a, q') \<Rightarrow> a # run q' rs)"

definition req_fits :: "'a fifo_req \<Rightarrow> bool" where
  "req_fits r = (case r of Put x \<Rightarrow> fits x | Take \<Rightarrow> True)"

lemma step_refines:
  assumes "stores q xs" "req_fits r"
  shows "\<exists>q'. step q r = (fst (spec_step cap xs r), q') \<and> stores q' (snd (spec_step cap xs r))"
proof (cases r)
  case (Put x)
  then show ?thesis
    using put_full [OF assms(1), of x] put_ok [OF assms(1), of x] assms by (cases "length xs < cap") (auto simp: req_fits_def)
next
  case Take
  show ?thesis
  proof (cases xs)
    case Nil
    then show ?thesis using take_empty [of q] assms(1) by (simp add: Take)
  next
    case (Cons y ys)
    then show ?thesis using take_ok [of q y ys] assms(1) by (auto simp: Take)
  qed
qed

lemma run_refines: "stores q xs \<Longrightarrow> list_all req_fits rs \<Longrightarrow> run q rs = spec_run cap xs rs"
proof (induction rs arbitrary: q xs)
  case (Cons r rs)
  obtain q' where "step q r = (fst (spec_step cap xs r), q')" "stores q' (snd (spec_step cap xs r))"
    using step_refines [of q xs r] Cons.prems by auto
  then show ?case using Cons.IH [of q' "snd (spec_step cap xs r)"] Cons.prems by (simp split: prod.split)
qed simp

end

end
