(* ===== verification/Sched_Smp.thy ===== *)
theory Sched_Smp
  imports Sched_Reach Fifo_Spec
begin

text \<open>
  Load balancing across CPUs: the topology tables of \<open>kernel/src/scheduler/smp/topology.rs\<close>, the
  migration rings of \<open>migration.rs\<close> and the pull balancing of \<open>load_balance.rs\<close>.  Sending the
  reschedule interrupt has no effect on this state.
\<close>

section \<open>Definitions\<close>

subsection \<open>Topology\<close>

definition MAX_NODES :: nat where "MAX_NODES = 16"
definition CPU_ABSENT :: u32 where "CPU_ABSENT = 0xFFFFFFFF"

record Topology =
  NR_CPUS :: u32
  NR_NODES :: u32
  CPU_TO_NODE :: "nat \<Rightarrow> u8"
  CPU_SIBLING :: "nat \<Rightarrow> u32"
  NUMA_DISTANCE :: "nat \<Rightarrow> nat \<Rightarrow> u8"

definition Topology_boot :: Topology where
  "Topology_boot = \<lparr>NR_CPUS = 1, NR_NODES = 1, CPU_TO_NODE = (\<lambda>i. 0), CPU_SIBLING = (\<lambda>i. CPU_ABSENT),
     NUMA_DISTANCE = (\<lambda>a b. 1)\<rparr>"

definition topology_init :: "Topology \<Rightarrow> nat \<Rightarrow> nat \<Rightarrow> Topology" where
  "topology_init t nr_cpus nr_nodes =
    (let nr_cpus = min nr_cpus MAX_CPUS; nr_nodes = min nr_nodes MAX_NODES in
     t\<lparr>NR_CPUS := of_nat nr_cpus, NR_NODES := of_nat nr_nodes,
       NUMA_DISTANCE := (\<lambda>a b. if a < nr_nodes \<and> b < nr_nodes then (if a = b then 10 else 20) else NUMA_DISTANCE t a b)\<rparr>)"

definition set_cpu_node :: "Topology \<Rightarrow> CpuId \<Rightarrow> u8 \<Rightarrow> Topology" where
  "set_cpu_node t cpu node =
    (let idx = unat cpu in if idx < MAX_CPUS then t\<lparr>CPU_TO_NODE := (CPU_TO_NODE t)(idx := node)\<rparr> else t)"

definition set_cpu_sibling :: "Topology \<Rightarrow> CpuId \<Rightarrow> CpuId \<Rightarrow> Topology" where
  "set_cpu_sibling t cpu sibling =
    (let idx = unat cpu in if idx < MAX_CPUS then t\<lparr>CPU_SIBLING := (CPU_SIBLING t)(idx := sibling)\<rparr> else t)"

definition set_numa_distance :: "Topology \<Rightarrow> nat \<Rightarrow> nat \<Rightarrow> u8 \<Rightarrow> Topology" where
  "set_numa_distance t a b dist =
    (if a < MAX_NODES \<and> b < MAX_NODES
     then t\<lparr>NUMA_DISTANCE := (\<lambda>x y. if x = a \<and> y = b \<or> x = b \<and> y = a then dist else NUMA_DISTANCE t x y)\<rparr>
     else t)"

definition nr_cpus :: "Topology \<Rightarrow> nat" where "nr_cpus t = unat (NR_CPUS t)"

definition nr_nodes :: "Topology \<Rightarrow> nat" where "nr_nodes t = unat (NR_NODES t)"

definition cpu_node :: "Topology \<Rightarrow> CpuId \<Rightarrow> u8" where
  "cpu_node t cpu = (let idx = unat cpu in if idx < MAX_CPUS then CPU_TO_NODE t idx else 0)"

definition cpu_sibling :: "Topology \<Rightarrow> CpuId \<Rightarrow> u32" where
  "cpu_sibling t cpu = (let idx = unat cpu in if idx < MAX_CPUS then CPU_SIBLING t idx else CPU_ABSENT)"

definition numa_distance :: "Topology \<Rightarrow> nat \<Rightarrow> nat \<Rightarrow> u8" where
  "numa_distance t a b = (if a < MAX_NODES \<and> b < MAX_NODES then NUMA_DISTANCE t a b else 255)"

definition same_node :: "Topology \<Rightarrow> CpuId \<Rightarrow> CpuId \<Rightarrow> bool" where
  "same_node t cpu reference = (cpu_node t cpu = cpu_node t reference)"

subsection \<open>Migration rings\<close>

definition MIGRATION_QUEUE_DEPTH :: nat where [simp]: "MIGRATION_QUEUE_DEPTH = 16"

text \<open>The slots hold pointers; \<open>None\<close> is the null pointer.\<close>

record MigrationQueue =
  mq_head :: u32
  mq_tail :: u32
  mq_slots :: "nat \<Rightarrow> ptr option"

definition MigrationQueue_new :: MigrationQueue where
  "MigrationQueue_new = \<lparr>mq_head = 0, mq_tail = 0, mq_slots = (\<lambda>i. None)\<rparr>"

definition MigrationQueue_push :: "MigrationQueue \<Rightarrow> ptr \<Rightarrow> (bool \<times> MigrationQueue) option" where
  "MigrationQueue_push q tcb =
    (let tail = mq_tail q; next = (tail + 1) mod of_nat MIGRATION_QUEUE_DEPTH in
     if next = mq_head q then Some (False, q)
     else if unat tail \<ge> MIGRATION_QUEUE_DEPTH then None
     else Some (True, q\<lparr>mq_slots := (mq_slots q)(unat tail := Some tcb), mq_tail := next\<rparr>))"

definition MigrationQueue_pop :: "MigrationQueue \<Rightarrow> (ptr option \<times> MigrationQueue) option" where
  "MigrationQueue_pop q =
    (let head = mq_head q in
     if head = mq_tail q then Some (None, q)
     else if unat head \<ge> MIGRATION_QUEUE_DEPTH then None
     else Some (mq_slots q (unat head), q\<lparr>mq_head := (head + 1) mod of_nat MIGRATION_QUEUE_DEPTH\<rparr>))"

record Smp =
  smp_sched :: Sched
  smp_topo :: Topology
  MIGRATION_QUEUES :: "nat \<Rightarrow> MigrationQueue"
  MIGRATIONS_SENT :: u64
  MIGRATIONS_RECEIVED :: u64
  MIGRATIONS_DROPPED :: u64
  BALANCE_RUNS :: u64
  BALANCE_MIGRATIONS :: u64
  BALANCE_NUMA_SKIP :: u64

abbreviation ring_put :: "Smp \<Rightarrow> nat \<Rightarrow> MigrationQueue \<Rightarrow> Smp" where
  "ring_put m c q \<equiv> m\<lparr>MIGRATION_QUEUES := (MIGRATION_QUEUES m)(c := q)\<rparr>"

definition request_migration :: "u64 \<Rightarrow> Smp \<Rightarrow> ptr \<Rightarrow> CpuId \<Rightarrow> Smp option" where
  "request_migration now m tcb target =
    (let target_idx = unat target in
     if target_idx \<ge> nr_cpus (smp_topo m) then Some m
     else if target_idx \<ge> MAX_CPUS then None
     else do {
       (ok, q) \<leftarrow> MigrationQueue_push (MIGRATION_QUEUES m target_idx) tcb;
       let m = ring_put m target_idx q;
       (if \<not> ok then do {
          let m = m\<lparr>MIGRATIONS_DROPPED := MIGRATIONS_DROPPED m + 1\<rparr>;
          let home_raw = unat (tcb_cpu_id (sc_heap (smp_sched m) tcb));
          (if home_raw < nr_cpus (smp_topo m) then do {
             c \<leftarrow> run_queue (smp_sched m) (of_nat home_raw);
             (_, s) \<leftarrow> PerCpuRunQueue_enqueue now (smp_sched m) c tcb;
             Some (m\<lparr>smp_sched := s\<rparr>) }
           else Some m) }
        else Some (m\<lparr>MIGRATIONS_SENT := MIGRATIONS_SENT m + 1\<rparr>)) })"

text \<open>\<open>drain_cb\<close> is the callback of \<open>drain_pending_migrations\<close>.\<close>

partial_function (option) drain_pending_migrations ::
  "(Smp \<Rightarrow> ptr \<Rightarrow> Smp option) \<Rightarrow> Smp \<Rightarrow> CpuId \<Rightarrow> Smp option" where
  "drain_pending_migrations drain_cb m cpu =
    (if unat cpu \<ge> MAX_CPUS then None
     else do {
       (r, q) \<leftarrow> MigrationQueue_pop (MIGRATION_QUEUES m (unat cpu));
       let m = ring_put m (unat cpu) q;
       (case r of
          None \<Rightarrow> Some m
        | Some tcb \<Rightarrow> do {
            let m = m\<lparr>smp_sched := tcb_put (smp_sched m) tcb (\<lambda>t. t\<lparr>tcb_cpu_id := ucast cpu\<rparr>),
                       MIGRATIONS_RECEIVED := MIGRATIONS_RECEIVED m + 1\<rparr>;
            m \<leftarrow> drain_cb m tcb;
            drain_pending_migrations drain_cb m cpu }) })"

subsection \<open>Balancing\<close>

definition BALANCE_INTERVAL_TICKS :: u64 where "BALANCE_INTERVAL_TICKS = 4"
definition IMBALANCE_THRESHOLD :: nat where "IMBALANCE_THRESHOLD = 2"
definition MAX_MIGRATIONS_PER_BALANCE :: nat where "MAX_MIGRATIONS_PER_BALANCE = 4"

text \<open>The loop of \<open>do_pull\<close> with \<open>k\<close> threads left to move; the result is the number moved.\<close>

primrec pull_loop :: "u64 \<Rightarrow> CpuId \<Rightarrow> nat \<Rightarrow> nat \<Rightarrow> Smp \<Rightarrow> nat \<Rightarrow> (nat \<times> Smp) option" where
  "pull_loop now dst_cpu src 0 m moved = Some (moved, m)"
| "pull_loop now dst_cpu src (Suc k) m moved =
    (case cfs_dequeue_for_migration (smp_sched m) src dst_cpu of
       (None, s) \<Rightarrow> Some (moved, m\<lparr>smp_sched := s\<rparr>)
     | (Some tcb, s) \<Rightarrow>
         let m = m\<lparr>smp_sched := s\<rparr> in
         if \<not> allowed_on (sc_heap s tcb) dst_cpu then do {
           (_, s) \<leftarrow> PerCpuRunQueue_enqueue now s src tcb;
           Some (moved, m\<lparr>smp_sched := s\<rparr>) }
         else do {
           m \<leftarrow> request_migration now m tcb dst_cpu;
           pull_loop now dst_cpu src k m (moved + 1) })"

definition do_pull :: "u64 \<Rightarrow> Smp \<Rightarrow> CpuId \<Rightarrow> CpuId \<Rightarrow> nat \<Rightarrow> Smp option" where
  "do_pull now m dst_cpu src_cpu cnt =
    (if cnt = 0 then Some m
     else do {
       src \<leftarrow> run_queue (smp_sched m) src_cpu;
       _ \<leftarrow> run_queue (smp_sched m) dst_cpu;
       (moved, m) \<leftarrow> pull_loop now dst_cpu src cnt m 0;
       Some (m\<lparr>BALANCE_MIGRATIONS := BALANCE_MIGRATIONS m + of_nat moved\<rparr>) })"

text \<open>The most loaded CPU other than \<open>local_cpu\<close> among those with \<open>keep\<close>, and its load.\<close>

primrec find_busiest :: "Sched \<Rightarrow> CpuId \<Rightarrow> (CpuId \<Rightarrow> bool) \<Rightarrow> nat list \<Rightarrow> CpuId option \<times> nat \<Rightarrow> (CpuId option \<times> nat) option" where
  "find_busiest s local_cpu keep [] best = Some best"
| "find_busiest s local_cpu keep (i # is) best =
    (let cpu = of_nat i in
     if cpu = local_cpu \<or> \<not> keep cpu then find_busiest s local_cpu keep is best
     else do {
       c \<leftarrow> run_queue s cpu;
       let nr = unat (rq_nr_running (sc_rq s c));
       find_busiest s local_cpu keep is (if nr > snd best then (Some cpu, nr) else best) })"

definition balance_cpu :: "u64 \<Rightarrow> Smp \<Rightarrow> CpuId \<Rightarrow> Smp option" where
  "balance_cpu now m local_cpu = do {
     let m = m\<lparr>BALANCE_RUNS := BALANCE_RUNS m + 1\<rparr>;
     let s = smp_sched m;
     c \<leftarrow> run_queue s local_cpu;
     let local_nr = unat (rq_nr_running (sc_rq s c));
     let n = nr_cpus (smp_topo m);
     (busiest, busiest_nr) \<leftarrow> find_busiest s local_cpu (\<lambda>_. True) [0..<n] (None, 0);
     (case busiest of
        None \<Rightarrow> Some m
      | Some busiest \<Rightarrow>
          if busiest_nr \<le> local_nr + IMBALANCE_THRESHOLD then Some m
          else
            let local_node = cpu_node (smp_topo m) local_cpu; busiest_node = cpu_node (smp_topo m) busiest in
            if local_node \<noteq> busiest_node then do {
              (same_node_busiest, same_node_nr) \<leftarrow>
                find_busiest s local_cpu (\<lambda>cpu. cpu_node (smp_topo m) cpu = local_node) [0..<n] (None, 0);
              (case same_node_busiest of
                 Some snb \<Rightarrow>
                   if same_node_nr > local_nr + IMBALANCE_THRESHOLD
                   then do_pull now m local_cpu snb ((same_node_nr - local_nr) div 2)
                   else Some (m\<lparr>BALANCE_NUMA_SKIP := BALANCE_NUMA_SKIP m + 1\<rparr>)
               | None \<Rightarrow> Some (m\<lparr>BALANCE_NUMA_SKIP := BALANCE_NUMA_SKIP m + 1\<rparr>)) }
            else do_pull now m local_cpu busiest (min ((busiest_nr - local_nr) div 2) MAX_MIGRATIONS_PER_BALANCE)) }"

section \<open>A migration ring holds a bounded queue\<close>

definition mq_stores :: "MigrationQueue \<Rightarrow> ptr list \<Rightarrow> bool" where
  "mq_stores q xs =
    (\<exists>h < 16. mq_head q = of_nat h \<and> mq_tail q = of_nat ((h + length xs) mod 16) \<and> length xs < 16
       \<and> (\<forall>i < length xs. mq_slots q ((h + i) mod 16) = Some (xs ! i)))"

lemma ring_index: "h < 16 \<Longrightarrow> unat (of_nat h :: u32) = h"
  by (simp add: unat_of_nat take_bit_nat_eq_self)

lemma ring_next: "h < 16 \<Longrightarrow> (of_nat h + 1 :: u32) mod of_nat MIGRATION_QUEUE_DEPTH = of_nat ((h + 1) mod 16)"
  by (simp add: word_unat_eq_iff unat_mod_distrib unat_word_ariths ring_index)

lemma ring_index_eq: "a < 16 \<Longrightarrow> b < 16 \<Longrightarrow> (of_nat a :: u32) = of_nat b \<longleftrightarrow> a = b"
  by (metis ring_index)

lemma mod_shift_eq: "i < 16 \<Longrightarrow> j < 16 \<Longrightarrow> (h + i) mod 16 = (h + j) mod (16 :: nat) \<longleftrightarrow> i = j"
proof -
  have "i = j" if "i \<le> j" "j < 16" "(h + i) mod 16 = (h + j) mod 16" for i j :: nat
  proof -
    have "16 dvd (h + j) - (h + i)" using that by (metis add_le_cancel_left mod_eq_dvd_iff_nat)
    then have "16 dvd j - i" by simp
    then show ?thesis using that by (auto dest: dvd_imp_le)
  qed
  then show "i < 16 \<Longrightarrow> j < 16 \<Longrightarrow> (h + i) mod 16 = (h + j) mod (16 :: nat) \<longleftrightarrow> i = j"
    by (metis nat_le_linear)
qed

lemma mod_shift_id: "0 < i \<Longrightarrow> i < 16 \<Longrightarrow> h < 16 \<Longrightarrow> (h + i) mod 16 \<noteq> (h :: nat)"
  using mod_shift_eq [of i 0 h] by simp

lemma mq_new_stores: "mq_stores MigrationQueue_new []"
  by (auto simp: mq_stores_def MigrationQueue_new_def intro!: exI [of _ 0])

lemma mq_push_full:
  assumes "mq_stores q xs" "15 \<le> length xs"
  shows "MigrationQueue_push q x = Some (False, q)"
proof -
  obtain h where h: "h < 16" "mq_head q = of_nat h" "mq_tail q = of_nat ((h + length xs) mod 16)" "length xs < 16"
    using assms(1) by (auto simp: mq_stores_def)
  have "length xs = 15" using h(4) assms(2) by simp
  then have "((h + length xs) mod 16 + 1) mod 16 = h" using h(1) by (simp add: mod_simps)
  then show ?thesis using ring_next [of "(h + length xs) mod 16"] h by (simp add: MigrationQueue_push_def)
qed

lemma mq_push_ok:
  assumes "mq_stores q xs" "length xs < 15"
  shows "\<exists>q'. MigrationQueue_push q x = Some (True, q') \<and> mq_stores q' (xs @ [x])"
proof -
  obtain h where h: "h < 16" "mq_head q = of_nat h" "mq_tail q = of_nat ((h + length xs) mod 16)"
      "\<forall>i < length xs. mq_slots q ((h + i) mod 16) = Some (xs ! i)"
    using assms(1) by (auto simp: mq_stores_def)
  define t where "t = (h + length xs) mod 16"
  have t: "t < 16" "(t + 1) mod 16 = (h + (length xs + 1)) mod 16" by (simp_all add: t_def mod_simps)
  have t3: "(t + 1) mod 16 \<noteq> h" unfolding t(2) using h(1) assms(2) by (intro mod_shift_id) simp_all
  define q' where "q' = q\<lparr>mq_slots := (mq_slots q)(t := Some x), mq_tail := of_nat ((t + 1) mod 16)\<rparr>"
  have "MigrationQueue_push q x = Some (True, q')"
    using ring_next [OF t(1)] ring_index [OF t(1)] ring_index_eq [of "(t + 1) mod 16" h] t t3 h(1,2,3)
    by (simp add: MigrationQueue_push_def q'_def t_def)
  moreover have "mq_slots q' ((h + i) mod 16) = Some ((xs @ [x]) ! i)" if "i < length (xs @ [x])" for i
  proof (cases "i = length xs")
    case False
    then have i: "i < length xs" using that by simp
    then have "(h + i) mod 16 \<noteq> t" using mod_shift_eq [of i "length xs" h] assms(2) by (simp add: t_def)
    then show ?thesis using h(4) i by (simp add: q'_def nth_append)
  qed (simp add: q'_def t_def)
  then have "mq_stores q' (xs @ [x])"
    unfolding mq_stores_def using h(1,2) assms(2) t(2) by (intro exI [of _ h]) (simp add: q'_def)
  ultimately show ?thesis by blast
qed

lemma mq_pop_empty: "mq_stores q [] \<Longrightarrow> MigrationQueue_pop q = Some (None, q)"
  by (auto simp: mq_stores_def MigrationQueue_pop_def)

lemma mq_pop_ok:
  assumes "mq_stores q (x # xs)"
  shows "\<exists>q'. MigrationQueue_pop q = Some (Some x, q') \<and> mq_stores q' xs"
proof -
  obtain h where h: "h < 16" "mq_head q = of_nat h" "mq_tail q = of_nat ((h + Suc (length xs)) mod 16)" "length xs < 15"
      "\<forall>i < Suc (length xs). mq_slots q ((h + i) mod 16) = Some ((x # xs) ! i)"
    using assms by (auto simp: mq_stores_def)
  have ne: "(h + Suc (length xs)) mod 16 \<noteq> h" "((h + 1) mod 16 + length xs) mod 16 = (h + Suc (length xs)) mod 16"
    using h(1,4) by (intro mod_shift_id, simp_all add: mod_simps)
  define q' where "q' = q\<lparr>mq_head := of_nat ((h + 1) mod 16)\<rparr>"
  have "mq_slots q h = Some x" using h(5) [rule_format, of 0] h(1) by simp
  then have "MigrationQueue_pop q = Some (Some x, q')"
    using h(1-3) ne(1) ring_next [OF h(1)] ring_index [OF h(1)] ring_index_eq [OF h(1), of "(h + Suc (length xs)) mod 16"]
    by (simp add: MigrationQueue_pop_def q'_def)
  moreover have "mq_slots q' (((h + 1) mod 16 + i) mod 16) = Some (xs ! i)" if "i < length xs" for i
  proof -
    have "((h + 1) mod 16 + i) mod 16 = (h + Suc i) mod 16" by (simp add: mod_simps)
    then show ?thesis using h(5) [rule_format, of "Suc i"] that by (simp add: q'_def)
  qed
  then have "mq_stores q' xs"
    unfolding mq_stores_def using h(3,4) ne(2) by (intro exI [of _ "(h + 1) mod 16"]) (simp add: q'_def)
  ultimately show ?thesis by blast
qed

interpretation mig: bounded_fifo mq_stores 15 "\<lambda>q x. the (MigrationQueue_push q x)" "\<lambda>q. the (MigrationQueue_pop q)" "\<lambda>x. True"
proof (unfold_locales, goal_cases)
  case (1 q xs x)
  then show ?case using mq_push_full [of q xs x] by simp
next
  case (2 q xs x)
  then show ?case using mq_push_ok [of q xs x] by auto
next
  case (3 q)
  then show ?case using mq_pop_empty [of q] by simp
next
  case (4 q x xs)
  then show ?case using mq_pop_ok [of q x xs] by auto
qed

section \<open>Taking a thread for another CPU\<close>

abbreviation none_movable :: "heap \<Rightarrow> ptr list \<Rightarrow> CpuId \<Rightarrow> bool" where
  "none_movable h C dst \<equiv> \<forall>t \<in> set C. \<not> allowed_on (h t) dst"

lemma find_migratable_spec:
  assumes "holds a xs" "k \<le> length xs"
  shows "case find_migratable h a dst k of
      None \<Rightarrow> \<forall>i < k. \<not> allowed_on (h (xs ! i)) dst
    | Some i \<Rightarrow> i < k \<and> allowed_on (h (xs ! i)) dst \<and> (\<forall>j. i < j \<and> j < k \<longrightarrow> \<not> allowed_on (h (xs ! j)) dst)"
  using assms(2)
proof (induction k)
  case (Suc k)
  have "a k = Some (xs ! k)" using holds_nth [OF assms(1)] Suc.prems by simp
  then show ?case using Suc by (auto simp: less_Suc_eq split: option.splits)
qed simp

lemma cfs_holds_delete:
  assumes q: "cfs_holds h q xs" and i: "i < length xs"
  shows "cfs_holds h (q\<lparr>cfs_tasks := (shift_left (cfs_tasks q) i (cfs_count q))(cfs_count q - 1 := None), cfs_count := cfs_count q - 1,
      cfs_weight_sum := saturating_sub (cfs_weight_sum q) (ucast (cfs_weight (tcb_priority (h (xs ! i)))))\<rparr>)
    (take i xs @ drop (Suc i) xs)"
proof -
  have h: "holds (cfs_tasks q) xs" and c: "cfs_count q = length xs" using q by (simp_all add: cfs_holds_def)
  have "(\<Sum>t \<leftarrow> xs. weight_of h t) = (\<Sum>t \<leftarrow> take i xs @ xs ! i # drop (Suc i) xs. weight_of h t)"
    using i by (simp only: id_take_nth_drop [symmetric])
  then show ?thesis using q holds_delete [OF h i] i by (simp add: cfs_holds_def c shift_left_eq weight_sum_sub le_diff_conv)
qed

lemma dequeue_for_migration_ok:
  assumes r: "sched_rep s n V" and c: "c < n" and v: "V c = (L, D, C)"
  shows "\<exists>t s' C'. cfs_dequeue_for_migration s c dst = (t, s') \<and> sched_rep s' n (V(c := (L, D, C')))
    \<and> mset C = mset C' + (case t of None \<Rightarrow> {#} | Some t \<Rightarrow> {#t#})
    \<and> (case t of None \<Rightarrow> s' = s \<and> none_movable (sc_heap s) C' dst
       | Some t \<Rightarrow> allowed_on (sc_heap s t) dst \<and> tcb_policy (sc_heap s t) \<in> {NormalPolicy, Batch}
           \<and> sc_heap s' = (sc_heap s)(t := clear_queued (sc_heap s t)) \<and> rq_frame s s' c t)"
proof -
  have q: "queues_rep s c (L, D, C)" using sched_rep_rq [OF r c] by (simp add: rq_rep_def v)
  then have cf: "cfs_holds (sc_heap s) (rq_cfs (sc_rq s c)) C" by (simp add: queues_rep_def)
  have h: "holds (cfs_tasks (rq_cfs (sc_rq s c))) C" and cnt: "cfs_count (rq_cfs (sc_rq s c)) = length C"
    using cf by (simp_all add: cfs_holds_def)
  note spec = find_migratable_spec [OF h order_refl, of "sc_heap s" dst]
  show ?thesis
  proof (cases "find_migratable (sc_heap s) (cfs_tasks (rq_cfs (sc_rq s c))) dst (length C)")
    case None
    then have "cfs_dequeue_for_migration s c dst = (None, s)" by (simp add: cfs_dequeue_for_migration_def cnt)
    moreover have "none_movable (sc_heap s) C dst" using None spec by (auto simp: in_set_conv_nth)
    moreover have "V(c := (L, D, C)) = V" using v by (simp add: fun_upd_idem)
    ultimately show ?thesis using r by (intro exI [of _ None] exI [of _ s] exI [of _ C]) (simp del: fun_upd_apply)
  next
    case (Some i)
    then have i: "i < length C" "allowed_on (sc_heap s (C ! i)) dst" using spec by simp_all
    define t where "t = C ! i"
    define C' where "C' = take i C @ drop (Suc i) C"
    define q' where "q' = (rq_cfs (sc_rq s c))\<lparr>cfs_tasks := (shift_left (cfs_tasks (rq_cfs (sc_rq s c))) i (length C))(length C - 1 := None),
      cfs_count := length C - 1, cfs_weight_sum := saturating_sub (cfs_weight_sum (rq_cfs (sc_rq s c)))
        (ucast (cfs_weight (tcb_priority (sc_heap s t))))\<rparr>"
    define s' where "s' = rq_put (tcb_put s t clear_queued) c (\<lambda>rq. rq\<lparr>rq_cfs := q', rq_nr_running := rq_nr_running rq - 1\<rparr>)"
    have "cfs_tasks (rq_cfs (sc_rq s c)) i = Some t" using holds_nth [OF h i(1)] by (simp add: t_def)
    then have e: "cfs_dequeue_for_migration s c dst = (Some t, s')"
      using Some by (simp add: cfs_dequeue_for_migration_def cnt s'_def q'_def Let_def)
    have q': "cfs_holds (sc_heap s) q' C'"
      using cfs_holds_delete [OF cf i(1)] by (simp add: q'_def C'_def t_def cnt)
    have C: "C = take i C @ t # drop (Suc i) C" using i(1) by (simp add: t_def id_take_nth_drop)
    have sub: "set C' \<subseteq> set C" using set_take_subset [of i C] set_drop_subset [of "Suc i" C] by (auto simp: C'_def)
    have mc: "mset C = add_mset t (mset C')" by (subst C) (simp add: C'_def)
    then have m: "mset (service_order (V c)) = add_mset t (mset (service_order (L, D, C')))"
      by (simp add: v service_order_def)
    have fr: "rq_frame s s' c t" by (simp add: rq_frame_def s'_def)
    have "queues_rep s' c (L, D, C')"
      by (rule queues_rep_shrink [OF q]) (use q q' sub in \<open>auto simp: s'_def queues_rep_def\<close>)
    then have "sched_rep s' n (V(c := (L, D, C')))"
      by (rule sched_rep_leave [OF r c _ fr m]) (simp_all add: s'_def)
    moreover have "tcb_policy (sc_heap s t) \<in> {NormalPolicy, Batch}" using q i(1) by (simp add: queues_rep_def t_def)
    ultimately show ?thesis using e fr i(2) mc
      by (intro exI [of _ "Some t"] exI [of _ s'] exI [of _ C']) (simp add: s'_def t_def del: fun_upd_apply)
  qed
qed

section \<open>Pulling threads into a migration ring\<close>

lemma clear_queued_allowed [simp]: "allowed_on (clear_queued t) c = allowed_on t c"
  by (simp add: allowed_on_def clear_queued_def)

lemma request_migration_sent:
  assumes "unat target < nr_cpus (smp_topo m)" "unat target < MAX_CPUS"
    "mq_stores (MIGRATION_QUEUES m (unat target)) xs" "length xs < 15"
  shows "\<exists>m'. request_migration now m t target = Some m' \<and> smp_sched m' = smp_sched m \<and> smp_topo m' = smp_topo m
    \<and> mq_stores (MIGRATION_QUEUES m' (unat target)) (xs @ [t])"
proof -
  obtain q' where "MigrationQueue_push (MIGRATION_QUEUES m (unat target)) t = Some (True, q')" "mq_stores q' (xs @ [t])"
    using mq_push_ok [OF assms(3,4), of t] by blast
  then show ?thesis using assms(1,2) by (simp add: request_migration_def)
qed

text \<open>What a pull of at most \<open>k\<close> threads leaves of the fair class \<open>C\<close> of a run queue, and the threads \<open>ys\<close> it took.\<close>

definition pulled :: "heap \<Rightarrow> heap \<Rightarrow> ptr list \<Rightarrow> ptr list \<Rightarrow> CpuId \<Rightarrow> nat \<Rightarrow> ptr list \<Rightarrow> bool" where
  "pulled h h' C C' dst k ys =
    (length ys \<le> k \<and> (length ys < k \<longrightarrow> none_movable h C' dst) \<and> mset C = mset C' + mset ys
     \<and> (\<forall>t. sched_attrs (h' t) = sched_attrs (h t) \<and> allowed_on (h' t) dst = allowed_on (h t) dst)
     \<and> (\<forall>t \<in> set ys. allowed_on (h t) dst))"

lemma pull_loop_ok:
  assumes "sched_rep (smp_sched m) n V" "src < n" "V src = (L, D, C)" "unat dst < nr_cpus (smp_topo m)" "unat dst < MAX_CPUS"
    "mq_stores (MIGRATION_QUEUES m (unat dst)) xs" "length xs + k \<le> 15"
  shows "\<exists>m' C' ys. pull_loop now dst src k m moved = Some (moved + length ys, m')
    \<and> sched_rep (smp_sched m') n (V(src := (L, D, C'))) \<and> mq_stores (MIGRATION_QUEUES m' (unat dst)) (xs @ ys)
    \<and> pulled (sc_heap (smp_sched m)) (sc_heap (smp_sched m')) C C' dst k ys"
  using assms
proof (induction k arbitrary: m V C xs moved)
  case 0
  then have "V(src := (L, D, C)) = V" by (simp add: fun_upd_idem)
  then show ?case using 0 by (intro exI [of _ m] exI [of _ C] exI [of _ "[]"]) (simp add: pulled_def del: fun_upd_apply)
next
  case (Suc k)
  define h where "h = sc_heap (smp_sched m)"
  obtain r s1 C1 where d: "cfs_dequeue_for_migration (smp_sched m) src dst = (r, s1)" "sched_rep s1 n (V(src := (L, D, C1)))"
      "mset C = mset C1 + (case r of None \<Rightarrow> {#} | Some t \<Rightarrow> {#t#})"
      "case r of None \<Rightarrow> s1 = smp_sched m \<and> none_movable h C1 dst
       | Some t \<Rightarrow> allowed_on (h t) dst \<and> tcb_policy (h t) \<in> {NormalPolicy, Batch}
           \<and> sc_heap s1 = h(t := clear_queued (h t)) \<and> rq_frame (smp_sched m) s1 src t"
    using dequeue_for_migration_ok [OF Suc.prems(1-3), of dst] unfolding h_def by blast
  show ?case
  proof (cases r)
    case None
    then show ?thesis using d Suc.prems
      by (intro exI [of _ "m\<lparr>smp_sched := s1\<rparr>"] exI [of _ C1] exI [of _ "[]"]) (simp add: pulled_def h_def del: fun_upd_apply)
  next
    case (Some t)
    have h: "sc_heap s1 = h(t := clear_queued (h t))" "allowed_on (h t) dst" using d(4) Some by simp_all
    have "mq_stores (MIGRATION_QUEUES (m\<lparr>smp_sched := s1\<rparr>) (unat dst)) xs" "length xs < 15" using Suc.prems by simp_all
    then obtain m1 where m1: "request_migration now (m\<lparr>smp_sched := s1\<rparr>) t dst = Some m1" "smp_sched m1 = s1" "smp_topo m1 = smp_topo m"
        "mq_stores (MIGRATION_QUEUES m1 (unat dst)) (xs @ [t])"
      using request_migration_sent [of dst "m\<lparr>smp_sched := s1\<rparr>" xs now t] Suc.prems(4,5) by auto
    have "\<exists>m' C' ys. pull_loop now dst src k m1 (moved + 1) = Some (moved + 1 + length ys, m')
        \<and> sched_rep (smp_sched m') n ((V(src := (L, D, C1)))(src := (L, D, C'))) \<and> mq_stores (MIGRATION_QUEUES m' (unat dst)) ((xs @ [t]) @ ys)
        \<and> pulled (sc_heap (smp_sched m1)) (sc_heap (smp_sched m')) C1 C' dst k ys"
      by (rule Suc.IH) (use m1 d(2) Suc.prems in \<open>simp_all del: fun_upd_apply add: fun_upd_same\<close>)
    then obtain m' C' ys where ih: "pull_loop now dst src k m1 (moved + 1) = Some (moved + 1 + length ys, m')"
        "sched_rep (smp_sched m') n (V(src := (L, D, C')))" "mq_stores (MIGRATION_QUEUES m' (unat dst)) (xs @ t # ys)"
        "pulled (sc_heap s1) (sc_heap (smp_sched m')) C1 C' dst k ys"
      unfolding fun_upd_upd fun_upd_same m1(2) append_assoc append_Cons append_Nil by blast
    have at: "sched_attrs (sc_heap s1 u) = sched_attrs (h u)" "allowed_on (sc_heap s1 u) dst = allowed_on (h u) dst" for u
      by (simp_all add: h)
    have "pulled h (sc_heap (smp_sched m')) C C' dst (Suc k) (t # ys)"
      using ih(4) h(2) d(3) Some by (simp add: pulled_def at)
    moreover have "pull_loop now dst src (Suc k) m moved = Some (moved + length (t # ys), m')"
      using d(1) Some h m1(1) ih(1) by (simp add: Let_def)
    ultimately show ?thesis using ih(2,3) unfolding h_def
      by (intro exI [of _ m'] exI [of _ C'] exI [of _ "t # ys"]) (simp del: fun_upd_apply)
  qed
qed

lemma pulled_not_queued:
  assumes r: "sched_rep s n V" "c < n" "V c = (L, D, C)" and r': "sched_rep s' n (V(c := (L, D, C')))"
    and m: "mset C = mset C' + mset ys" and t: "t \<in> set ys"
  shows "\<not> is_queued (sc_heap s' t)"
proof -
  have "distinct (service_order (V c))" using sched_rep_rq [OF r(1,2)] by simp
  moreover have "mset (service_order (V c)) = mset (service_order (L, D, C') @ ys)" using m r(3) by (simp add: service_order_def)
  ultimately have d: "distinct (service_order (L, D, C') @ ys)" "set (service_order (V c)) = set (service_order (L, D, C') @ ys)"
    by (metis mset_eq_imp_distinct_iff, metis mset_eq_setD)
  have "t \<notin> set (service_order ((V(c := (L, D, C'))) a))" if "a < n" for a
    using d t sched_rep_member(2) [OF r(1,2), of t a] that by (cases "a = c") auto
  then show ?thesis using r' by (simp add: sched_rep_def)
qed

subsection \<open>A machine with two CPUs\<close>

definition sample_smp :: Smp where
  "sample_smp = \<lparr>smp_sched = arrive sample_sched 3, smp_topo = topology_init Topology_boot 2 1,
     MIGRATION_QUEUES = (\<lambda>c. MigrationQueue_new), MIGRATIONS_SENT = 0, MIGRATIONS_RECEIVED = 0, MIGRATIONS_DROPPED = 0,
     BALANCE_RUNS = 0, BALANCE_MIGRATIONS = 0, BALANCE_NUMA_SKIP = 0\<rparr>"

lemma enqueue_affinity:
  "PerCpuRunQueue_enqueue now s c t = Some (r, s') \<Longrightarrow> tcb_cpu_affinity (sc_heap s' u) = tcb_cpu_affinity (sc_heap s u)"
  by (auto simp: PerCpuRunQueue_enqueue_def enqueue_by_policy_def dl_enqueue_def refresh_deadline_def try_mark_queued_def
      clear_queued_def Let_def split: if_splits prod.splits SchedPolicy.splits bind_splits bool.splits)

lemma sample_smp_ready:
  shows "sched_rep (smp_sched sample_smp) 2 ((\<lambda>c. no_view)(0 := ((\<lambda>p. []), [], [3])))"
    "run_queue (smp_sched sample_smp) 0 = Some 0" "run_queue (smp_sched sample_smp) 1 = Some 1"
    "allowed_on (sc_heap (smp_sched sample_smp) 3) 1"
proof -
  have ni: "3 \<notin> set (service_order no_view)" by (simp add: no_view_def set_service_order)
  have e: "PerCpuRunQueue_enqueue 5 sample_sched 0 3 = Some (True, arrive sample_sched 3)"
    by (rule queues_at_arrive(1) [OF queues_at_sample ni sample_room])
  have q: "queues_at (arrive sample_sched 3) (view_insert (sc_heap (arrive sample_sched 3)) 3 no_view)"
    by (rule queues_at_arrive(2) [OF queues_at_sample ni sample_room])
  then have "tcb_policy (sc_heap (arrive sample_sched 3) 3) = NormalPolicy" by (simp add: queues_at_def sample_heap_def)
  then show "sched_rep (smp_sched sample_smp) 2 ((\<lambda>c. no_view)(0 := ((\<lambda>p. []), [], [3])))"
    using q by (simp add: queues_at_def sample_smp_def view_insert_def no_view_def bisect_insert_def del: fun_upd_apply)
  have "rq_frame sample_sched (arrive sample_sched 3) 0 3"
    using enqueue_ok [OF sample_rep, of 0 3 5] e sample_ready(3) by (auto simp: sample_heap_of)
  then show "run_queue (smp_sched sample_smp) 0 = Some 0" "run_queue (smp_sched sample_smp) 1 = Some 1"
    by (simp_all add: rq_frame_def sample_smp_def run_queue_def sample_sched_def deadline_timer_init_def init_percpu_def)
  show "allowed_on (sc_heap (smp_sched sample_smp) 3) 1"
    using enqueue_affinity [OF e, of 3]
    by (simp add: sample_smp_def allowed_on_def CpuSet_contains_def sample_heap_of sample_heap_def TCB_new_def)
qed

text \<open>
  C23: Pull balancing moves fair threads from the run queue of the loaded CPU into the migration ring of
  the local one.  With room in the ring, \<open>do_pull\<close> returns; the threads it took are exactly those
  missing from the fair class of the source, as many as asked for unless none of those left there may
  run on the destination.  All may run on the destination, and they stand at the end of the ring in the
  order they were taken; the real-time and deadline classes of the source and the other CPUs keep their
  threads.  The moved threads are in no run queue: until the ring is drained no CPU schedules them.
\<close>

theorem pull_moves_threads_to_ring:
  assumes r: "sched_rep (smp_sched m) n V" "src < n" "V src = (L, D, C)"
    and rq: "run_queue (smp_sched m) src_cpu = Some src" "run_queue (smp_sched m) dst_cpu = Some dst"
    and t: "dst < nr_cpus (smp_topo m)" and q: "mq_stores (MIGRATION_QUEUES m dst) xs" "length xs + k \<le> 15"
  shows "\<exists>m' C' ys. do_pull now m dst_cpu src_cpu k = Some m' \<and> sched_rep (smp_sched m') n (V(src := (L, D, C')))
    \<and> mset C = mset C' + mset ys \<and> length ys \<le> k \<and> mq_stores (MIGRATION_QUEUES m' dst) (xs @ ys)
    \<and> (length ys < k \<longrightarrow> (\<forall>t \<in> set C'. \<not> allowed_on (sc_heap (smp_sched m) t) dst_cpu))
    \<and> (\<forall>t \<in> set ys. allowed_on (sc_heap (smp_sched m) t) dst_cpu \<and> \<not> is_queued (sc_heap (smp_sched m') t))"
proof (cases "k = 0")
  case True
  have "V(src := (L, D, C)) = V" using r(3) by (simp add: fun_upd_idem)
  then show ?thesis using r q True
    by (intro exI [of _ m] exI [of _ C] exI [of _ "[]"]) (simp add: do_pull_def del: fun_upd_apply)
next
  case False
  have d: "unat dst_cpu = dst" "dst < MAX_CPUS" using rq(2) by (auto simp: run_queue_def split: if_splits)
  obtain m1 C' ys where m1: "pull_loop now dst_cpu src k m 0 = Some (0 + length ys, m1)" "sched_rep (smp_sched m1) n (V(src := (L, D, C')))"
      "mq_stores (MIGRATION_QUEUES m1 dst) (xs @ ys)" "pulled (sc_heap (smp_sched m)) (sc_heap (smp_sched m1)) C C' dst_cpu k ys"
    using pull_loop_ok [of m n V src L D C dst_cpu xs k now 0] r t q unfolding d(1) using d(2) by blast
  have ms: "mset C = mset C' + mset ys" using m1(4) by (simp add: pulled_def)
  have nq: "\<not> is_queued (sc_heap (smp_sched m1) t)" if "t \<in> set ys" for t by (rule pulled_not_queued [OF r m1(2) ms that])
  show ?thesis
    by (intro exI [of _ "m1\<lparr>BALANCE_MIGRATIONS := BALANCE_MIGRATIONS m1 + of_nat (length ys)\<rparr>"] exI [of _ C'] exI [of _ ys])
      (use m1 ms nq rq False in \<open>simp add: do_pull_def pulled_def del: fun_upd_apply\<close>)
qed

theorem pull_moves_threads_to_ring_witness:
  "\<exists>m'. do_pull 5 sample_smp 1 0 2 = Some m' \<and> mq_stores (MIGRATION_QUEUES m' 1) [3] \<and> \<not> is_queued (sc_heap (smp_sched m') 3)"
proof -
  define V where "V = (\<lambda>c :: nat. no_view)(0 := ((\<lambda>p. []), [], [3]))"
  have t: "1 < nr_cpus (smp_topo sample_smp)" "mq_stores (MIGRATION_QUEUES sample_smp 1) []" "V 0 = ((\<lambda>p. []), [], [3])"
    by (simp_all add: sample_smp_def topology_init_def nr_cpus_def mq_new_stores V_def)
  obtain m' C' ys where m': "do_pull 5 sample_smp 1 0 2 = Some m'" "{#3#} = mset C' + mset ys"
      "length ys < 2 \<longrightarrow> (\<forall>t \<in> set C'. \<not> allowed_on (sc_heap (smp_sched sample_smp) t) 1)" "mq_stores (MIGRATION_QUEUES m' 1) ys"
      "\<forall>t \<in> set ys. \<not> is_queued (sc_heap (smp_sched m') t)"
    using pull_moves_threads_to_ring [of sample_smp 2 V 0 "\<lambda>p. []" "[]" "[3]" 0 1 1 "[]" 2 5]
      sample_smp_ready(1) [folded V_def] sample_smp_ready(2,3) t by auto
  have "ys = [3]"
  proof (cases ys)
    case Nil
    then have "C' = [3]" using m'(2) by simp
    then show ?thesis using m'(3) sample_smp_ready(4) Nil by simp
  next
    case (Cons y zs)
    then show ?thesis using m'(2) by (simp add: single_is_union)
  qed
  then show ?thesis using m' by auto
qed

end
