(* ===== verification/Ipc_Core.thy ===== *)
theory Ipc_Core
  imports Exo_Prelude
begin

text \<open>
  The vocabulary of the IPC layer: identifiers, flags, error codes and the index mask of
  \<open>kernel/src/ipc/core/types.rs\<close>, the constants of \<open>constants.rs\<close> and the message slots of
  \<open>transfer.rs\<close>.  A payload is the list of its bytes; message identifiers are the words the counter
  produces, so the non-zero guarantee of the source is that the counter has not wrapped.
\<close>

section \<open>Definitions\<close>

subsection \<open>Constants\<close>

definition MAX_MSG_SIZE :: nat where [simp]: "MAX_MSG_SIZE = 240"
definition MSG_HEADER_SIZE :: nat where "MSG_HEADER_SIZE = 16"
definition RING_SLOT_SIZE :: nat where "RING_SLOT_SIZE = MSG_HEADER_SIZE + MAX_MSG_SIZE"
definition RING_SIZE :: nat where [simp]: "RING_SIZE = 16"
definition RING_MASK :: nat where [simp]: "RING_MASK = RING_SIZE - 1"
definition FUSION_BATCH_THRESHOLD :: nat where [simp]: "FUSION_BATCH_THRESHOLD = 16"
definition FUSION_MAX_DELAY_TICKS :: u64 where [simp]: "FUSION_MAX_DELAY_TICKS = 2"
definition SEQ_WINDOW_BITS :: nat where [simp]: "SEQ_WINDOW_BITS = 7"
definition SEQ_WINDOW_SIZE :: u64 where [simp]: "SEQ_WINDOW_SIZE = push_bit SEQ_WINDOW_BITS 1"

subsection \<open>Identifiers\<close>

type_synonym MessageId = u64
type_synonym EndpointId = u64

definition EndpointId_INVALID :: EndpointId where "EndpointId_INVALID = u64_MAX"

definition EndpointId_to_object_id :: "EndpointId \<Rightarrow> u64" where
  "EndpointId_to_object_id e = push_bit 32 0x01 OR (e AND 0xFFFFFFFF)"

text \<open>The allocation of an identifier from a counter: the identifier and the new counter.\<close>

definition alloc_message_id :: "u64 \<Rightarrow> MessageId \<times> u64" where
  "alloc_message_id MSG_ID_COUNTER = (MSG_ID_COUNTER, MSG_ID_COUNTER + 1)"

subsection \<open>Flags\<close>

type_synonym MsgFlags = u32

definition MsgFlags_EMPTY :: MsgFlags where "MsgFlags_EMPTY = 0"
definition MsgFlags_RT :: MsgFlags where "MsgFlags_RT = push_bit 0 1"
definition MsgFlags_REPLY :: MsgFlags where "MsgFlags_REPLY = push_bit 1 1"
definition MsgFlags_ZEROCOPY :: MsgFlags where "MsgFlags_ZEROCOPY = push_bit 2 1"
definition MsgFlags_BROADCAST :: MsgFlags where "MsgFlags_BROADCAST = push_bit 3 1"
definition MsgFlags_ERROR :: MsgFlags where "MsgFlags_ERROR = push_bit 4 1"
definition MsgFlags_SYNC :: MsgFlags where "MsgFlags_SYNC = push_bit 5 1"
definition MsgFlags_NOWAIT :: MsgFlags where "MsgFlags_NOWAIT = push_bit 6 1"

definition MsgFlags_contains :: "MsgFlags \<Rightarrow> MsgFlags \<Rightarrow> bool" where
  "MsgFlags_contains f flag = (f AND flag \<noteq> 0)"

definition MsgFlags_set :: "MsgFlags \<Rightarrow> MsgFlags \<Rightarrow> MsgFlags" where
  "MsgFlags_set f flag = f OR flag"

definition MsgFlags_clear :: "MsgFlags \<Rightarrow> MsgFlags \<Rightarrow> MsgFlags" where
  "MsgFlags_clear f flag = f AND NOT flag"

definition MsgFlags_from_bits_truncate :: "u32 \<Rightarrow> MsgFlags" where
  "MsgFlags_from_bits_truncate v = v AND 0x7F"

type_synonym MessageFlags = u16

definition MessageFlags_from_bits_truncate :: "u16 \<Rightarrow> MessageFlags" where
  "MessageFlags_from_bits_truncate v = v AND 0x7F"

definition MessageFlags_contains :: "MessageFlags \<Rightarrow> MessageFlags \<Rightarrow> bool" where
  "MessageFlags_contains f flag = (f AND flag = flag)"

definition MsgFlags_from :: "MessageFlags \<Rightarrow> MsgFlags" where
  "MsgFlags_from flags = MsgFlags_from_bits_truncate (ucast flags)"

definition MessageFlags_from :: "MsgFlags \<Rightarrow> MessageFlags" where
  "MessageFlags_from flags = MessageFlags_from_bits_truncate (ucast flags)"

subsection \<open>Message types\<close>

datatype MessageType = Data | Control | Signal | RpcReply

definition MessageType_from_u8 :: "u8 \<Rightarrow> MessageType" where
  "MessageType_from_u8 v =
    (if v = 0 then Data else if v = 1 then Control else if v = 2 then Signal else if v = 3 then RpcReply else Data)"

primrec MessageType_as_u8 :: "MessageType \<Rightarrow> u8" where
  "MessageType_as_u8 Data = 0"
| "MessageType_as_u8 Control = 1"
| "MessageType_as_u8 Signal = 2"
| "MessageType_as_u8 RpcReply = 3"

subsection \<open>Errors\<close>

datatype IpcError = WouldBlock | EndpointNotFound | ChannelClosed | PermissionDenied | MessageTooLarge | Timeout
  | ResourceExhausted | ConnRefused | AlreadyConnected | InvalidParam | HandshakeFailed | Interrupted
  | InternalError | ShmPoolFull | OutOfOrder | InvalidHandle | Closed | Internal | Invalid | Full | Loop
  | NotFound | NullEndpoint | InvalidEndpoint | Retry | InvalidArgument | OutOfResources | QueueFull
  | QueueEmpty | ProtocolError | MappingFailed

primrec IpcError_code :: "IpcError \<Rightarrow> u64" where
  "IpcError_code WouldBlock = 1"
| "IpcError_code EndpointNotFound = 2"
| "IpcError_code ChannelClosed = 3"
| "IpcError_code PermissionDenied = 4"
| "IpcError_code MessageTooLarge = 5"
| "IpcError_code Timeout = 6"
| "IpcError_code ResourceExhausted = 7"
| "IpcError_code ConnRefused = 8"
| "IpcError_code AlreadyConnected = 9"
| "IpcError_code InvalidParam = 10"
| "IpcError_code HandshakeFailed = 11"
| "IpcError_code Interrupted = 12"
| "IpcError_code InternalError = 13"
| "IpcError_code ShmPoolFull = 14"
| "IpcError_code OutOfOrder = 15"
| "IpcError_code InvalidHandle = 16"
| "IpcError_code Closed = 17"
| "IpcError_code Internal = 18"
| "IpcError_code Invalid = 19"
| "IpcError_code Full = 20"
| "IpcError_code Loop = 21"
| "IpcError_code NotFound = 22"
| "IpcError_code NullEndpoint = 23"
| "IpcError_code InvalidEndpoint = 24"
| "IpcError_code Retry = 25"
| "IpcError_code InvalidArgument = 26"
| "IpcError_code OutOfResources = 27"
| "IpcError_code QueueFull = 28"
| "IpcError_code QueueEmpty = 29"
| "IpcError_code ProtocolError = 30"
| "IpcError_code MappingFailed = 31"

definition IpcError_normalize :: "IpcError \<Rightarrow> IpcError" where
  "IpcError_normalize e =
    (case e of Closed \<Rightarrow> ChannelClosed | Internal \<Rightarrow> InternalError | Invalid \<Rightarrow> InvalidParam
     | InvalidArgument \<Rightarrow> InvalidParam | Full \<Rightarrow> WouldBlock | QueueFull \<Rightarrow> WouldBlock
     | NotFound \<Rightarrow> EndpointNotFound | OutOfResources \<Rightarrow> ResourceExhausted | other \<Rightarrow> other)"

definition IpcError_is_closed :: "IpcError \<Rightarrow> bool" where
  "IpcError_is_closed e = (IpcError_normalize e = ChannelClosed)"

definition IpcError_is_queue_full :: "IpcError \<Rightarrow> bool" where
  "IpcError_is_queue_full e = (IpcError_normalize e = WouldBlock)"

subsection \<open>Index masking\<close>

definition array_index_nospec :: "u64 \<Rightarrow> u64 \<Rightarrow> u64" where
  "array_index_nospec index bound =
    (let mask = signed_drop_bit 63 (index - bound) in index AND mask)"

subsection \<open>Message slots\<close>

record MessageHeader =
  hdr_msg_id :: u64
  hdr_flags :: u32
  hdr_len :: u16
  hdr_pad :: u16

definition MessageHeader_new_inline :: "MessageId \<Rightarrow> MsgFlags \<Rightarrow> nat \<Rightarrow> MessageHeader" where
  "MessageHeader_new_inline mid flags len = \<lparr>hdr_msg_id = mid, hdr_flags = flags, hdr_len = of_nat len, hdr_pad = 0\<rparr>"

definition MessageHeader_new_zerocopy :: "MessageId \<Rightarrow> MsgFlags \<Rightarrow> MessageHeader" where
  "MessageHeader_new_zerocopy mid flags =
    (let f = flags OR MsgFlags_ZEROCOPY in \<lparr>hdr_msg_id = mid, hdr_flags = f, hdr_len = 0, hdr_pad = 0\<rparr>)"

definition MessageHeader_is_zerocopy :: "MessageHeader \<Rightarrow> bool" where
  "MessageHeader_is_zerocopy h = (hdr_flags h AND MsgFlags_ZEROCOPY \<noteq> 0)"

definition MessageHeader_is_rt :: "MessageHeader \<Rightarrow> bool" where
  "MessageHeader_is_rt h = (hdr_flags h AND MsgFlags_RT \<noteq> 0)"

record RingSlot =
  slot_header :: MessageHeader
  slot_payload :: "u8 list"

definition RingSlot_zeroed :: RingSlot where
  "RingSlot_zeroed = \<lparr>slot_header = \<lparr>hdr_msg_id = 0, hdr_flags = 0, hdr_len = 0, hdr_pad = 0\<rparr>,
     slot_payload = replicate MAX_MSG_SIZE 0\<rparr>"

text \<open>\<open>ptr::copy_nonoverlapping\<close> of all of \<open>src\<close> to the beginning of \<open>dst\<close>.\<close>

definition copy_to :: "'a list \<Rightarrow> 'a list \<Rightarrow> 'a list" where
  "copy_to src dst = src @ drop (length src) dst"

definition RingSlot_write_inline :: "RingSlot \<Rightarrow> MessageId \<Rightarrow> MsgFlags \<Rightarrow> u8 list \<Rightarrow> (IpcError, unit) result \<times> RingSlot" where
  "RingSlot_write_inline slot mid flags src =
    (if length src > MAX_MSG_SIZE then (Err MessageTooLarge, slot)
     else (Ok (), slot\<lparr>slot_header := MessageHeader_new_inline mid flags (length src),
                       slot_payload := copy_to src (slot_payload slot)\<rparr>))"

definition RingSlot_read_inline :: "RingSlot \<Rightarrow> u8 list \<Rightarrow> (IpcError, nat) result \<times> u8 list" where
  "RingSlot_read_inline slot dst =
    (let len = unat (hdr_len (slot_header slot)) in
     if len > length dst then (Err MessageTooLarge, dst)
     else if len > MAX_MSG_SIZE then (Err InternalError, dst)
     else (Ok len, copy_to (take len (slot_payload slot)) dst))"

record ZeroCopyRef =
  zc_phys_addr :: u64
  zc_length :: u32
  zc_pool_idx :: u32

definition ZeroCopyRef_is_valid :: "ZeroCopyRef \<Rightarrow> bool" where
  "ZeroCopyRef_is_valid r = (zc_phys_addr r \<noteq> 0 \<and> zc_length r > 0)"

definition ZeroCopyRef_null :: ZeroCopyRef where
  "ZeroCopyRef_null = \<lparr>zc_phys_addr = 0, zc_length = 0, zc_pool_idx = 0\<rparr>"

text \<open>The sixteen bytes of a reference in memory, on a little-endian processor.\<close>

definition ZeroCopyRef_bytes :: "ZeroCopyRef \<Rightarrow> u8 list" where
  "ZeroCopyRef_bytes r = to_le_bytes 8 (zc_phys_addr r) @ to_le_bytes 4 (zc_length r) @ to_le_bytes 4 (zc_pool_idx r)"

definition TransferEngine_copy_to_slot :: "RingSlot \<Rightarrow> u64 \<Rightarrow> u8 list \<Rightarrow> MsgFlags \<Rightarrow> (IpcError, MessageId) result \<times> RingSlot \<times> u64" where
  "TransferEngine_copy_to_slot slot MSG_ID_COUNTER src flags =
    (if length src > MAX_MSG_SIZE then (Err MessageTooLarge, slot, MSG_ID_COUNTER)
     else case alloc_message_id MSG_ID_COUNTER of (mid, MSG_ID_COUNTER) \<Rightarrow>
       (case RingSlot_write_inline slot mid flags src of
          (Err e, slot) \<Rightarrow> (Err e, slot, MSG_ID_COUNTER)
        | (Ok _, slot) \<Rightarrow> (Ok mid, slot, MSG_ID_COUNTER)))"

definition TransferEngine_copy_from_slot :: "RingSlot \<Rightarrow> u8 list \<Rightarrow> (IpcError, nat) result \<times> u8 list" where
  "TransferEngine_copy_from_slot slot dst = RingSlot_read_inline slot dst"

section \<open>Lemmas\<close>

lemma MessageType_round_trip [simp]: "MessageType_from_u8 (MessageType_as_u8 t) = t"
  by (cases t) (simp_all add: MessageType_from_u8_def)

lemma IpcError_normalize_idem [simp]: "IpcError_normalize (IpcError_normalize e) = IpcError_normalize e"
  by (cases e) (simp_all add: IpcError_normalize_def)

lemma length_copy_to [simp]: "length src \<le> length dst \<Longrightarrow> length (copy_to src dst) = length dst"
  by (simp add: copy_to_def)

lemma take_copy_to [simp]: "take (length src) (copy_to src dst) = src"
  by (simp add: copy_to_def)

lemma length_ZeroCopyRef_bytes [simp]: "length (ZeroCopyRef_bytes r) = 16"
  by (simp add: ZeroCopyRef_bytes_def)

text \<open>The index mask is the identity below the bound, and zero from the bound up to \<open>2 ^ 63\<close>.\<close>

lemma signed_drop_bit_63: "signed_drop_bit 63 (w :: u64) = (if bit w 63 then -1 else 0)"
  by (rule bit_word_eqI) (auto simp: bit_signed_drop_bit_iff not_le less_Suc_eq_le)

lemma array_index_nospec_eq: "array_index_nospec i b = (if bit (i - b) 63 then i else 0)"
  by (simp add: array_index_nospec_def signed_drop_bit_63)

lemma bit_63_iff: "bit (w :: u64) 63 \<longleftrightarrow> 2 ^ 63 \<le> unat w"
proof -
  have "unat w < 2 ^ 64" using unat_less_2p [of w] by simp
  then have "unat w div 2 ^ 63 < 2" by (simp add: div_less_iff_less_mult)
  then have "odd (unat w div 2 ^ 63) \<longleftrightarrow> 2 ^ 63 \<le> unat w"
    by (metis One_nat_def div_greater_zero_iff less_2_cases_iff odd_one even_zero zero_less_numeral zero_less_power zero_neq_one neq0_conv)
  moreover have "bit w 63 \<longleftrightarrow> bit (unat w) 63" by (simp add: bit_unsigned_iff)
  ultimately show ?thesis by (simp only: bit_iff_odd)
qed

lemma array_index_nospec_ok:
  assumes "i < b" "b \<le> 2 ^ 63"
  shows "array_index_nospec i b = i"
proof -
  have u: "unat i < unat b" "unat b \<le> 2 ^ 63" using assms by (simp_all add: word_less_nat_alt word_le_nat_alt)
  have "unat (i - b) = 2 ^ 64 - (unat b - unat i)" using u(1) by (simp add: unat_sub_if')
  then have "2 ^ 63 \<le> unat (i - b)" using u by simp
  then show ?thesis by (simp add: array_index_nospec_eq bit_63_iff)
qed

lemma array_index_nospec_zero:
  assumes "b \<le> i" "i < 2 ^ 63"
  shows "array_index_nospec i b = 0"
proof -
  have "unat (i - b) = unat i - unat b" using assms(1) by (simp add: unat_sub)
  moreover have "unat i < 2 ^ 63" using assms(2) by (simp add: word_less_nat_alt)
  ultimately have "\<not> 2 ^ 63 \<le> unat (i - b)" by simp
  then show ?thesis by (simp add: array_index_nospec_eq bit_63_iff)
qed

text \<open>Above that the mask lets an index out of bounds through.\<close>

lemma array_index_nospec_leaks: "array_index_nospec (2 ^ 63 + 16) 16 = 2 ^ 63 + 16"
  by (simp add: array_index_nospec_eq bit_63_iff)

end
