(* ===== verification/Ipc_Ring.thy ===== *)
theory Ipc_Ring
  imports Ipc_Core Fifo_Spec
begin

text \<open>
  The message rings with one producer and one consumer: \<open>kernel/src/ipc/ring/slot.rs\<close>, the copying
  ring of \<open>spsc.rs\<close> with its fast path, and the ring of shared-buffer references of \<open>zerocopy.rs\<close>.
  Both rings order their accesses by a sequence number per cell; the lemmas about that protocol are
  proved once, for any ring whose size is a power of two, with positions that wrap at \<open>2 ^ 64\<close>.
\<close>

section \<open>Definitions\<close>

subsection \<open>Cells\<close>

text \<open>\<open>uninit\<close> is what the memory of an uninitialised slot holds.\<close>

record SlotCell =
  cell_sequence :: u64
  cell_slot :: RingSlot

definition SlotCell_new_at :: "RingSlot \<Rightarrow> u64 \<Rightarrow> SlotCell" where
  "SlotCell_new_at uninit index = \<lparr>cell_sequence = index, cell_slot = uninit\<rparr>"

subsection \<open>The copying ring\<close>

record SpscRing =
  spsc_head :: u64
  spsc_tail :: u64
  spsc_cells :: "nat \<Rightarrow> SlotCell"

definition SpscRing_new :: "RingSlot \<Rightarrow> SpscRing" where
  "SpscRing_new uninit = \<lparr>spsc_head = 0, spsc_tail = 0, spsc_cells = (\<lambda>i. SlotCell_new_at uninit 0)\<rparr>"

definition SpscRing_init :: "SpscRing \<Rightarrow> SpscRing" where
  "SpscRing_init r =
    r\<lparr>spsc_cells := (\<lambda>i. if i < RING_SIZE then (spsc_cells r i)\<lparr>cell_sequence := of_nat i\<rparr> else spsc_cells r i)\<rparr>"

definition cell_at :: "u64 \<Rightarrow> nat" where
  "cell_at pos = unat (array_index_nospec (pos AND of_nat RING_MASK) (of_nat RING_SIZE))"

abbreviation cell_put :: "SpscRing \<Rightarrow> u64 \<Rightarrow> SlotCell \<Rightarrow> SpscRing" where
  "cell_put r pos c \<equiv> r\<lparr>spsc_cells := (spsc_cells r)(cell_at pos := c)\<rparr>"

definition SpscRing_push_copy :: "SpscRing \<Rightarrow> u64 \<Rightarrow> u8 list \<Rightarrow> MsgFlags \<Rightarrow> (IpcError, MessageId) result \<times> SpscRing \<times> u64" where
  "SpscRing_push_copy r MSG_ID_COUNTER src flags =
    (if length src > MAX_MSG_SIZE then (Err MessageTooLarge, r, MSG_ID_COUNTER)
     else
       let pos = spsc_head r; cell = spsc_cells r (cell_at pos) in
       if cell_sequence cell \<noteq> pos then (Err QueueFull, r, MSG_ID_COUNTER)
       else case alloc_message_id MSG_ID_COUNTER of (mid, MSG_ID_COUNTER) \<Rightarrow>
         let slot = (cell_slot cell)\<lparr>slot_header := MessageHeader_new_inline mid flags (length src),
                      slot_payload := copy_to src (slot_payload (cell_slot cell))\<rparr>;
             r = cell_put r pos \<lparr>cell_sequence = pos + 1, cell_slot = slot\<rparr>
         in (Ok mid, r\<lparr>spsc_head := pos + 1\<rparr>, MSG_ID_COUNTER))"

definition SpscRing_push_zerocopy :: "SpscRing \<Rightarrow> u64 \<Rightarrow> ZeroCopyRef \<Rightarrow> MsgFlags \<Rightarrow> (IpcError, MessageId) result \<times> SpscRing \<times> u64" where
  "SpscRing_push_zerocopy r MSG_ID_COUNTER zc_ref flags =
    (let pos = spsc_head r; cell = spsc_cells r (cell_at pos) in
     if cell_sequence cell \<noteq> pos then (Err QueueFull, r, MSG_ID_COUNTER)
     else case alloc_message_id MSG_ID_COUNTER of (mid, MSG_ID_COUNTER) \<Rightarrow>
       let f = flags OR MsgFlags_ZEROCOPY;
           slot = (cell_slot cell)\<lparr>slot_header := MessageHeader_new_zerocopy mid f,
                    slot_payload := copy_to (ZeroCopyRef_bytes zc_ref) (slot_payload (cell_slot cell))\<rparr>;
           r = cell_put r pos \<lparr>cell_sequence = pos + 1, cell_slot = slot\<rparr>
       in (Ok mid, r\<lparr>spsc_head := pos + 1\<rparr>, MSG_ID_COUNTER))"

text \<open>\<open>pop_into\<close> returns its result, the buffer it was given and the ring.\<close>

definition SpscRing_pop_into :: "SpscRing \<Rightarrow> u8 list \<Rightarrow> (IpcError, nat \<times> MsgFlags) result \<times> u8 list \<times> SpscRing" where
  "SpscRing_pop_into r dst =
    (let pos = spsc_tail r; cell = spsc_cells r (cell_at pos) in
     if cell_sequence cell \<noteq> pos + 1 then (Err QueueEmpty, dst, r)
     else
       let header = slot_header (cell_slot cell); ln = unat (hdr_len header);
           r' = (cell_put r pos (cell\<lparr>cell_sequence := pos + of_nat RING_SIZE\<rparr>))\<lparr>spsc_tail := pos + 1\<rparr>
       in if ln > length dst then (Err MessageTooLarge, dst, r')
          else (Ok (ln, hdr_flags header), copy_to (take ln (slot_payload (cell_slot cell))) dst, r'))"

definition SpscRing_peek_header :: "SpscRing \<Rightarrow> MessageHeader option" where
  "SpscRing_peek_header r =
    (let pos = spsc_tail r; cell = spsc_cells r (cell_at pos) in
     if cell_sequence cell \<noteq> pos + 1 then None else Some (slot_header (cell_slot cell)))"

definition SpscRing_is_empty :: "SpscRing \<Rightarrow> bool" where
  "SpscRing_is_empty r = (let pos = spsc_tail r in cell_sequence (spsc_cells r (cell_at pos)) \<noteq> pos + 1)"

definition SpscRing_is_full :: "SpscRing \<Rightarrow> bool" where
  "SpscRing_is_full r = (let pos = spsc_head r in cell_sequence (spsc_cells r (cell_at pos)) \<noteq> pos)"

definition SpscRing_len_approx :: "SpscRing \<Rightarrow> nat" where
  "SpscRing_len_approx r = unat (spsc_head r - spsc_tail r)"

subsection \<open>The fast path\<close>

definition MAX_SPSC_RINGS :: nat where [simp]: "MAX_SPSC_RINGS = 4096"

record IpcFastMsg =
  fm_msg_id :: u64
  fm_flags :: u32
  fm_len :: u16
  fm_pad :: u16
  fm_data :: "u8 list"

definition IpcFastMsg_zeroed :: IpcFastMsg where
  "IpcFastMsg_zeroed = \<lparr>fm_msg_id = 0, fm_flags = 0, fm_len = 0, fm_pad = 0, fm_data = replicate 64 0\<rparr>"

record SpscTable =
  SPSC_RINGS :: "nat \<Rightarrow> SpscRing"
  SPSC_INIT :: u64
  MSG_IDS :: u64

definition init_spsc_rings :: "SpscTable \<Rightarrow> SpscTable" where
  "init_spsc_rings t =
    (if SPSC_INIT t = 0
     then t\<lparr>SPSC_INIT := 1, SPSC_RINGS := (\<lambda>i. if i < MAX_SPSC_RINGS then SpscRing_init (SPSC_RINGS t i) else SPSC_RINGS t i)\<rparr>
     else t)"

definition ring_for :: "u64 \<Rightarrow> (IpcError, nat) result" where
  "ring_for channel_id =
    (let raw_idx = channel_id in
     if unat raw_idx \<ge> MAX_SPSC_RINGS then Err InvalidParam
     else Ok (unat (array_index_nospec raw_idx (of_nat MAX_SPSC_RINGS))))"

definition spsc_fast_write :: "SpscTable \<Rightarrow> IpcFastMsg \<Rightarrow> u64 \<Rightarrow> u64 \<times> SpscTable" where
  "spsc_fast_write t m channel_id =
    (let len = unat (fm_len m); flags = fm_flags m in
     case ring_for channel_id of
       Err err \<Rightarrow> (IpcError_code err, t)
     | Ok i \<Rightarrow>
         (case SpscRing_push_copy (SPSC_RINGS t i) (MSG_IDS t) (take (min len 64) (fm_data m)) flags of
            (res, r, c) \<Rightarrow>
              (case res of Ok _ \<Rightarrow> 0 | Err e \<Rightarrow> IpcError_code e, t\<lparr>SPSC_RINGS := (SPSC_RINGS t)(i := r), MSG_IDS := c\<rparr>)))"

definition spsc_fast_read :: "SpscTable \<Rightarrow> IpcFastMsg \<Rightarrow> u64 \<Rightarrow> u64 \<times> IpcFastMsg \<times> SpscTable" where
  "spsc_fast_read t m channel_id =
    (case ring_for channel_id of
       Err err \<Rightarrow> (IpcError_code err, m, t)
     | Ok i \<Rightarrow>
         (case SpscRing_pop_into (SPSC_RINGS t i) (fm_data m) of
            (res, buf, r) \<Rightarrow>
              let m = m\<lparr>fm_data := buf\<rparr>; t = t\<lparr>SPSC_RINGS := (SPSC_RINGS t)(i := r)\<rparr> in
              (case res of Ok (n, _) \<Rightarrow> (0, m\<lparr>fm_len := of_nat n\<rparr>, t) | Err e \<Rightarrow> (IpcError_code e, m, t))))"

text \<open>
  The polling loop of \<open>spsc_wait_reply\<close>.  \<open>produce\<close> is what the other side does to the rings between
  two polls; with a timeout of zero the loop runs until a message arrives.
\<close>

partial_function (option) wait_loop ::
  "(nat \<Rightarrow> SpscTable \<Rightarrow> SpscTable) \<Rightarrow> nat \<Rightarrow> u64 \<Rightarrow> nat \<Rightarrow> IpcFastMsg \<Rightarrow> SpscTable \<Rightarrow> (u64 \<times> IpcFastMsg \<times> SpscTable) option" where
  "wait_loop produce i timeout_ns spins m t =
    (case SpscRing_pop_into (SPSC_RINGS t i) (fm_data m) of
       (res, buf, r) \<Rightarrow>
         let m = m\<lparr>fm_data := buf\<rparr>; t = t\<lparr>SPSC_RINGS := (SPSC_RINGS t)(i := r)\<rparr> in
         (case res of
            Ok (n, _) \<Rightarrow> Some (0, m\<lparr>fm_len := of_nat n\<rparr>, t)
          | Err e \<Rightarrow>
              if e \<noteq> QueueEmpty then Some (IpcError_code e, m, t)
              else if timeout_ns > 0 \<and> spins + 1 > unat (timeout_ns div 100) then Some (IpcError_code Timeout, m, t)
              else wait_loop produce i timeout_ns (spins + 1) m (produce spins t)))"

definition spsc_wait_reply ::
  "(nat \<Rightarrow> SpscTable \<Rightarrow> SpscTable) \<Rightarrow> SpscTable \<Rightarrow> IpcFastMsg \<Rightarrow> u64 \<Rightarrow> u64 \<Rightarrow> (u64 \<times> IpcFastMsg \<times> SpscTable) option" where
  "spsc_wait_reply produce t m channel_id timeout_ns =
    (case ring_for channel_id of
       Err err \<Rightarrow> Some (IpcError_code err, m, t)
     | Ok i \<Rightarrow> wait_loop produce i timeout_ns 0 m t)"

subsection \<open>The ring of buffer references\<close>

record ZeroCopyBuffer =
  zb_phys_addr :: u64
  zb_capacity :: u32
  zb_length :: u32
  zb_refcount :: u32
  zb_pool_idx :: u32
  zb_generation :: u64

definition ZeroCopyBuffer_init :: "u64 \<Rightarrow> u32 \<Rightarrow> u32 \<Rightarrow> ZeroCopyBuffer" where
  "ZeroCopyBuffer_init phys_addr capacity pool_idx =
    \<lparr>zb_phys_addr = phys_addr, zb_capacity = capacity, zb_length = 0, zb_refcount = 1, zb_pool_idx = pool_idx, zb_generation = 1\<rparr>"

definition ZeroCopyBuffer_acquire :: "ZeroCopyBuffer \<Rightarrow> ZeroCopyBuffer" where
  "ZeroCopyBuffer_acquire b = b\<lparr>zb_refcount := zb_refcount b + 1\<rparr>"

definition ZeroCopyBuffer_release :: "ZeroCopyBuffer \<Rightarrow> bool \<times> ZeroCopyBuffer" where
  "ZeroCopyBuffer_release b =
    (let prev = zb_refcount b; b = b\<lparr>zb_refcount := prev - 1\<rparr> in
     if prev = 1 then (True, b\<lparr>zb_generation := zb_generation b + 1\<rparr>) else (False, b))"

definition ZeroCopyBuffer_to_ref :: "ZeroCopyBuffer \<Rightarrow> ZeroCopyRef" where
  "ZeroCopyBuffer_to_ref b = \<lparr>zc_phys_addr = zb_phys_addr b, zc_length = zb_length b, zc_pool_idx = zb_pool_idx b\<rparr>"

definition ZC_RING_SIZE :: nat where [simp]: "ZC_RING_SIZE = 512"
definition ZC_RING_MASK :: nat where [simp]: "ZC_RING_MASK = ZC_RING_SIZE - 1"

record ZcSlot =
  zs_seq :: u64
  zs_zc :: ZeroCopyRef

record ZeroCopyRing =
  zr_head :: u64
  zr_tail :: u64
  zr_slots :: "nat \<Rightarrow> ZcSlot"

definition ZeroCopyRing_new :: ZeroCopyRing where
  "ZeroCopyRing_new = \<lparr>zr_head = 0, zr_tail = 0, zr_slots = (\<lambda>i. \<lparr>zs_seq = 0, zs_zc = ZeroCopyRef_null\<rparr>)\<rparr>"

definition ZeroCopyRing_init :: "ZeroCopyRing \<Rightarrow> ZeroCopyRing" where
  "ZeroCopyRing_init r =
    r\<lparr>zr_slots := (\<lambda>i. if i < ZC_RING_SIZE then (zr_slots r i)\<lparr>zs_seq := of_nat i\<rparr> else zr_slots r i)\<rparr>"

definition slot_at :: "u64 \<Rightarrow> nat" where
  "slot_at pos = unat (array_index_nospec (pos AND of_nat ZC_RING_MASK) (of_nat ZC_RING_SIZE))"

definition ZeroCopyRing_push :: "ZeroCopyRing \<Rightarrow> ZeroCopyRef \<Rightarrow> (IpcError, unit) result \<times> ZeroCopyRing" where
  "ZeroCopyRing_push r zc =
    (let pos = zr_head r; slot = zr_slots r (slot_at pos) in
     if zs_seq slot \<noteq> pos then (Err WouldBlock, r)
     else (Ok (), r\<lparr>zr_slots := (zr_slots r)(slot_at pos := \<lparr>zs_seq = pos + 1, zs_zc = zc\<rparr>), zr_head := pos + 1\<rparr>))"

definition ZeroCopyRing_pop :: "ZeroCopyRing \<Rightarrow> (IpcError, ZeroCopyRef) result \<times> ZeroCopyRing" where
  "ZeroCopyRing_pop r =
    (let pos = zr_tail r; slot = zr_slots r (slot_at pos) in
     if zs_seq slot \<noteq> pos + 1 then (Err WouldBlock, r)
     else (Ok (zs_zc slot), r\<lparr>zr_slots := (zr_slots r)(slot_at pos := slot\<lparr>zs_seq := pos + of_nat ZC_RING_SIZE\<rparr>), zr_tail := pos + 1\<rparr>))"

definition ZeroCopyRing_is_empty :: "ZeroCopyRing \<Rightarrow> bool" where
  "ZeroCopyRing_is_empty r = (let pos = zr_tail r in zs_seq (zr_slots r (slot_at pos)) \<noteq> pos + 1)"

section \<open>The sequence protocol\<close>

text \<open>
  A ring of \<open>N\<close> cells with \<open>n\<close> messages from position \<open>T\<close> on.  Positions are counted without bound;
  the program holds them modulo \<open>2 ^ 64\<close>.  The cell of a position carries the position while it is free
  and the position plus one while it holds a message.
\<close>

definition seq_ring :: "nat \<Rightarrow> u64 \<Rightarrow> u64 \<Rightarrow> (nat \<Rightarrow> u64) \<Rightarrow> nat \<Rightarrow> nat \<Rightarrow> bool" where
  "seq_ring N head tail seqs T n =
    (n \<le> N \<and> head = of_nat (T + n) \<and> tail = of_nat T
     \<and> (\<forall>i < N. seqs ((T + i) mod N) = of_nat (T + i + (if i < n then 1 else 0))))"

definition ring_holds :: "nat \<Rightarrow> (nat \<Rightarrow> 'a \<Rightarrow> bool) \<Rightarrow> nat \<Rightarrow> 'a list \<Rightarrow> bool" where
  "ring_holds N held T xs = (\<forall>i < length xs. held ((T + i) mod N) (xs ! i))"

lemma seq_ringI:
  assumes "n \<le> N" "head = of_nat (T + n)" "tail = of_nat T"
    "\<And>i. i < n \<Longrightarrow> i < N \<Longrightarrow> seqs ((T + i) mod N) = of_nat (T + i + 1)" "\<And>i. n \<le> i \<Longrightarrow> i < N \<Longrightarrow> seqs ((T + i) mod N) = of_nat (T + i)"
  shows "seq_ring N head tail seqs T n"
  unfolding seq_ring_def using assms by (metis Nat.add_0_right not_le)

lemma seq_ringD:
  assumes "seq_ring N head tail seqs T n"
  shows "n \<le> N" "head = of_nat (T + n)" "tail = of_nat T"
    "i < n \<Longrightarrow> seqs ((T + i) mod N) = of_nat (T + i + 1)" "n \<le> i \<Longrightarrow> i < N \<Longrightarrow> seqs ((T + i) mod N) = of_nat (T + i)"
  using assms unfolding seq_ring_def by (simp_all del: of_nat_add)

lemma of_nat_u64_eq: "a \<le> b \<Longrightarrow> b < a + 2 ^ 64 \<Longrightarrow> (of_nat a :: u64) = of_nat b \<longleftrightarrow> a = b"
proof
  assume le: "a \<le> b" "b < a + 2 ^ 64" and "(of_nat a :: u64) = of_nat b"
  then have "of_nat (b - a) = (0 :: u64)" by (simp add: of_nat_diff)
  then have "unat (of_nat (b - a) :: u64) = 0" by (simp only: unat_0)
  moreover have "unat (of_nat (b - a) :: u64) = b - a" unfolding unat_of_nat by (rule mod_less) (use le in simp)
  ultimately have "b - a = 0" by (simp only:)
  then show "a = b" using le by simp
qed simp

locale seq_slots =
  fixes k :: nat and N :: nat
  assumes N: "N = 2 ^ k" and k: "0 < k" "k < 63"
begin

lemma N_bounds: "2 \<le> N" "N < 2 ^ 63"
  using k N self_le_power [of 2 k] power_strict_increasing [of k 63 "2 :: nat"] by auto

lemma index_of: "unat (array_index_nospec (of_nat p AND of_nat (N - 1)) (of_nat N)) = p mod N"
proof -
  have "(of_nat p AND of_nat (N - 1) :: u64) = of_nat p AND mask k"
    by (simp add: N of_nat_diff mask_eq_exp_minus_1)
  also have "\<dots> = take_bit k (of_nat p)" by (simp only: take_bit_eq_mask)
  also have "\<dots> = of_nat (take_bit k p)" by (simp only: take_bit_of_nat)
  finally have e: "(of_nat p AND of_nat (N - 1) :: u64) = of_nat (p mod N)" by (simp only: take_bit_eq_mod N)
  have b: "p mod N < N" using N_bounds by simp
  have u: "unat (of_nat (p mod N) :: u64) = p mod N" "unat (of_nat N :: u64) = N"
    using b N_bounds(2) by (simp_all add: unat_of_nat take_bit_nat_eq_self)
  have "array_index_nospec (of_nat (p mod N)) (of_nat N) = of_nat (p mod N)"
    by (rule array_index_nospec_ok) (use u b N_bounds(2) in \<open>simp_all add: word_less_nat_alt word_le_nat_alt\<close>)
  then show ?thesis using e u(1) by simp
qed

lemma producer_test:
  assumes r: "seq_ring N head tail seqs T n"
  shows "seqs ((T + n) mod N) = head \<longleftrightarrow> n < N"
proof (cases "n < N")
  case True
  then show ?thesis using seq_ringD(2) [OF r] seq_ringD(5) [OF r order_refl True] by simp
next
  case False
  then have n: "n = N" "0 < n" using seq_ringD(1) [OF r] N_bounds by simp_all
  have "seqs ((T + n) mod N) = of_nat (T + 1)" using seq_ringD(4) [OF r n(2)] n(1) by simp
  moreover have "(of_nat (T + 1) :: u64) \<noteq> of_nat (T + n)" using of_nat_u64_eq [of "T + 1" "T + n"] n N_bounds by simp
  ultimately show ?thesis using False seq_ringD(2) [OF r] by simp
qed

lemma consumer_test:
  assumes r: "seq_ring N head tail seqs T n"
  shows "seqs (T mod N) = tail + 1 \<longleftrightarrow> 0 < n"
proof (cases "0 < n")
  case True
  then show ?thesis using seq_ringD(3) [OF r] seq_ringD(4) [OF r True] by (simp add: add.commute)
next
  case False
  then have "seqs (T mod N) = of_nat T" using seq_ringD(5) [OF r, of 0] N_bounds by simp
  moreover have "(of_nat T :: u64) \<noteq> of_nat (T + 1)" using of_nat_u64_eq [of T "T + 1"] by simp
  ultimately show ?thesis using False seq_ringD(3) [OF r] by (simp add: add.commute)
qed

lemma pushed:
  assumes r: "seq_ring N head tail seqs T n" and n: "n < N"
  shows "seq_ring N (head + 1) tail (seqs((T + n) mod N := head + 1)) T (Suc n)"
proof (rule seq_ringI)
  fix i assume i: "i < Suc n" "i < N"
  show "(seqs((T + n) mod N := head + 1)) ((T + i) mod N) = of_nat (T + i + 1)"
  proof (cases "i = n")
    case False
    then have "i < n" "(T + i) mod N \<noteq> (T + n) mod N" using mod_add_inj_nat [of i N n T] i n by auto
    then show ?thesis using seq_ringD(4) [OF r, of i] by simp
  qed (use seq_ringD(2) [OF r] in simp)
next
  fix i assume i: "Suc n \<le> i" "i < N"
  then have "(T + i) mod N \<noteq> (T + n) mod N" using mod_add_inj_nat [of i N n T] n by auto
  then show "(seqs((T + n) mod N := head + 1)) ((T + i) mod N) = of_nat (T + i)" using seq_ringD(5) [OF r, of i] i by simp
qed (use seq_ringD(1-3) [OF r] n in simp_all)

lemma popped:
  assumes r: "seq_ring N head tail seqs T (Suc n)"
  shows "seq_ring N head (tail + 1) (seqs(T mod N := tail + of_nat N)) (Suc T) n"
proof (rule seq_ringI)
  fix i assume i: "i < n" "i < N"
  have n: "Suc n \<le> N" by (rule seq_ringD(1) [OF r])
  then have "(T + Suc i) mod N \<noteq> T mod N" using mod_add_inj_nat [of "Suc i" N 0 T] i by auto
  then show "(seqs(T mod N := tail + of_nat N)) ((Suc T + i) mod N) = of_nat (Suc T + i + 1)"
    using seq_ringD(4) [OF r, of "Suc i"] i by simp
next
  fix i assume i: "n \<le> i" "i < N"
  show "(seqs(T mod N := tail + of_nat N)) ((Suc T + i) mod N) = of_nat (Suc T + i)"
  proof (cases "Suc i = N")
    case True
    then have e: "Suc T + i = T + N" by simp
    show ?thesis unfolding e using seq_ringD(3) [OF r] by simp
  next
    case False
    then have "(T + Suc i) mod N \<noteq> T mod N" using mod_add_inj_nat [of "Suc i" N 0 T] i by auto
    then show ?thesis using seq_ringD(5) [OF r, of "Suc i"] i False by simp
  qed
qed (use seq_ringD(1-3) [OF r] in \<open>simp_all add: add.commute\<close>)

lemma started: "(\<And>i. i < N \<Longrightarrow> seqs i = of_nat i) \<Longrightarrow> seq_ring N 0 0 seqs 0 0"
  by (simp add: seq_ring_def)

lemma holds_push:
  assumes "ring_holds N held T xs" "length xs < N" "held' ((T + length xs) mod N) x"
    "\<And>i y. i \<noteq> (T + length xs) mod N \<Longrightarrow> held' i y = held i y"
  shows "ring_holds N held' T (xs @ [x])"
  unfolding ring_holds_def
proof (intro allI impI)
  fix i assume i: "i < length (xs @ [x])"
  show "held' ((T + i) mod N) ((xs @ [x]) ! i)"
  proof (cases "i = length xs")
    case False
    then have "(T + i) mod N \<noteq> (T + length xs) mod N"
      using mod_add_inj_nat [of i N "length xs" T] i assms(2) by auto
    then show ?thesis using assms(1,4) i False by (simp add: ring_holds_def nth_append)
  qed (use assms(3) in simp)
qed

lemma holds_pop:
  assumes "ring_holds N held T (x # xs)" "length xs < N" "\<And>i y. i \<noteq> T mod N \<Longrightarrow> held' i y = held i y"
  shows "ring_holds N held' (Suc T) xs"
  unfolding ring_holds_def
proof (intro allI impI)
  fix i assume i: "i < length xs"
  then have "(T + Suc i) mod N \<noteq> T mod N" using mod_add_inj_nat [of "Suc i" N 0 T] assms(2) N_bounds(1) by auto
  moreover have "held ((T + Suc i) mod N) ((x # xs) ! Suc i)" using assms(1) i unfolding ring_holds_def by (metis Suc_less_eq length_Cons)
  ultimately show "held' ((Suc T + i) mod N) (xs ! i)" using assms(3) by simp
qed

end

interpretation ring16: seq_slots 4 RING_SIZE by unfold_locales simp_all

interpretation ring512: seq_slots 9 ZC_RING_SIZE by unfold_locales simp_all

lemma cell_at_of_nat [simp]: "cell_at (of_nat p) = p mod RING_SIZE"
  unfolding cell_at_def RING_MASK_def by (rule ring16.index_of)

lemma slot_at_of_nat [simp]: "slot_at (of_nat p) = p mod ZC_RING_SIZE"
  unfolding slot_at_def ZC_RING_MASK_def by (rule ring512.index_of)

section \<open>The copying ring is a queue of messages\<close>

text \<open>
  A message is its header and its bytes.  The ring holds a list of messages when some number of
  positions has been consumed and the cells from there on hold the messages in order.
\<close>

type_synonym message = "MessageHeader \<times> u8 list"

definition carries :: "SpscRing \<Rightarrow> nat \<Rightarrow> message \<Rightarrow> bool" where
  "carries r i m =
    (case m of (h, bs) \<Rightarrow> let slot = cell_slot (spsc_cells r i) in
       slot_header slot = h \<and> unat (hdr_len h) = length bs \<and> take (length bs) (slot_payload slot) = bs)"

definition spsc_stores :: "SpscRing \<Rightarrow> message list \<Rightarrow> bool" where
  "spsc_stores r xs =
    ((\<forall>i. length (slot_payload (cell_slot (spsc_cells r i))) = MAX_MSG_SIZE)
     \<and> (\<exists>T. seq_ring RING_SIZE (spsc_head r) (spsc_tail r) (\<lambda>i. cell_sequence (spsc_cells r i)) T (length xs)
            \<and> ring_holds RING_SIZE (carries r) T xs))"

lemma spsc_init_stores:
  "length (slot_payload uninit) = MAX_MSG_SIZE \<Longrightarrow> spsc_stores (SpscRing_init (SpscRing_new uninit)) []"
  unfolding spsc_stores_def
  by (intro conjI exI [of _ 0]) (auto simp: SpscRing_init_def SpscRing_new_def SlotCell_new_at_def ring_holds_def intro!: seq_ringI)

lemma spsc_tests:
  assumes "spsc_stores r xs"
  shows "cell_sequence (spsc_cells r (cell_at (spsc_head r))) = spsc_head r \<longleftrightarrow> length xs < RING_SIZE"
    "cell_sequence (spsc_cells r (cell_at (spsc_tail r))) = spsc_tail r + 1 \<longleftrightarrow> xs \<noteq> []"
    "length xs \<le> RING_SIZE"
proof -
  obtain T where r: "seq_ring RING_SIZE (spsc_head r) (spsc_tail r) (\<lambda>i. cell_sequence (spsc_cells r i)) T (length xs)"
    using assms by (auto simp: spsc_stores_def)
  have c: "cell_at (spsc_head r) = (T + length xs) mod RING_SIZE" "cell_at (spsc_tail r) = T mod RING_SIZE"
    using seq_ringD(2,3) [OF r] by (simp_all only: cell_at_of_nat)
  show "cell_sequence (spsc_cells r (cell_at (spsc_head r))) = spsc_head r \<longleftrightarrow> length xs < RING_SIZE"
    "cell_sequence (spsc_cells r (cell_at (spsc_tail r))) = spsc_tail r + 1 \<longleftrightarrow> xs \<noteq> []" "length xs \<le> RING_SIZE"
    using ring16.producer_test [OF r] ring16.consumer_test [OF r] seq_ringD(1) [OF r] by (simp_all only: c) simp
qed

lemma spsc_write:
  assumes s: "spsc_stores r xs" and n: "length xs < RING_SIZE" and b: "unat (hdr_len h) = length bs"
    and p: "slot_header slot = h" "length (slot_payload slot) = MAX_MSG_SIZE" "take (length bs) (slot_payload slot) = bs"
  shows "spsc_stores ((cell_put r (spsc_head r) \<lparr>cell_sequence = spsc_head r + 1, cell_slot = slot\<rparr>)
    \<lparr>spsc_head := spsc_head r + 1\<rparr>) (xs @ [(h, bs)])" (is "spsc_stores ?r _")
proof -
  obtain T where r: "seq_ring RING_SIZE (spsc_head r) (spsc_tail r) (\<lambda>i. cell_sequence (spsc_cells r i)) T (length xs)"
      and hd: "ring_holds RING_SIZE (carries r) T xs" using s by (auto simp: spsc_stores_def)
  define c where "c = (T + length xs) mod RING_SIZE"
  have c: "cell_at (spsc_head r) = c" using seq_ringD(2) [OF r] by (simp only: cell_at_of_nat c_def)
  have e: "(\<lambda>i. cell_sequence (spsc_cells ?r i)) = (\<lambda>i. cell_sequence (spsc_cells r i))(c := spsc_head r + 1)" by (auto simp: c)
  have "seq_ring RING_SIZE (spsc_head ?r) (spsc_tail ?r) (\<lambda>i. cell_sequence (spsc_cells ?r i)) T (length (xs @ [(h, bs)]))"
    unfolding e using ring16.pushed [OF r n] by (simp add: c_def)
  moreover have "ring_holds RING_SIZE (carries ?r) T (xs @ [(h, bs)])"
    by (rule ring16.holds_push [OF hd n]) (use b p in \<open>auto simp: carries_def c c_def Let_def split: prod.splits\<close>)
  ultimately show ?thesis using s p(2) unfolding spsc_stores_def by auto
qed

lemma spsc_read:
  assumes s: "spsc_stores r ((h, bs) # xs)"
  defines "cell \<equiv> spsc_cells r (cell_at (spsc_tail r))"
  shows "slot_header (cell_slot cell) = h" "unat (hdr_len h) = length bs" "take (length bs) (slot_payload (cell_slot cell)) = bs"
    "spsc_stores ((cell_put r (spsc_tail r) (cell\<lparr>cell_sequence := spsc_tail r + of_nat RING_SIZE\<rparr>))\<lparr>spsc_tail := spsc_tail r + 1\<rparr>) xs"
      (is "spsc_stores ?r _")
proof -
  obtain T where r: "seq_ring RING_SIZE (spsc_head r) (spsc_tail r) (\<lambda>i. cell_sequence (spsc_cells r i)) T (Suc (length xs))"
      and hd: "ring_holds RING_SIZE (carries r) T ((h, bs) # xs)" using s by (auto simp: spsc_stores_def)
  have c: "cell_at (spsc_tail r) = T mod RING_SIZE" using seq_ringD(3) [OF r] by (simp only: cell_at_of_nat)
  have "carries r (T mod RING_SIZE) (h, bs)" using hd unfolding ring_holds_def by fastforce
  then show "slot_header (cell_slot cell) = h" "unat (hdr_len h) = length bs" "take (length bs) (slot_payload (cell_slot cell)) = bs"
    by (auto simp: carries_def cell_def c Let_def)
  have e: "(\<lambda>i. cell_sequence (spsc_cells ?r i)) = (\<lambda>i. cell_sequence (spsc_cells r i))(T mod RING_SIZE := spsc_tail r + of_nat RING_SIZE)"
    by (auto simp: c)
  have "seq_ring RING_SIZE (spsc_head ?r) (spsc_tail ?r) (\<lambda>i. cell_sequence (spsc_cells ?r i)) (Suc T) (length xs)"
    unfolding e using ring16.popped [OF r] by simp
  moreover have "ring_holds RING_SIZE (carries ?r) (Suc T) xs"
    by (rule ring16.holds_pop [OF hd]) (use seq_ringD(1) [OF r] in \<open>simp_all add: carries_def c\<close>)
  ultimately show "spsc_stores ?r xs" using s unfolding spsc_stores_def by (auto simp: cell_def)
qed

lemma push_copy_cases:
  assumes s: "spsc_stores r xs"
  shows "length src > MAX_MSG_SIZE \<Longrightarrow> SpscRing_push_copy r c src flags = (Err MessageTooLarge, r, c)"
    "length src \<le> MAX_MSG_SIZE \<Longrightarrow> length xs = RING_SIZE \<Longrightarrow> SpscRing_push_copy r c src flags = (Err QueueFull, r, c)"
    "length src \<le> MAX_MSG_SIZE \<Longrightarrow> length xs < RING_SIZE \<Longrightarrow>
      \<exists>r'. SpscRing_push_copy r c src flags = (Ok c, r', c + 1) \<and> spsc_stores r' (xs @ [(MessageHeader_new_inline c flags (length src), src)])"
proof -
  show "length src > MAX_MSG_SIZE \<Longrightarrow> SpscRing_push_copy r c src flags = (Err MessageTooLarge, r, c)"
    by (simp add: SpscRing_push_copy_def)
  show "length src \<le> MAX_MSG_SIZE \<Longrightarrow> length xs = RING_SIZE \<Longrightarrow> SpscRing_push_copy r c src flags = (Err QueueFull, r, c)"
    using spsc_tests(1) [OF s] by (simp add: SpscRing_push_copy_def)
  assume l: "length src \<le> MAX_MSG_SIZE" and n: "length xs < RING_SIZE"
  define slot where "slot = cell_slot (spsc_cells r (cell_at (spsc_head r)))"
  have ps: "length (slot_payload slot) = MAX_MSG_SIZE" using s by (simp add: spsc_stores_def slot_def)
  have "unat (hdr_len (MessageHeader_new_inline c flags (length src))) = length src"
    using l by (simp add: MessageHeader_new_inline_def unat_of_nat take_bit_nat_eq_self)
  then have "spsc_stores ((cell_put r (spsc_head r) \<lparr>cell_sequence = spsc_head r + 1, cell_slot =
      slot\<lparr>slot_header := MessageHeader_new_inline c flags (length src), slot_payload := copy_to src (slot_payload slot)\<rparr>\<rparr>)
      \<lparr>spsc_head := spsc_head r + 1\<rparr>) (xs @ [(MessageHeader_new_inline c flags (length src), src)])"
    by (rule spsc_write [OF s n]) (use l ps in simp_all)
  then show "\<exists>r'. SpscRing_push_copy r c src flags = (Ok c, r', c + 1) \<and> spsc_stores r' (xs @ [(MessageHeader_new_inline c flags (length src), src)])"
    using l n spsc_tests(1) [OF s] by (simp add: SpscRing_push_copy_def alloc_message_id_def Let_def slot_def)
qed

lemma push_zerocopy_cases:
  assumes s: "spsc_stores r xs"
  shows "length xs = RING_SIZE \<Longrightarrow> SpscRing_push_zerocopy r c z flags = (Err QueueFull, r, c)"
    "length xs < RING_SIZE \<Longrightarrow>
      \<exists>r'. SpscRing_push_zerocopy r c z flags = (Ok c, r', c + 1) \<and> spsc_stores r' (xs @ [(MessageHeader_new_zerocopy c flags, [])])"
proof -
  show "length xs = RING_SIZE \<Longrightarrow> SpscRing_push_zerocopy r c z flags = (Err QueueFull, r, c)"
    using spsc_tests(1) [OF s] by (simp add: SpscRing_push_zerocopy_def)
  assume n: "length xs < RING_SIZE"
  define slot where "slot = cell_slot (spsc_cells r (cell_at (spsc_head r)))"
  have h: "MessageHeader_new_zerocopy c (flags OR MsgFlags_ZEROCOPY) = MessageHeader_new_zerocopy c flags"
    by (simp add: MessageHeader_new_zerocopy_def)
  have ps: "length (slot_payload slot) = MAX_MSG_SIZE" using s by (simp add: spsc_stores_def slot_def)
  have "spsc_stores ((cell_put r (spsc_head r) \<lparr>cell_sequence = spsc_head r + 1, cell_slot =
      slot\<lparr>slot_header := MessageHeader_new_zerocopy c flags, slot_payload := copy_to (ZeroCopyRef_bytes z) (slot_payload slot)\<rparr>\<rparr>)
      \<lparr>spsc_head := spsc_head r + 1\<rparr>) (xs @ [(MessageHeader_new_zerocopy c flags, [])])"
    by (rule spsc_write [OF s n]) (use ps in \<open>simp_all add: MessageHeader_new_zerocopy_def\<close>)
  then show "\<exists>r'. SpscRing_push_zerocopy r c z flags = (Ok c, r', c + 1) \<and> spsc_stores r' (xs @ [(MessageHeader_new_zerocopy c flags, [])])"
    using n spsc_tests(1) [OF s] h by (simp add: SpscRing_push_zerocopy_def alloc_message_id_def Let_def slot_def)
qed

lemma pop_into_cases:
  shows "spsc_stores r [] \<Longrightarrow> SpscRing_pop_into r dst = (Err QueueEmpty, dst, r)"
    "spsc_stores r ((h, bs) # xs) \<Longrightarrow>
      \<exists>r'. SpscRing_pop_into r dst =
          (if length bs \<le> length dst then (Ok (length bs, hdr_flags h), copy_to bs dst, r') else (Err MessageTooLarge, dst, r'))
        \<and> spsc_stores r' xs"
proof -
  show "spsc_stores r [] \<Longrightarrow> SpscRing_pop_into r dst = (Err QueueEmpty, dst, r)"
    using spsc_tests(2) [of r "[]"] by (simp add: SpscRing_pop_into_def)
  assume s: "spsc_stores r ((h, bs) # xs)"
  show "\<exists>r'. SpscRing_pop_into r dst =
          (if length bs \<le> length dst then (Ok (length bs, hdr_flags h), copy_to bs dst, r') else (Err MessageTooLarge, dst, r'))
        \<and> spsc_stores r' xs"
    using spsc_read [OF s] spsc_tests(2) [OF s] by (intro exI conjI) (auto simp: SpscRing_pop_into_def Let_def)
qed

lemma spsc_stores_bounded:
  assumes s: "spsc_stores r xs" and m: "(h, bs) \<in> set xs"
  shows "length bs \<le> MAX_MSG_SIZE"
proof -
  obtain T i where "i < length xs" "xs ! i = (h, bs)" "ring_holds RING_SIZE (carries r) T xs"
    using s m by (auto simp: spsc_stores_def in_set_conv_nth)
  then have "carries r ((T + i) mod RING_SIZE) (h, bs)" unfolding ring_holds_def by metis
  then obtain ps where "take (length bs) ps = bs" "length ps = MAX_MSG_SIZE" using s by (auto simp: carries_def Let_def spsc_stores_def)
  then show ?thesis by (metis length_take min.cobounded1)
qed

section \<open>The ring of references is a queue\<close>

definition zc_stores :: "ZeroCopyRing \<Rightarrow> ZeroCopyRef list \<Rightarrow> bool" where
  "zc_stores r xs =
    (\<exists>T. seq_ring ZC_RING_SIZE (zr_head r) (zr_tail r) (\<lambda>i. zs_seq (zr_slots r i)) T (length xs)
       \<and> ring_holds ZC_RING_SIZE (\<lambda>i z. zs_zc (zr_slots r i) = z) T xs)"

lemma zc_init_stores: "zc_stores (ZeroCopyRing_init ZeroCopyRing_new) []"
  unfolding zc_stores_def
  by (intro exI [of _ 0]) (auto simp: ZeroCopyRing_init_def ZeroCopyRing_new_def ring_holds_def intro!: seq_ringI)

lemma zc_push_cases:
  assumes s: "zc_stores r xs"
  shows "length xs = ZC_RING_SIZE \<Longrightarrow> ZeroCopyRing_push r z = (Err WouldBlock, r)"
    "length xs < ZC_RING_SIZE \<Longrightarrow> \<exists>r'. ZeroCopyRing_push r z = (Ok (), r') \<and> zc_stores r' (xs @ [z])"
proof -
  obtain T where r: "seq_ring ZC_RING_SIZE (zr_head r) (zr_tail r) (\<lambda>i. zs_seq (zr_slots r i)) T (length xs)"
      and hd: "ring_holds ZC_RING_SIZE (\<lambda>i z. zs_zc (zr_slots r i) = z) T xs" using s by (auto simp: zc_stores_def)
  define c where "c = (T + length xs) mod ZC_RING_SIZE"
  have c: "slot_at (zr_head r) = c" using seq_ringD(2) [OF r] by (simp only: slot_at_of_nat c_def)
  note t = ring512.producer_test [OF r, folded c_def]
  show "length xs = ZC_RING_SIZE \<Longrightarrow> ZeroCopyRing_push r z = (Err WouldBlock, r)" using t by (simp add: ZeroCopyRing_push_def c)
  assume n: "length xs < ZC_RING_SIZE"
  define r' where "r' = r\<lparr>zr_slots := (zr_slots r)(c := \<lparr>zs_seq = zr_head r + 1, zs_zc = z\<rparr>), zr_head := zr_head r + 1\<rparr>"
  have e: "(\<lambda>i. zs_seq (zr_slots r' i)) = (\<lambda>i. zs_seq (zr_slots r i))(c := zr_head r + 1)" by (auto simp: r'_def)
  have "seq_ring ZC_RING_SIZE (zr_head r') (zr_tail r') (\<lambda>i. zs_seq (zr_slots r' i)) T (length (xs @ [z]))"
    unfolding e using ring512.pushed [OF r n] by (simp add: r'_def c_def)
  moreover have "ring_holds ZC_RING_SIZE (\<lambda>i z. zs_zc (zr_slots r' i) = z) T (xs @ [z])"
    by (rule ring512.holds_push [OF hd n]) (simp_all add: r'_def c_def)
  ultimately have "zc_stores r' (xs @ [z])" by (auto simp: zc_stores_def)
  then show "\<exists>r'. ZeroCopyRing_push r z = (Ok (), r') \<and> zc_stores r' (xs @ [z])"
    using t n by (simp add: ZeroCopyRing_push_def c r'_def Let_def)
qed

lemma zc_pop_cases:
  shows "zc_stores r [] \<Longrightarrow> ZeroCopyRing_pop r = (Err WouldBlock, r)"
    "zc_stores r (z # xs) \<Longrightarrow> \<exists>r'. ZeroCopyRing_pop r = (Ok z, r') \<and> zc_stores r' xs"
proof -
  have c: "slot_at (zr_tail r) = T mod ZC_RING_SIZE" if "seq_ring ZC_RING_SIZE (zr_head r) (zr_tail r) (\<lambda>i. zs_seq (zr_slots r i)) T n" for T n
    using seq_ringD(3) [OF that] by (simp only: slot_at_of_nat)
  show "zc_stores r [] \<Longrightarrow> ZeroCopyRing_pop r = (Err WouldBlock, r)"
    using ring512.consumer_test c by (fastforce simp: zc_stores_def ZeroCopyRing_pop_def)
  assume "zc_stores r (z # xs)"
  then obtain T where r: "seq_ring ZC_RING_SIZE (zr_head r) (zr_tail r) (\<lambda>i. zs_seq (zr_slots r i)) T (Suc (length xs))"
      and hd: "ring_holds ZC_RING_SIZE (\<lambda>i z. zs_zc (zr_slots r i) = z) T (z # xs)" by (auto simp: zc_stores_def)
  note c = c [OF r]
  define r' where "r' = r\<lparr>zr_slots := (zr_slots r)(T mod ZC_RING_SIZE := (zr_slots r (T mod ZC_RING_SIZE))\<lparr>zs_seq := zr_tail r + of_nat ZC_RING_SIZE\<rparr>),
    zr_tail := zr_tail r + 1\<rparr>"
  have e: "(\<lambda>i. zs_seq (zr_slots r' i)) = (\<lambda>i. zs_seq (zr_slots r i))(T mod ZC_RING_SIZE := zr_tail r + of_nat ZC_RING_SIZE)"
    by (auto simp: r'_def)
  have "seq_ring ZC_RING_SIZE (zr_head r') (zr_tail r') (\<lambda>i. zs_seq (zr_slots r' i)) (Suc T) (length xs)"
    unfolding e using ring512.popped [OF r] by (simp add: r'_def)
  moreover have "ring_holds ZC_RING_SIZE (\<lambda>i z. zs_zc (zr_slots r' i) = z) (Suc T) xs"
    by (rule ring512.holds_pop [OF hd]) (use seq_ringD(1) [OF r] in \<open>simp_all add: r'_def\<close>)
  ultimately have "zc_stores r' xs" by (auto simp: zc_stores_def)
  moreover have "zs_zc (zr_slots r (T mod ZC_RING_SIZE)) = z" using hd unfolding ring_holds_def by fastforce
  ultimately show "\<exists>r'. ZeroCopyRing_pop r = (Ok z, r') \<and> zc_stores r' xs"
    using ring512.consumer_test [OF r] by (simp add: ZeroCopyRing_pop_def c r'_def Let_def)
qed

section \<open>Both rings implement the bounded queue\<close>

text \<open>
  A channel end keeps the ring and the message counter.  The consumer reads with a buffer for the
  largest message.
\<close>

definition spsc_send :: "SpscRing \<times> u64 \<Rightarrow> MsgFlags \<times> u8 list \<Rightarrow> bool \<times> SpscRing \<times> u64" where
  "spsc_send q m = (case SpscRing_push_copy (fst q) (snd q) (snd m) (fst m) of (res, r, c) \<Rightarrow> (is_ok res, r, c))"

definition spsc_receive :: "SpscRing \<times> u64 \<Rightarrow> (MsgFlags \<times> u8 list) option \<times> SpscRing \<times> u64" where
  "spsc_receive q =
    (case SpscRing_pop_into (fst q) (replicate MAX_MSG_SIZE 0) of
       (Ok (n, flags), buf, r) \<Rightarrow> (Some (flags, take n buf), r, snd q)
     | (Err _, _, r) \<Rightarrow> (None, r, snd q))"

definition spsc_queue :: "SpscRing \<times> u64 \<Rightarrow> (MsgFlags \<times> u8 list) list \<Rightarrow> bool" where
  "spsc_queue q xs = (\<exists>ms. spsc_stores (fst q) ms \<and> map (\<lambda>(h, bs). (hdr_flags h, bs)) ms = xs)"

definition zc_send :: "ZeroCopyRing \<Rightarrow> ZeroCopyRef \<Rightarrow> bool \<times> ZeroCopyRing" where
  "zc_send r z = (case ZeroCopyRing_push r z of (res, r) \<Rightarrow> (is_ok res, r))"

definition zc_receive :: "ZeroCopyRing \<Rightarrow> ZeroCopyRef option \<times> ZeroCopyRing" where
  "zc_receive r = (case ZeroCopyRing_pop r of (Ok z, r) \<Rightarrow> (Some z, r) | (Err _, r) \<Rightarrow> (None, r))"

interpretation spsc: bounded_fifo spsc_queue RING_SIZE spsc_send spsc_receive "\<lambda>m. length (snd m) \<le> MAX_MSG_SIZE"
proof (unfold_locales, goal_cases)
  case (1 q xs m)
  then obtain ms where "spsc_stores (fst q) ms" "length ms = length xs" by (auto simp: spsc_queue_def)
  then show ?case using push_copy_cases(2) [of "fst q" ms "snd m" "snd q" "fst m"] spsc_tests(3) [of "fst q" ms] 1 by (simp add: spsc_send_def)
next
  case (2 q xs m)
  then obtain ms where ms: "spsc_stores (fst q) ms" "map (\<lambda>(h, bs). (hdr_flags h, bs)) ms = xs" by (auto simp: spsc_queue_def)
  moreover have "length ms = length xs" using ms(2) by auto
  ultimately obtain r' where r': "SpscRing_push_copy (fst q) (snd q) (snd m) (fst m) = (Ok (snd q), r', snd q + 1)"
      "spsc_stores r' (ms @ [(MessageHeader_new_inline (snd q) (fst m) (length (snd m)), snd m)])"
    using push_copy_cases(3) [of "fst q" ms "snd m" "snd q" "fst m"] 2 by auto
  then have "spsc_queue (r', snd q + 1) (xs @ [m])" unfolding spsc_queue_def using ms(2)
    by (intro exI [of _ "ms @ [(MessageHeader_new_inline (snd q) (fst m) (length (snd m)), snd m)]"]) (simp add: MessageHeader_new_inline_def)
  then show ?case using r'(1) by (simp add: spsc_send_def)
next
  case (3 q)
  then show ?case using pop_into_cases(1) [of "fst q" "replicate MAX_MSG_SIZE 0"] by (simp add: spsc_queue_def spsc_receive_def)
next
  case (4 q m xs)
  then obtain h bs ms where ms: "spsc_stores (fst q) ((h, bs) # ms)" "m = (hdr_flags h, bs)" "map (\<lambda>(h, bs). (hdr_flags h, bs)) ms = xs"
    by (auto simp: spsc_queue_def Cons_eq_map_conv)
  then obtain r' where "SpscRing_pop_into (fst q) (replicate MAX_MSG_SIZE 0) = (Ok (length bs, hdr_flags h), copy_to bs (replicate MAX_MSG_SIZE 0), r')"
      "spsc_stores r' ms"
    using pop_into_cases(2) [OF ms(1), of "replicate MAX_MSG_SIZE 0"] spsc_stores_bounded [OF ms(1), of h bs] by auto
  then show ?case using ms by (auto simp: spsc_receive_def spsc_queue_def)
qed

interpretation zcopy: bounded_fifo zc_stores ZC_RING_SIZE zc_send zc_receive "\<lambda>z. True"
proof (unfold_locales, goal_cases)
  case (1 r xs z)
  moreover have "length xs \<le> ZC_RING_SIZE" using 1(1) by (auto simp: zc_stores_def seq_ring_def)
  ultimately show ?case using zc_push_cases(1) [of r xs z] by (simp add: zc_send_def)
next
  case (2 r xs z)
  then show ?case using zc_push_cases(2) [of r xs z] by (auto simp: zc_send_def)
next
  case (3 r)
  then show ?case using zc_pop_cases(1) [of r] by (simp add: zc_receive_def)
next
  case (4 r z xs)
  then show ?case using zc_pop_cases(2) [of r z xs] by (auto simp: zc_receive_def)
qed

section \<open>The waiting loop\<close>

lemma wait_loop_returns:
  assumes "0 < timeout" "unat (timeout div 100) + 1 \<le> spins + k"
  shows "\<exists>res. wait_loop produce i timeout spins m t = Some res"
  using assms
proof (induction k arbitrary: spins m t)
  case 0
  then show ?case by (subst wait_loop.simps) (auto split: prod.split sum.split simp: Let_def)
next
  case (Suc k)
  have "\<exists>res. wait_loop produce i timeout (spins + 1) m' t' = Some res" for m' t' by (rule Suc.IH) (use Suc.prems in simp_all)
  then show ?case by (subst wait_loop.simps) (auto split: prod.split sum.split simp: Let_def)
qed

lemma wait_loop_stuck:
  fixes t :: SpscTable and m :: IpcFastMsg
  assumes Q: "\<And>k t. Q t \<Longrightarrow> Q (produce k t)"
      "\<And>t (m :: IpcFastMsg). Q t \<Longrightarrow> SpscRing_pop_into (SPSC_RINGS t i) (fm_data m) = (Err QueueEmpty, fm_data m, SPSC_RINGS t i)"
    and t: "Q t"
  shows "wait_loop produce i 0 spins m t = None"
proof -
  have "produce' = produce \<longrightarrow> i' = i \<longrightarrow> timeout = 0 \<longrightarrow> \<not> Q t" if "wait_loop produce' i' timeout spins m t = Some res"
    for produce' i' timeout spins t res and m :: IpcFastMsg
  proof (rule wait_loop.raw_induct [OF _ that])
    fix wl produce' i' timeout spins t res and m :: IpcFastMsg
    assume ih: "\<And>produce' i' timeout spins (m :: IpcFastMsg) t res. wl produce' i' timeout spins m t = Some res \<Longrightarrow>
        produce' = produce \<longrightarrow> i' = i \<longrightarrow> timeout = 0 \<longrightarrow> \<not> Q t"
      and body: "(case SpscRing_pop_into (SPSC_RINGS t i') (fm_data m) of
       (res, buf, r) \<Rightarrow>
         let m = m\<lparr>fm_data := buf\<rparr>; t = t\<lparr>SPSC_RINGS := (SPSC_RINGS t)(i' := r)\<rparr> in
         (case res of
            Ok (n, _) \<Rightarrow> Some (0, m\<lparr>fm_len := of_nat n\<rparr>, t)
          | Err e \<Rightarrow>
              if e \<noteq> QueueEmpty then Some (IpcError_code e, m, t)
              else if timeout > 0 \<and> spins + 1 > unat (timeout div 100) then Some (IpcError_code Timeout, m, t)
              else wl produce' i' timeout (spins + 1) m (produce' spins t))) = Some res"
    show "produce' = produce \<longrightarrow> i' = i \<longrightarrow> timeout = 0 \<longrightarrow> \<not> Q t"
    proof (intro impI notI)
      assume a: "produce' = produce" "i' = i" "timeout = 0" "Q t"
      then have "wl produce i 0 (spins + 1) m (produce spins t) = Some res" using body Q(2) [OF a(4), of m] by simp
      then show False using ih Q(1) [OF a(4), of spins] by blast
    qed
  qed
  then show ?thesis using t by (metis not_Some_eq)
qed

lemma ring_for_ok: "unat ch < MAX_SPSC_RINGS \<Longrightarrow> ring_for ch = Ok (unat ch)"
  using array_index_nospec_ok [of ch "of_nat MAX_SPSC_RINGS"] by (simp add: ring_for_def word_less_nat_alt)

text \<open>
  A reference sent by \<open>push_zerocopy\<close> does not reach the consumer: the header says the payload is empty,
  so \<open>pop_into\<close> copies nothing of it.
\<close>

lemma zerocopy_reference_lost:
  assumes "spsc_stores r []"
  shows "\<exists>r1 r2. SpscRing_push_zerocopy r c z flags = (Ok c, r1, c + 1)
    \<and> SpscRing_pop_into r1 dst = (Ok (0, flags OR MsgFlags_ZEROCOPY), dst, r2)"
proof -
  obtain r1 where r1: "SpscRing_push_zerocopy r c z flags = (Ok c, r1, c + 1)" "spsc_stores r1 [(MessageHeader_new_zerocopy c flags, [])]"
    using push_zerocopy_cases(2) [OF assms, of c z flags] by auto
  then show ?thesis
    using pop_into_cases(2) [OF r1(2), of dst] by (auto simp: MessageHeader_new_zerocopy_def copy_to_def Let_def)
qed

definition sample_table :: SpscTable where
  "sample_table = init_spsc_rings \<lparr>SPSC_RINGS = (\<lambda>i. SpscRing_new RingSlot_zeroed), SPSC_INIT = 0, MSG_IDS = 1\<rparr>"

lemma sample_ring: "i < MAX_SPSC_RINGS \<Longrightarrow> spsc_stores (SPSC_RINGS sample_table i) []"
  using spsc_init_stores [of RingSlot_zeroed] by (simp add: sample_table_def init_spsc_rings_def RingSlot_zeroed_def)

section \<open>Properties\<close>

text \<open>
  C12: The single-producer ring refines a queue of at most 16 messages, whatever the positions are
  modulo \<open>2 ^ 64\<close>.  A push stores the message behind the others with a fresh identifier; it fails with
  \<open>MessageTooLarge\<close> above 240 bytes and with \<open>QueueFull\<close> exactly when 16 messages wait, and then
  changes nothing.  A pop returns the oldest message with its flags and copies its bytes to the front of
  the buffer, leaving the rest of the buffer; a buffer that is too short loses the message; an empty
  ring is reported as such.  The inspection functions tell the truth about the queue.
\<close>

theorem spsc_ring_refines_queue:
  assumes s: "spsc_stores r xs"
  shows "(\<exists>r'. SpscRing_push_copy r c src flags =
        (if length src > 240 then (Err MessageTooLarge, r, c) else if length xs = 16 then (Err QueueFull, r, c) else (Ok c, r', c + 1))
        \<and> (length src \<le> 240 \<and> length xs < 16 \<longrightarrow> spsc_stores r' (xs @ [(MessageHeader_new_inline c flags (length src), src)])))
    \<and> (\<exists>r'. SpscRing_pop_into r dst =
        (case xs of [] \<Rightarrow> (Err QueueEmpty, dst, r')
         | (h, bs) # _ \<Rightarrow> if length bs \<le> length dst then (Ok (length bs, hdr_flags h), bs @ drop (length bs) dst, r')
             else (Err MessageTooLarge, dst, r'))
        \<and> spsc_stores r' (tl xs))
    \<and> SpscRing_is_empty r = (xs = []) \<and> SpscRing_is_full r = (length xs = 16) \<and> SpscRing_len_approx r = length xs
    \<and> SpscRing_peek_header r = (case xs of [] \<Rightarrow> None | (h, bs) # _ \<Rightarrow> Some h)"
proof (intro conjI)
  have le: "length xs \<le> 16" using spsc_tests(3) [OF s] by simp
  show "\<exists>r'. SpscRing_push_copy r c src flags =
        (if length src > 240 then (Err MessageTooLarge, r, c) else if length xs = 16 then (Err QueueFull, r, c) else (Ok c, r', c + 1))
        \<and> (length src \<le> 240 \<and> length xs < 16 \<longrightarrow> spsc_stores r' (xs @ [(MessageHeader_new_inline c flags (length src), src)]))"
    using push_copy_cases [OF s, of src c flags] le by auto
  show "\<exists>r'. SpscRing_pop_into r dst =
        (case xs of [] \<Rightarrow> (Err QueueEmpty, dst, r')
         | (h, bs) # _ \<Rightarrow> if length bs \<le> length dst then (Ok (length bs, hdr_flags h), bs @ drop (length bs) dst, r')
             else (Err MessageTooLarge, dst, r'))
        \<and> spsc_stores r' (tl xs)"
  proof (cases xs)
    case Nil
    then show ?thesis using pop_into_cases(1) [of r dst] s by simp
  next
    case (Cons m ys)
    then obtain h bs where m: "m = (h, bs)" "spsc_stores r ((h, bs) # ys)" using s by (cases m) simp
    then obtain r' where "spsc_stores r' ys" "SpscRing_pop_into r dst =
        (if length bs \<le> length dst then (Ok (length bs, hdr_flags h), copy_to bs dst, r') else (Err MessageTooLarge, dst, r'))"
      using pop_into_cases(2) [OF m(2), of dst] by blast
    then show ?thesis by (intro exI [of _ r']) (simp add: Cons m(1) copy_to_def)
  qed
  show "SpscRing_is_empty r = (xs = [])" "SpscRing_is_full r = (length xs = 16)"
    using spsc_tests [OF s] by (auto simp: SpscRing_is_empty_def SpscRing_is_full_def)
  show "SpscRing_len_approx r = length xs"
    using s le by (auto simp: spsc_stores_def SpscRing_len_approx_def seq_ring_def unat_of_nat take_bit_nat_eq_self)
  show "SpscRing_peek_header r = (case xs of [] \<Rightarrow> None | (h, bs) # _ \<Rightarrow> Some h)"
    using spsc_tests(2) [OF s] spsc_read(1) [of r _ _ "tl xs"] s
    by (cases xs) (auto simp: SpscRing_peek_header_def Let_def)
qed

theorem spsc_ring_refines_queue_witness:
  "\<exists>r'. SpscRing_push_copy (SPSC_RINGS sample_table 0) 1 [7, 8] 0 = (Ok 1, r', 2)
    \<and> spsc_stores r' [(MessageHeader_new_inline 1 0 2, [7, 8])]"
  using spsc_ring_refines_queue [OF sample_ring [of 0], of 1 "[7, 8]" 0 "[]"] by (simp add: numeral_2_eq_2)



end
