(* ===== verification/Ipc_Batch.thy ===== *)
theory Ipc_Batch
  imports Ipc_Ring
begin

text \<open>
  Batched sending: the producer's buffer and the grouped reception of \<open>kernel/src/ipc/ring/batch.rs\<close>,
  and the ring of \<open>fusion.rs\<close> that switches between direct and batched sending with the load.
\<close>

section \<open>Definitions\<close>

subsection \<open>The batch buffer\<close>

definition MAX_BATCH_SIZE :: nat where [simp]: "MAX_BATCH_SIZE = 32"

text \<open>An entry holds 512 bytes of which the first \<open>be_len\<close> are the message.\<close>

record BatchEntry =
  be_flags :: MsgFlags
  be_len :: u16
  be_data :: "u8 list"

definition BatchEntry_zeroed :: BatchEntry where
  "BatchEntry_zeroed = \<lparr>be_flags = 0, be_len = 0, be_data = replicate 512 0\<rparr>"

record BatchBuffer =
  bb_entries :: "BatchEntry list"
  bb_count :: nat
  bb_expire_tick :: u64

definition BatchBuffer_new :: BatchBuffer where
  "BatchBuffer_new = \<lparr>bb_entries = replicate MAX_BATCH_SIZE BatchEntry_zeroed, bb_count = 0, bb_expire_tick = 0\<rparr>"

definition BatchBuffer_add :: "BatchBuffer \<Rightarrow> u8 list \<Rightarrow> MsgFlags \<Rightarrow> u64 \<Rightarrow> bool \<times> BatchBuffer" where
  "BatchBuffer_add b src flags current_tick =
    (let len = min (length src) 512;
         b = (if bb_count b = 0 then b\<lparr>bb_expire_tick := current_tick + FUSION_MAX_DELAY_TICKS\<rparr> else b);
         idx = bb_count b;
         b = (if idx < MAX_BATCH_SIZE then
                let entry = bb_entries b ! idx;
                    entry = entry\<lparr>be_flags := flags, be_len := of_nat len, be_data := copy_to (take len src) (be_data entry)\<rparr>
                in b\<lparr>bb_entries := (bb_entries b)[idx := entry], bb_count := bb_count b + 1\<rparr>
              else b)
     in (bb_count b \<ge> FUSION_BATCH_THRESHOLD \<or> bb_count b \<ge> MAX_BATCH_SIZE, b))"

definition BatchBuffer_is_expired :: "BatchBuffer \<Rightarrow> u64 \<Rightarrow> bool" where
  "BatchBuffer_is_expired b current_tick = (bb_count b > 0 \<and> current_tick \<ge> bb_expire_tick b)"

text \<open>The first loop of \<open>flush_to_ring\<close> over the entries left, with the number sent so far.\<close>

primrec flush_loop :: "BatchEntry list \<Rightarrow> SpscRing \<Rightarrow> u64 \<Rightarrow> nat \<Rightarrow> nat \<times> SpscRing \<times> u64" where
  "flush_loop [] r c sent = (sent, r, c)"
| "flush_loop (entry # es) r c sent =
    (let data = take (unat (be_len entry)) (be_data entry) in
     case SpscRing_push_copy r c data (be_flags entry) of
       (Ok _, r, c) \<Rightarrow> flush_loop es r c (sent + 1)
     | (Err _, r, c) \<Rightarrow> (sent, r, c))"

definition BatchBuffer_flush_to_ring :: "BatchBuffer \<Rightarrow> SpscRing \<Rightarrow> u64 \<Rightarrow> nat \<times> BatchBuffer \<times> SpscRing \<times> u64" where
  "BatchBuffer_flush_to_ring b r c =
    (case flush_loop (take (bb_count b) (bb_entries b)) r c 0 of (sent, r, c) \<Rightarrow>
       let b = (if sent > 0 \<and> sent < bb_count b
                then b\<lparr>bb_entries := fold (\<lambda>i es. es[i := es ! (sent + i)]) [0..<bb_count b - sent] (bb_entries b)\<rparr>
                else b);
           b = b\<lparr>bb_count := bb_count b - sent\<rparr>;
           b = (if bb_count b = 0 then b\<lparr>bb_expire_tick := 0\<rparr> else b)
       in (sent, b, r, c))"

definition BatchBuffer_clear :: "BatchBuffer \<Rightarrow> BatchBuffer" where
  "BatchBuffer_clear b = b\<lparr>bb_count := 0, bb_expire_tick := 0\<rparr>"

subsection \<open>Grouped reception\<close>

primrec receive_loop :: "(u8 list \<times> nat) list \<Rightarrow> SpscRing \<Rightarrow> nat \<Rightarrow> nat \<Rightarrow> (u8 list \<times> nat) list \<times> SpscRing \<times> nat \<times> nat" where
  "receive_loop [] r received bytes = ([], r, received, bytes)"
| "receive_loop (buf # bufs) r received bytes =
    (case SpscRing_pop_into r (fst buf) of
       (Ok (n, _), data, r) \<Rightarrow>
         (case receive_loop bufs r (received + 1) (bytes + n) of (bufs, r, res) \<Rightarrow> ((data, n) # bufs, r, res))
     | (Err _, data, r) \<Rightarrow> ((data, snd buf) # bufs, r, received, bytes))"

text \<open>The buffers, the ring, the number of messages and of bytes received.\<close>

definition batch_receive :: "SpscRing \<Rightarrow> (u8 list \<times> nat) list \<Rightarrow> nat \<Rightarrow> (u8 list \<times> nat) list \<times> SpscRing \<times> nat \<times> nat" where
  "batch_receive r bufs max_msgs =
    (let limit = min (min max_msgs (length bufs)) MAX_BATCH_SIZE in
     case receive_loop (take limit bufs) r 0 0 of (got, r, res) \<Rightarrow> (got @ drop limit bufs, r, res))"

subsection \<open>The adaptive ring\<close>

datatype FusionMode = Direct | BatchMode

record FusionMetrics =
  fm_msgs_since_last :: u64
  fm_last_obs_tick :: u64
  fm_ewa_throughput :: u32
  fm_mode_switches :: u64

definition FusionMetrics_new :: FusionMetrics where
  "FusionMetrics_new = \<lparr>fm_msgs_since_last = 0, fm_last_obs_tick = 0, fm_ewa_throughput = 0, fm_mode_switches = 0\<rparr>"

definition FusionMetrics_update :: "FusionMetrics \<Rightarrow> u64 \<Rightarrow> FusionMetrics" where
  "FusionMetrics_update m current_tick =
    (let last = fm_last_obs_tick m in
     if current_tick = last then m
     else
       let dt = max (current_tick - last) 1;
           msgs = fm_msgs_since_last m;
           instant = (ucast (min (msgs div dt) (ucast u32_MAX)) :: u32);
           ewa = ucast (drop_bit 3 (ucast (fm_ewa_throughput m) * 7 + ucast instant :: u64))
       in m\<lparr>fm_msgs_since_last := 0, fm_ewa_throughput := ewa, fm_last_obs_tick := current_tick\<rparr>)"

definition BATCH_THRESHOLD_THROUGHPUT :: u32 where [simp]: "BATCH_THRESHOLD_THROUGHPUT = 100"
definition DIRECT_THRESHOLD_THROUGHPUT :: u32 where [simp]: "DIRECT_THRESHOLD_THROUGHPUT = 20"

record FusionRing =
  fr_inner :: SpscRing
  fr_batch :: BatchBuffer
  fr_mode :: u32
  fr_metrics :: FusionMetrics
  fr_current_tick :: u64

definition FusionRing_new :: "RingSlot \<Rightarrow> FusionRing" where
  "FusionRing_new uninit = \<lparr>fr_inner = SpscRing_new uninit, fr_batch = BatchBuffer_new, fr_mode = 0,
     fr_metrics = FusionMetrics_new, fr_current_tick = 0\<rparr>"

definition FusionRing_init :: "FusionRing \<Rightarrow> FusionRing" where
  "FusionRing_init f = f\<lparr>fr_inner := SpscRing_init (fr_inner f)\<rparr>"

definition FusionRing_adapt_mode :: "FusionRing \<Rightarrow> FusionRing" where
  "FusionRing_adapt_mode f =
    (let ewa = fm_ewa_throughput (fr_metrics f); mode = fr_mode f;
         switched = (fr_metrics f)\<lparr>fm_mode_switches := fm_mode_switches (fr_metrics f) + 1\<rparr> in
     if mode = 0 \<and> ewa \<ge> BATCH_THRESHOLD_THROUGHPUT then f\<lparr>fr_mode := 1, fr_metrics := switched\<rparr>
     else if mode = 1 \<and> ewa \<le> DIRECT_THRESHOLD_THROUGHPUT then f\<lparr>fr_mode := 0, fr_metrics := switched\<rparr>
     else f)"

definition FusionRing_tick :: "FusionRing \<Rightarrow> u64 \<Rightarrow> FusionRing" where
  "FusionRing_tick f tick =
    FusionRing_adapt_mode (f\<lparr>fr_current_tick := tick, fr_metrics := FusionMetrics_update (fr_metrics f) tick\<rparr>)"

definition FusionRing_send :: "FusionRing \<Rightarrow> u64 \<Rightarrow> u8 list \<Rightarrow> MsgFlags \<Rightarrow> (IpcError, unit) result \<times> FusionRing \<times> u64" where
  "FusionRing_send f c src flags =
    (let tick = fr_current_tick f;
         f = f\<lparr>fr_metrics := (fr_metrics f)\<lparr>fm_msgs_since_last := fm_msgs_since_last (fr_metrics f) + 1\<rparr>\<rparr>;
         mode = fr_mode f in
     if mode = 0 then
       (case SpscRing_push_copy (fr_inner f) c src flags of
          (res, r, c) \<Rightarrow> (case res of Ok _ \<Rightarrow> Ok () | Err e \<Rightarrow> Err e, f\<lparr>fr_inner := r\<rparr>, c))
     else
       (case BatchBuffer_add (fr_batch f) src flags tick of
          (should_flush, b) \<Rightarrow>
            if should_flush \<or> BatchBuffer_is_expired b tick then
              (case BatchBuffer_flush_to_ring b (fr_inner f) c of
                 (_, b, r, c) \<Rightarrow> (Ok (), f\<lparr>fr_batch := b, fr_inner := r\<rparr>, c))
            else (Ok (), f\<lparr>fr_batch := b\<rparr>, c)))"

definition FusionRing_flush :: "FusionRing \<Rightarrow> u64 \<Rightarrow> nat \<times> FusionRing \<times> u64" where
  "FusionRing_flush f c =
    (if bb_count (fr_batch f) > 0 then
       (case BatchBuffer_flush_to_ring (fr_batch f) (fr_inner f) c of
          (sent, b, r, c) \<Rightarrow> (sent, f\<lparr>fr_batch := b, fr_inner := r\<rparr>, c))
     else (0, f, c))"

definition FusionRing_recv :: "FusionRing \<Rightarrow> u8 list \<Rightarrow> (IpcError, nat \<times> MsgFlags) result \<times> u8 list \<times> FusionRing" where
  "FusionRing_recv f dst = (case SpscRing_pop_into (fr_inner f) dst of (res, dst, r) \<Rightarrow> (res, dst, f\<lparr>fr_inner := r\<rparr>))"

definition FusionRing_mode :: "FusionRing \<Rightarrow> FusionMode" where
  "FusionRing_mode f = (if fr_mode f = 0 then Direct else BatchMode)"

definition FusionRing_pending :: "FusionRing \<Rightarrow> nat" where
  "FusionRing_pending f = SpscRing_len_approx (fr_inner f) + bb_count (fr_batch f)"

section \<open>What the buffer holds\<close>

definition entry_msg :: "BatchEntry \<Rightarrow> MsgFlags \<times> u8 list" where
  "entry_msg e = (be_flags e, take (unat (be_len e)) (be_data e))"

definition batch_holds :: "BatchBuffer \<Rightarrow> (MsgFlags \<times> u8 list) list \<Rightarrow> bool" where
  "batch_holds b ms =
    (length (bb_entries b) = MAX_BATCH_SIZE \<and> bb_count b \<le> MAX_BATCH_SIZE \<and> (\<forall>e \<in> set (bb_entries b). length (be_data e) = 512)
     \<and> map entry_msg (take (bb_count b) (bb_entries b)) = ms)"

lemma batch_new_holds: "batch_holds BatchBuffer_new []"
  by (simp add: batch_holds_def BatchBuffer_new_def BatchEntry_zeroed_def)

lemma batch_holds_length: "batch_holds b ms \<Longrightarrow> length ms = bb_count b"
  by (auto simp: batch_holds_def)

lemma add_holds:
  assumes "batch_holds b ms" "BatchBuffer_add b src flags tick = (fl, b')"
  shows "batch_holds b' (if length ms < 32 then ms @ [(flags, take 512 src)] else ms)"
proof (cases "bb_count b < MAX_BATCH_SIZE")
  case True
  define n where "n = bb_count b"
  define es where "es = bb_entries b"
  define e where "e = (es ! n)\<lparr>be_flags := flags, be_len := of_nat (min (length src) 512), be_data := copy_to (take 512 src) (be_data (es ! n))\<rparr>"
  have b: "length es = 32" "n < 32" "\<forall>e \<in> set es. length (be_data e) = 512" "map entry_msg (take n es) = ms"
    using assms(1) True by (simp_all add: batch_holds_def n_def es_def)
  then have d: "length (be_data (es ! n)) = 512" by simp
  have t512: "take (min (length src) 512) src = take 512 src" by (simp add: min_def)
  have "bb_entries b' = es[n := e] \<and> bb_count b' = Suc n"
    using assms(2) True t512 by (cases "bb_count b = 0") (auto simp: BatchBuffer_add_def Let_def n_def es_def e_def)
  moreover have "entry_msg e = (flags, take 512 src)"
    by (simp add: entry_msg_def e_def unat_of_nat take_bit_nat_eq_self copy_to_def min_def)
  moreover have "length (be_data e) = 512" using d by (simp add: e_def)
  then have "\<forall>e \<in> set (es[n := e]). length (be_data e) = 512" using b(3) set_update_subset_insert [of es n e] by auto
  moreover have "length ms = n" using b by auto
  ultimately show ?thesis using b by (simp add: batch_holds_def take_Suc_conv_app_nth)
next
  case False
  then have "bb_count b = 32" using assms(1) by (simp add: batch_holds_def)
  then have "b' = b" "length ms = 32" using assms batch_holds_length by (auto simp: BatchBuffer_add_def Let_def)
  then show ?thesis using assms(1) by simp
qed

lemma shift_entries:
  assumes "0 < d" "d + k \<le> length es"
  shows "fold (\<lambda>i es. es[i := es ! (d + i)]) [0..<k] es = take k (drop d es) @ drop k es"
  using assms
proof (induction k)
  case (Suc k)
  have "fold (\<lambda>i es. es[i := es ! (d + i)]) [0..<Suc k] es = (take k (drop d es) @ drop k es)[k := (take k (drop d es) @ drop k es) ! (d + k)]"
    using Suc by simp
  also have "\<dots> = take k (drop d es) @ (drop k es)[0 := es ! (d + k)]"
    using Suc.prems by (simp add: nth_append list_update_append add.commute)
  also have "\<dots> = take (Suc k) (drop d es) @ drop (Suc k) es"
    using Suc.prems take_Suc_conv_app_nth [of k "drop d es"] Cons_nth_drop_Suc [of k es, symmetric] by simp
  finally show ?case .
qed simp

section \<open>Flushing\<close>

abbreviation msg_of :: "message \<Rightarrow> MsgFlags \<times> u8 list" where
  "msg_of \<equiv> \<lambda>(h, bs). (hdr_flags h, bs)"

lemma flush_loop_ok:
  assumes "spsc_stores r xs"
  shows "\<exists>k r' c' ys. flush_loop es r c sent = (sent + k, r', c') \<and> spsc_stores r' (xs @ ys) \<and> k \<le> length es
    \<and> map msg_of ys = map entry_msg (take k es)
    \<and> (k < length es \<longrightarrow> length (xs @ ys) = 16 \<or> length (snd (entry_msg (es ! k))) > 240)"
  using assms
proof (induction es arbitrary: r xs c sent)
  case Nil
  then show ?case by (intro exI [of _ 0] exI [of _ r] exI [of _ c] exI [of _ "[]"]) simp
next
  case (Cons e es)
  define data where "data = snd (entry_msg e)"
  have d: "data = take (unat (be_len e)) (be_data e)" "entry_msg e = (be_flags e, data)" by (simp_all add: data_def entry_msg_def)
  have le: "length xs \<le> 16" using spsc_tests(3) [OF Cons.prems] by simp
  show ?case
  proof (cases "length data \<le> 240 \<and> length xs < 16")
    case True
    define m where "m = (MessageHeader_new_inline c (be_flags e) (length data), data)"
    obtain r1 where r1: "SpscRing_push_copy r c data (be_flags e) = (Ok c, r1, c + 1)" "spsc_stores r1 (xs @ [m])"
      using push_copy_cases(3) [OF Cons.prems, of data c "be_flags e"] True by (auto simp: m_def)
    obtain k r' c' ys where ih: "flush_loop es r1 (c + 1) (sent + 1) = (sent + 1 + k, r', c')" "spsc_stores r' ((xs @ [m]) @ ys)"
        "k \<le> length es" "map msg_of ys = map entry_msg (take k es)"
        "k < length es \<longrightarrow> length ((xs @ [m]) @ ys) = 16 \<or> length (snd (entry_msg (es ! k))) > 240"
      using Cons.IH [OF r1(2), of "c + 1" "sent + 1"] by blast
    have "flush_loop (e # es) r c sent = (sent + Suc k, r', c')" using r1(1) ih(1) d(1) by simp
    then show ?thesis using ih d(2)
      by (intro exI [of _ "Suc k"] exI [of _ r'] exI [of _ c'] exI [of _ "m # ys"]) (simp add: m_def MessageHeader_new_inline_def)
  next
    case False
    then have "\<exists>err. SpscRing_push_copy r c data (be_flags e) = (Err err, r, c)"
      using push_copy_cases(1,2) [OF Cons.prems, of data c "be_flags e"] le by (cases "length data > 240") auto
    then have "flush_loop (e # es) r c sent = (sent + 0, r, c)" using d(1) by auto
    then show ?thesis using Cons.prems False d(2) le
      by (intro exI [of _ 0] exI [of _ r] exI [of _ c] exI [of _ "[]"]) auto
  qed
qed

lemma flush_ok:
  assumes s: "spsc_stores r xs" and b: "batch_holds b ms"
  shows "\<exists>k b' r' c' ys. BatchBuffer_flush_to_ring b r c = (k, b', r', c') \<and> spsc_stores r' (xs @ ys) \<and> batch_holds b' (drop k ms)
    \<and> k \<le> length ms \<and> map msg_of ys = take k ms \<and> (k < length ms \<longrightarrow> length xs + k = 16 \<or> length (snd (ms ! k)) > 240)"
proof -
  define n where "n = bb_count b"
  define es where "es = bb_entries b"
  have eb: "length es = 32" "n \<le> 32" "\<forall>e \<in> set es. length (be_data e) = 512" "map entry_msg (take n es) = ms" "length ms = n"
    using b batch_holds_length [OF b] by (simp_all add: batch_holds_def n_def es_def)
  obtain k r' c' ys where f: "flush_loop (take n es) r c 0 = (k, r', c')" "spsc_stores r' (xs @ ys)" "k \<le> n"
      "map msg_of ys = map entry_msg (take k (take n es))"
      "k < n \<longrightarrow> length (xs @ ys) = 16 \<or> length (snd (entry_msg (take n es ! k))) > 240"
    using flush_loop_ok [OF s, of "take n es" c 0] eb(1,2) by auto
  have ys: "map msg_of ys = take k ms" unfolding f(4) eb(4) [symmetric] by (rule take_map [symmetric])
  have "length (map msg_of ys) = k" unfolding ys using f(3) eb(5) by simp
  then have ly: "length ys = k" by simp
  define es' where "es' = (if 0 < k \<and> k < n then fold (\<lambda>i es. es[i := es ! (k + i)]) [0..<n - k] es else es)"
  have e': "es' = (if 0 < k \<and> k < n then take (n - k) (drop k es) @ drop (n - k) es else es)"
    using shift_entries [of k "n - k" es] f(3) eb(1,2) by (simp add: es'_def)
  define b' where "b' = b\<lparr>bb_entries := es', bb_count := n - k, bb_expire_tick := (if n - k = 0 then 0 else bb_expire_tick b)\<rparr>"
  have fl: "BatchBuffer_flush_to_ring b r c = (k, b', r', c')"
    using f(1) by (auto simp: BatchBuffer_flush_to_ring_def Let_def b'_def es'_def n_def es_def)
  have "take (n - k) es' = drop k (take n es)" using e' f(3) eb(1,2) by (auto simp: take_drop)
  moreover have "set es' \<subseteq> set es" using set_take_subset [of "n - k" "drop k es"] set_drop_subset [of k es] set_drop_subset [of "n - k" es] by (auto simp: e')
  moreover have "length es' = 32" using eb(1,2) f(3) by (auto simp: e')
  ultimately have "batch_holds b' (drop k ms)" using eb f(3) by (auto simp: batch_holds_def b'_def drop_map)
  moreover have "k < length ms \<longrightarrow> length xs + k = 16 \<or> length (snd (ms ! k)) > 240" using f(5) ly eb by auto
  ultimately show ?thesis using fl f(2,3) ys eb(5) by blast
qed

section \<open>The adaptive ring\<close>

text \<open>The messages in the ring, oldest first, and those still in the producer's buffer.\<close>

definition fusion_holds :: "FusionRing \<Rightarrow> (MsgFlags \<times> u8 list) list \<Rightarrow> (MsgFlags \<times> u8 list) list \<Rightarrow> bool" where
  "fusion_holds f R B = ((\<exists>xs. spsc_stores (fr_inner f) xs \<and> map msg_of xs = R) \<and> batch_holds (fr_batch f) B)"

definition counted :: "FusionRing \<Rightarrow> FusionMetrics" where
  "counted f = (fr_metrics f)\<lparr>fm_msgs_since_last := fm_msgs_since_last (fr_metrics f) + 1\<rparr>"

lemma fusion_init_holds:
  "length (slot_payload uninit) = MAX_MSG_SIZE \<Longrightarrow> fusion_holds (FusionRing_init (FusionRing_new uninit)) [] []"
  using spsc_init_stores [of uninit] batch_new_holds by (simp add: fusion_holds_def FusionRing_init_def FusionRing_new_def)

text \<open>A tick changes the mode but sends nothing.\<close>

lemma tick_keeps: "fusion_holds f R B \<Longrightarrow> fusion_holds (FusionRing_tick f t) R B"
  by (simp add: fusion_holds_def FusionRing_tick_def FusionRing_adapt_mode_def Let_def)

lemma recv_pops:
  assumes "fusion_holds f (m # R) B" "length (snd m) \<le> length dst"
  shows "\<exists>f'. FusionRing_recv f dst = (Ok (length (snd m), fst m), copy_to (snd m) dst, f') \<and> fusion_holds f' R B"
proof -
  obtain h bs xs where x: "spsc_stores (fr_inner f) ((h, bs) # xs)" "m = (hdr_flags h, bs)" "map msg_of xs = R"
    using assms(1) by (auto simp: fusion_holds_def map_eq_Cons_conv)
  show ?thesis using pop_into_cases(2) [OF x(1), of dst] assms x
    by (auto simp: FusionRing_recv_def fusion_holds_def)
qed

text \<open>An entry of more than 240 bytes at the head of the buffer is never sent.\<close>

lemma oversized_entry_blocks:
  assumes "fusion_holds f R (m # B)" "length (snd m) > 240"
  shows "\<exists>f'. FusionRing_flush f c = (0, f', c) \<and> fusion_holds f' R (m # B)"
proof -
  have b: "batch_holds (fr_batch f) (m # B)" using assms(1) by (simp add: fusion_holds_def)
  then obtain e es where e: "take (bb_count (fr_batch f)) (bb_entries (fr_batch f)) = e # es" "entry_msg e = m" "bb_count (fr_batch f) > 0"
    using batch_holds_length [OF b] by (auto simp: batch_holds_def map_eq_Cons_conv)
  have "length (take (unat (be_len e)) (be_data e)) > MAX_MSG_SIZE" using e(2) assms(2) by (auto simp: entry_msg_def)
  then have "flush_loop (e # es) (fr_inner f) c 0 = (0, fr_inner f, c)" by (simp add: SpscRing_push_copy_def Let_def)
  then have "BatchBuffer_flush_to_ring (fr_batch f) (fr_inner f) c = (0, fr_batch f, fr_inner f, c)"
    using e(1,3) by (simp add: BatchBuffer_flush_to_ring_def)
  then show ?thesis using assms(1) e(3) by (simp add: FusionRing_flush_def)
qed

lemma fusion_holds_push:
  assumes "spsc_stores r (xs @ ys)" "map msg_of xs = R" "map msg_of ys = Y" "batch_holds (fr_batch f) B" "fr_inner f = r"
  shows "fusion_holds f (R @ Y) B"
  using assms unfolding fusion_holds_def by (metis map_append)

lemma send_direct:
  assumes h: "fusion_holds f R B" and m: "fr_mode f = 0"
  shows "\<exists>f' c'. FusionRing_send f c src flags =
        (if length src > 240 then Err MessageTooLarge else if length R = 16 then Err QueueFull else Ok (), f', c')
    \<and> fr_mode f' = fr_mode f \<and> fr_metrics f' = counted f
    \<and> fusion_holds f' (if length src \<le> 240 \<and> length R < 16 then R @ [(flags, src)] else R) B"
proof -
  obtain xs where xs: "spsc_stores (fr_inner f) xs" "map msg_of xs = R" and b: "batch_holds (fr_batch f) B"
    using h by (auto simp: fusion_holds_def)
  have lR: "length R = length xs" "length xs \<le> 16" using xs(2) spsc_tests(3) [OF xs(1)] by auto
  define f0 where "f0 = f\<lparr>fr_metrics := counted f\<rparr>"
  show ?thesis
  proof (cases "length src \<le> 240 \<and> length xs < 16")
    case ok: True
    then obtain r' where r': "SpscRing_push_copy (fr_inner f) c src flags = (Ok c, r', c + 1)"
        "spsc_stores r' (xs @ [(MessageHeader_new_inline c flags (length src), src)])"
      using push_copy_cases(3) [OF xs(1), of src c flags] by auto
    have "fusion_holds (f0\<lparr>fr_inner := r'\<rparr>) (R @ [(flags, src)]) B"
      by (rule fusion_holds_push [OF r'(2) xs(2)]) (use b in \<open>simp_all add: f0_def MessageHeader_new_inline_def\<close>)
    then show ?thesis using m r'(1) ok lR
      by (intro exI [of _ "f0\<lparr>fr_inner := r'\<rparr>"] exI [of _ "c + 1"]) (simp add: FusionRing_send_def Let_def f0_def counted_def)
  next
    case False
    then show ?thesis using m push_copy_cases(1,2) [OF xs(1), of src c flags] lR h
      by (intro exI [of _ f0] exI [of _ c])
        (cases "length src > 240"; auto simp: FusionRing_send_def Let_def f0_def counted_def fusion_holds_def)
  qed
qed

lemma send_batch:
  fixes f :: FusionRing and B src flags
  assumes h: "fusion_holds f R B" and m: "fr_mode f \<noteq> 0"
  defines "B' \<equiv> if length B < 32 then B @ [(flags, take 512 src)] else B"
    and "due \<equiv> if B = [] then fr_current_tick f + 2 else bb_expire_tick (fr_batch f)"
  shows "\<exists>f' c' k. FusionRing_send f c src flags = (Ok (), f', c') \<and> fr_mode f' = fr_mode f \<and> fr_metrics f' = counted f
    \<and> fusion_holds f' (R @ take k B') (drop k B') \<and> k \<le> length B'
    \<and> (if length B' \<ge> 16 \<or> due \<le> fr_current_tick f then k < length B' \<longrightarrow> length R + k = 16 \<or> length (snd (B' ! k)) > 240 else k = 0)"
proof -
  obtain xs where xs: "spsc_stores (fr_inner f) xs" "map msg_of xs = R" and b: "batch_holds (fr_batch f) B"
    using h by (auto simp: fusion_holds_def)
  obtain fl b1 where a: "BatchBuffer_add (fr_batch f) src flags (fr_current_tick f) = (fl, b1)" by fastforce
  have b1: "batch_holds b1 B'" using add_holds [OF b a] by (simp add: B'_def)
  have "0 < length B'" by (cases "length B < 32") (auto simp: B'_def)
  then have lB: "length B = bb_count (fr_batch f)" "length B' = bb_count b1" "0 < length B'"
    using batch_holds_length [OF b] batch_holds_length [OF b1] by simp_all
  have e: "bb_expire_tick b1 = due" "fl = (length B' \<ge> 16)"
    using a lB by (auto simp: BatchBuffer_add_def Let_def due_def split: if_splits)
  have x: "fl \<or> BatchBuffer_is_expired b1 (fr_current_tick f) \<longleftrightarrow> length B' \<ge> 16 \<or> due \<le> fr_current_tick f"
    using e lB by (auto simp: BatchBuffer_is_expired_def)
  show ?thesis
  proof (cases "length B' \<ge> 16 \<or> due \<le> fr_current_tick f")
    case True
    obtain k b' r' c' ys where k: "BatchBuffer_flush_to_ring b1 (fr_inner f) c = (k, b', r', c')" "spsc_stores r' (xs @ ys)"
        "batch_holds b' (drop k B')" "k \<le> length B'" "map msg_of ys = take k B'"
        "k < length B' \<longrightarrow> length xs + k = 16 \<or> length (snd (B' ! k)) > 240"
      using flush_ok [OF xs(1) b1, of c] by blast
    define f' where "f' = f\<lparr>fr_metrics := counted f, fr_batch := b', fr_inner := r'\<rparr>"
    have "fusion_holds f' (R @ take k B') (drop k B')"
      by (rule fusion_holds_push [OF k(2) xs(2) k(5)]) (use k(3) in \<open>simp_all add: f'_def\<close>)
    moreover have "FusionRing_send f c src flags = (Ok (), f', c')"
      using m a x True k(1) by (simp add: FusionRing_send_def Let_def counted_def f'_def)
    moreover have "length R = length xs" using xs(2) by auto
    ultimately show ?thesis using True k(4,6) by (intro exI [of _ f'] exI [of _ c'] exI [of _ k]) (simp add: f'_def)
  next
    case False
    then show ?thesis using m x a b1 xs
      by (intro exI [of _ "f\<lparr>fr_metrics := counted f, fr_batch := b1\<rparr>"] exI [of _ c] exI [of _ 0])
        (auto simp: FusionRing_send_def Let_def counted_def fusion_holds_def)
  qed
qed

section \<open>Properties\<close>

text \<open>
  C24: Where a message sent through the adaptive ring goes.  In direct mode it goes to the end of the
  ring, with the errors of the ring; messages still waiting in the batch buffer stay there, so it
  overtakes them.  In batch mode the call always succeeds: the message, cut at 512 bytes, goes behind
  the buffered ones unless 32 are buffered already, in which case it is lost; when 16 are buffered or
  the delay has expired the buffer is flushed in order, until the ring is full or an entry of more than
  240 bytes is met.  Nothing else is lost, duplicated or reordered.
\<close>

theorem fusion_send_order:
  fixes f :: FusionRing and B src flags
  assumes h: "fusion_holds f R B"
  defines "B' \<equiv> if length B < 32 then B @ [(flags, take 512 src)] else B"
    and "due \<equiv> if B = [] then fr_current_tick f + 2 else bb_expire_tick (fr_batch f)"
  shows "\<exists>f' c' k. FusionRing_send f c src flags =
        (if fr_mode f \<noteq> 0 then Ok () else if length src > 240 then Err MessageTooLarge else if length R = 16 then Err QueueFull else Ok (), f', c')
    \<and> fr_mode f' = fr_mode f \<and> fr_metrics f' = counted f
    \<and> (fr_mode f = 0 \<longrightarrow> fusion_holds f' (if length src \<le> 240 \<and> length R < 16 then R @ [(flags, src)] else R) B)
    \<and> (fr_mode f \<noteq> 0 \<longrightarrow> fusion_holds f' (R @ take k B') (drop k B') \<and> k \<le> length B'
        \<and> (if length B' \<ge> 16 \<or> due \<le> fr_current_tick f then k < length B' \<longrightarrow> length R + k = 16 \<or> length (snd (B' ! k)) > 240 else k = 0))"
proof (cases "fr_mode f = 0")
  case True
  then show ?thesis using send_direct [OF h True, of c src flags] by auto
next
  case False
  show ?thesis using send_batch [OF h False, where c = c and flags = flags and src = src] False unfolding B'_def due_def by (simp only: if_True simp_thms)
qed

definition sample_fusion :: FusionRing where
  "sample_fusion = (FusionRing_init (FusionRing_new RingSlot_zeroed))\<lparr>fr_mode := 1\<rparr>"

theorem fusion_send_order_witness:
  "\<exists>f1 c1 f2 c2. FusionRing_send sample_fusion 1 [1] 0 = (Ok (), f1, c1)
    \<and> FusionRing_send (FusionRing_tick f1 1) c1 [2] 0 = (Ok (), f2, c2) \<and> fusion_holds f2 [(0, [2])] [(0, [1])]"
proof -
  have h: "fusion_holds sample_fusion [] []"
    using fusion_init_holds [of RingSlot_zeroed] by (simp add: sample_fusion_def fusion_holds_def RingSlot_zeroed_def)
  have s: "fr_mode sample_fusion = 1" "fr_current_tick sample_fusion = 0" "fr_metrics sample_fusion = FusionMetrics_new"
    by (simp_all add: sample_fusion_def FusionRing_init_def FusionRing_new_def)
  obtain f1 c1 where f1: "FusionRing_send sample_fusion 1 [1] 0 = (Ok (), f1, c1)" "fr_mode f1 = 1"
      "fr_metrics f1 = counted sample_fusion" "fusion_holds f1 [] [(0, [1])]"
    using fusion_send_order [OF h, of 1 "[1]" 0] s by auto
  have one: "min 1 (ucast u32_MAX) = (1 :: u64)" by code_simp
  define g where "g = FusionRing_tick f1 1"
  have g: "fusion_holds g [] [(0, [1])]" "fr_mode g = 0"
    using tick_keeps [OF f1(4), of 1] f1(2,3) s(3)
    by (simp_all add: g_def FusionRing_tick_def FusionRing_adapt_mode_def FusionMetrics_update_def FusionMetrics_new_def counted_def Let_def one)
  obtain f2 c2 where "FusionRing_send g c1 [2] 0 = (Ok (), f2, c2)" "fusion_holds f2 [(0, [2])] [(0, [1])]"
    using fusion_send_order [OF g(1), of c1 "[2]" 0] g(2) by auto
  then show ?thesis using f1(1) by (auto simp: g_def)
qed

end
