(* ===== verification/Ipc_Sequence.thy ===== *)
theory Ipc_Sequence
  imports Ipc_Core
begin

text \<open>
  The sequence numbers of a channel, \<open>kernel/src/ipc/core/sequence.rs\<close>: the sender's counter and the
  receiver's window.  The shift by \<open>gap - 1\<close> is that of the release profile, which takes the distance
  modulo 64.
\<close>

section \<open>Definitions\<close>

record SeqSender =
  ss_next_seq :: u64

definition SeqSender_new :: SeqSender where
  "SeqSender_new = \<lparr>ss_next_seq = 1\<rparr>"

definition SeqSender_next :: "SeqSender \<Rightarrow> u64 \<times> SeqSender" where
  "SeqSender_next s = (ss_next_seq s, s\<lparr>ss_next_seq := ss_next_seq s + 1\<rparr>)"

definition SeqSender_current :: "SeqSender \<Rightarrow> u64" where
  "SeqSender_current s = ss_next_seq s"

datatype SeqCheck = InOrder | Future u64 | Duplicate | TooOld

record SeqReceiver =
  sr_expected :: u64
  sr_window :: u64
  sr_out_of_order_count :: u64
  sr_duplicate_count :: u64

definition SeqReceiver_new :: SeqReceiver where
  "SeqReceiver_new = \<lparr>sr_expected = 1, sr_window = 0, sr_out_of_order_count = 0, sr_duplicate_count = 0\<rparr>"

function advance_window :: "u64 \<Rightarrow> u64 \<Rightarrow> u64 \<times> u64" where
  "advance_window win new_expected =
    (if win AND 1 \<noteq> 0 then advance_window (drop_bit 1 win) (new_expected + 1) else (win, new_expected))"
  by auto

lemma and_one_iff: "win AND 1 \<noteq> (0 :: u64) \<longleftrightarrow> bit win 0"
  using and_push_bit_0_iff [of win 0] by simp

lemma drop_bit_less: "win AND 1 \<noteq> 0 \<Longrightarrow> unat (drop_bit 1 (win :: u64)) < unat win"
proof -
  assume "win AND 1 \<noteq> 0"
  then have "0 < unat win" by (cases "win = 0") (auto simp: unat_gt_0)
  moreover have "unat (drop_bit 1 win) = unat win div 2" unfolding unsigned_drop_bit_eq using take_bit_nat_eq_self [of "unat win" 64] unat_less_2p [of win] by (simp add: drop_bit_eq_div)
  ultimately show ?thesis by simp
qed

termination advance_window
  by (relation "measure (\<lambda>(win, e). unat win)") (use drop_bit_less in auto)

declare advance_window.simps [simp del]

definition SeqReceiver_check_and_advance :: "SeqReceiver \<Rightarrow> u64 \<Rightarrow> SeqCheck \<times> SeqReceiver" where
  "SeqReceiver_check_and_advance r s =
    (let expected = sr_expected r in
     if s = expected then
       (case advance_window (sr_window r) (expected + 1) of
          (win, new_expected) \<Rightarrow> (InOrder, r\<lparr>sr_window := win, sr_expected := new_expected\<rparr>))
     else if s > expected then
       let gap = s - expected in
       if gap \<ge> SEQ_WINDOW_SIZE then (Future gap, r)
       else
         let sbit = push_bit (unat (gap - 1) mod 64) 1; win = sr_window r; r = r\<lparr>sr_window := win OR sbit\<rparr> in
         if win AND sbit \<noteq> 0 then (Duplicate, r\<lparr>sr_duplicate_count := sr_duplicate_count r + 1\<rparr>)
         else (Future gap, r\<lparr>sr_out_of_order_count := sr_out_of_order_count r + 1\<rparr>)
     else (TooOld, r))"

definition SeqReceiver_reset :: "SeqReceiver \<Rightarrow> u64 \<Rightarrow> SeqReceiver" where
  "SeqReceiver_reset r start_seq =
    r\<lparr>sr_expected := start_seq, sr_window := 0, sr_out_of_order_count := 0, sr_duplicate_count := 0\<rparr>"

record SeqPair =
  sp_sender :: SeqSender
  sp_receiver :: SeqReceiver

definition SeqPair_new :: SeqPair where
  "SeqPair_new = \<lparr>sp_sender = SeqSender_new, sp_receiver = SeqReceiver_new\<rparr>"

section \<open>Lemmas\<close>

lemma advance_zero [simp]: "advance_window 0 e = (0, e)"
  by (subst advance_window.simps) simp

lemma advance_bit:
  assumes "k < 64"
  shows "advance_window (push_bit k 1) e = (if k = 0 then (0, e + 1) else (push_bit k 1, e))"
proof (cases "k = 0")
  case True
  then show ?thesis by (subst advance_window.simps) simp
next
  case False
  then have "\<not> bit (push_bit k 1 :: u64) 0" by (simp only: bit_push_bit_iff) simp
  then show ?thesis using False by (subst advance_window.simps) (simp add: and_one_iff)
qed

text \<open>Whatever the window holds, the loop moves the expected number by the run of low bits and drops them.\<close>

lemma advance_run:
  "\<exists>n. advance_window w e = (drop_bit n w, e + of_nat n) \<and> (\<forall>i < n. bit w i) \<and> \<not> bit w n"
proof (induction w e rule: advance_window.induct)
  case (1 w e)
  show ?case
  proof (cases "bit w 0")
    case True
    then obtain n where n: "advance_window (drop_bit 1 w) (e + 1) = (drop_bit n (drop_bit 1 w), e + 1 + of_nat n)"
        "\<forall>i < n. bit (drop_bit 1 w) i" "\<not> bit (drop_bit 1 w) n"
      using 1 by (auto simp: and_one_iff)
    have "\<forall>i < Suc n. bit w i" using n(2) True by (auto simp: bit_drop_bit_eq less_Suc_eq_0_disj)
    moreover have "advance_window w e = (drop_bit (Suc n) w, e + of_nat (Suc n))"
      using n(1) True by (subst advance_window.simps) (simp add: and_one_iff)
    ultimately show ?thesis using n(3) by (intro exI [of _ "Suc n"]) (simp add: bit_drop_bit_eq)
  next
    case False
    then show ?thesis by (intro exI [of _ 0]) (subst advance_window.simps, simp add: and_one_iff)
  qed
qed

lemma check_in_order:
  "sr_window r = 0 \<Longrightarrow> SeqReceiver_check_and_advance r (sr_expected r) = (InOrder, r\<lparr>sr_expected := sr_expected r + 1\<rparr>)"
  by (simp add: SeqReceiver_check_and_advance_def)

text \<open>The answer to a number ahead of the expected one by less than the window.\<close>

lemma check_ahead:
  assumes "0 < g" "g < 128" "unat (sr_expected r) + g < 2 ^ 64"
  defines "k \<equiv> (g - 1) mod 64"
  shows "SeqReceiver_check_and_advance r (sr_expected r + of_nat g) =
    (if bit (sr_window r) k
     then (Duplicate, r\<lparr>sr_window := sr_window r OR push_bit k 1, sr_duplicate_count := sr_duplicate_count r + 1\<rparr>)
     else (Future (of_nat g), r\<lparr>sr_window := sr_window r OR push_bit k 1, sr_out_of_order_count := sr_out_of_order_count r + 1\<rparr>))"
proof -
  have u: "unat (of_nat g :: u64) = g" "unat (sr_expected r + of_nat g) = unat (sr_expected r) + g"
    using assms by (simp_all add: unat_of_nat take_bit_nat_eq_self unat_word_ariths)
  then have "sr_expected r < sr_expected r + of_nat g" using assms(1) by (simp add: word_less_nat_alt)
  moreover have "\<not> SEQ_WINDOW_SIZE \<le> (of_nat g :: u64)" using u(1) assms(2) by (simp add: word_le_nat_alt)
  moreover have "unat (of_nat g - 1 :: u64) = g - 1" using u(1) assms(1) unat_sub [of 1 "of_nat g :: u64"] by (simp add: word_le_nat_alt)
  moreover have "(of_nat g :: u64) \<noteq> 0" using u(1) assms(1) by auto
  ultimately show ?thesis
    by (simp add: SeqReceiver_check_and_advance_def Let_def k_def and_push_bit_0_iff del: push_bit_of_1)
qed

lemma check_repeat:
  assumes "s = sr_expected r + of_nat g" "0 < g" "g < 128" "unat (sr_expected r) + g < 2 ^ 64" "bit (sr_window r) ((g - 1) mod 64)"
  shows "fst (SeqReceiver_check_and_advance r s) = Duplicate"
  using check_ahead [OF assms(2-4)] assms(1,5) by simp

section \<open>Properties\<close>



end
