(* ===== verification/Ipc_Mpmc.thy ===== *)
theory Ipc_Mpmc
  imports Ipc_Ring
begin

text \<open>
  The ring shared by several producers and consumers, \<open>kernel/src/ipc/ring/mpmc.rs\<close>.  Any number of
  threads run \<open>push_copy\<close> and \<open>pop_into\<close> at the same time; a step of a thread is one access to the
  shared memory, and any thread may take the next step.  Atomic accesses are sequentially consistent.
  The access to the payload of a cell is one step too; the exclusion property below is what makes this
  sound.  A weak compare-and-exchange may fail without cause.
\<close>

section \<open>Definitions\<close>

record MpmcRing =
  mp_head :: u64
  mp_tail :: u64
  mp_cells :: "nat \<Rightarrow> SlotCell"

definition MpmcRing_new_uninit :: "RingSlot \<Rightarrow> MpmcRing" where
  "MpmcRing_new_uninit uninit = \<lparr>mp_head = 0, mp_tail = 0, mp_cells = (\<lambda>i. SlotCell_new_at uninit 0)\<rparr>"

definition MpmcRing_init :: "MpmcRing \<Rightarrow> MpmcRing" where
  "MpmcRing_init r = r\<lparr>mp_head := 0, mp_tail := 0,
     mp_cells := (\<lambda>i. if i < RING_SIZE then (mp_cells r i)\<lparr>cell_sequence := of_nat i\<rparr> else mp_cells r i)\<rparr>"

definition MpmcRing_is_empty_approx :: "MpmcRing \<Rightarrow> bool" where
  "MpmcRing_is_empty_approx r = (mp_head r = mp_tail r)"

definition MpmcRing_len_approx :: "MpmcRing \<Rightarrow> nat" where
  "MpmcRing_len_approx r = unat (mp_head r - mp_tail r)"

subsection \<open>The program of a thread\<close>

text \<open>
  Where a thread stands: before the load of the cursor, before the load of the sequence number, before
  the compare-and-exchange, before the access to the slot, before the store of the sequence number, or
  returned.
\<close>

datatype mpmc_thread =
    NotStarted
  | PushLoad "u8 list" MsgFlags
  | PushSeq "u8 list" MsgFlags u64
  | PushCas "u8 list" MsgFlags u64
  | PushWrite "u8 list" MsgFlags u64
  | PushCommit "u8 list" MsgFlags u64 MessageId
  | PushReturned "(IpcError, MessageId) result"
  | PopLoad "u8 list"
  | PopSeq "u8 list" u64
  | PopCas "u8 list" u64
  | PopRead "u8 list" u64
  | PopRelease u64 "(IpcError, nat \<times> MsgFlags) result" "u8 list"
  | PopReturned "(IpcError, nat \<times> MsgFlags) result" "u8 list"

definition push_start :: "u8 list \<Rightarrow> MsgFlags \<Rightarrow> mpmc_thread" where
  "push_start src flags = (if length src > MAX_MSG_SIZE then PushReturned (Err MessageTooLarge) else PushLoad src flags)"

definition pop_start :: "u8 list \<Rightarrow> mpmc_thread" where
  "pop_start dst = PopLoad dst"

abbreviation seq_put :: "MpmcRing \<Rightarrow> u64 \<Rightarrow> u64 \<Rightarrow> MpmcRing" where
  "seq_put r pos s \<equiv> r\<lparr>mp_cells := (mp_cells r)(cell_at pos := (mp_cells r (cell_at pos))\<lparr>cell_sequence := s\<rparr>)\<rparr>"

text \<open>One step of a thread on the ring and the message counter; \<open>weak\<close> makes the exchange fail.\<close>

fun mpmc_thread_step :: "bool \<Rightarrow> mpmc_thread \<Rightarrow> MpmcRing \<Rightarrow> u64 \<Rightarrow> mpmc_thread \<times> MpmcRing \<times> u64" where
  "mpmc_thread_step weak (PushLoad src flags) r c = (PushSeq src flags (mp_head r), r, c)"
| "mpmc_thread_step weak (PushSeq src flags pos) r c =
    (let seq = cell_sequence (mp_cells r (cell_at pos)); diff = sint (seq - pos) in
     if diff < 0 then (PushReturned (Err QueueFull), r, c)
     else if diff \<noteq> 0 then (PushLoad src flags, r, c)
     else (PushCas src flags pos, r, c))"
| "mpmc_thread_step weak (PushCas src flags pos) r c =
    (if mp_head r = pos \<and> \<not> weak then (PushWrite src flags pos, r\<lparr>mp_head := pos + 1\<rparr>, c) else (PushLoad src flags, r, c))"
| "mpmc_thread_step weak (PushWrite src flags pos) r c =
    (case alloc_message_id c of (mid, c) \<Rightarrow>
       let cell = mp_cells r (cell_at pos);
           slot = (cell_slot cell)\<lparr>slot_header := MessageHeader_new_inline mid flags (length src),
                    slot_payload := copy_to src (slot_payload (cell_slot cell))\<rparr>
       in (PushCommit src flags pos mid, r\<lparr>mp_cells := (mp_cells r)(cell_at pos := cell\<lparr>cell_slot := slot\<rparr>)\<rparr>, c))"
| "mpmc_thread_step weak (PushCommit src flags pos mid) r c = (PushReturned (Ok mid), seq_put r pos (pos + 1), c)"
| "mpmc_thread_step weak (PopLoad dst) r c = (PopSeq dst (mp_tail r), r, c)"
| "mpmc_thread_step weak (PopSeq dst pos) r c =
    (let seq = cell_sequence (mp_cells r (cell_at pos)); diff = sint (seq - (pos + 1)) in
     if diff < 0 then (PopReturned (Err QueueEmpty) dst, r, c)
     else if diff \<noteq> 0 then (PopLoad dst, r, c)
     else (PopCas dst pos, r, c))"
| "mpmc_thread_step weak (PopCas dst pos) r c =
    (if mp_tail r = pos \<and> \<not> weak then (PopRead dst pos, r\<lparr>mp_tail := pos + 1\<rparr>, c) else (PopLoad dst, r, c))"
| "mpmc_thread_step weak (PopRead dst pos) r c =
    (let slot = cell_slot (mp_cells r (cell_at pos)); ln = unat (hdr_len (slot_header slot)); flags = hdr_flags (slot_header slot) in
     if ln > length dst then (PopRelease pos (Err MessageTooLarge) dst, r, c)
     else (PopRelease pos (Ok (ln, flags)) (copy_to (take ln (slot_payload slot)) dst), r, c))"
| "mpmc_thread_step weak (PopRelease pos res dst) r c = (PopReturned res dst, seq_put r pos (pos + of_nat RING_SIZE), c)"
| "mpmc_thread_step weak NotStarted r c = (NotStarted, r, c)"
| "mpmc_thread_step weak (PushReturned res) r c = (PushReturned res, r, c)"
| "mpmc_thread_step weak (PopReturned res dst) r c = (PopReturned res dst, r, c)"

subsection \<open>The system\<close>

text \<open>
  The system with its history: the messages in the order in which producers reserved their positions,
  the number of positions consumers reserved, and what consumers read from which position.
\<close>

type_synonym payload = "MsgFlags \<times> u8 list"

record Mpmc =
  mp_ring :: MpmcRing
  mp_ids :: u64
  mp_threads :: "nat \<Rightarrow> mpmc_thread"
  mp_sent :: "payload list"
  mp_taken :: nat
  mp_log :: "(nat \<times> payload) list"

definition slot_msg :: "RingSlot \<Rightarrow> payload" where
  "slot_msg slot = (hdr_flags (slot_header slot), take (unat (hdr_len (slot_header slot))) (slot_payload slot))"

definition note_history :: "Mpmc \<Rightarrow> mpmc_thread \<Rightarrow> mpmc_thread \<Rightarrow> Mpmc \<Rightarrow> Mpmc" where
  "note_history s th th' s' =
    (case (th, th') of
       (PushCas src flags pos, PushWrite _ _ _) \<Rightarrow> s'\<lparr>mp_sent := mp_sent s @ [(flags, src)]\<rparr>
     | (PopCas _ _, PopRead _ _) \<Rightarrow> s'\<lparr>mp_taken := mp_taken s + 1\<rparr>
     | (PopRead _ pos, _) \<Rightarrow> s'\<lparr>mp_log := mp_log s @ [(unat pos, slot_msg (cell_slot (mp_cells (mp_ring s) (cell_at pos))))]\<rparr>
     | _ \<Rightarrow> s')"

definition mpmc_move :: "bool \<Rightarrow> nat \<Rightarrow> Mpmc \<Rightarrow> Mpmc" where
  "mpmc_move weak i s =
    (case mpmc_thread_step weak (mp_threads s i) (mp_ring s) (mp_ids s) of
       (th', r, c) \<Rightarrow> note_history s (mp_threads s i) th' (s\<lparr>mp_ring := r, mp_ids := c, mp_threads := (mp_threads s)(i := th')\<rparr>))"

fun returned :: "mpmc_thread \<Rightarrow> bool" where
  "returned NotStarted = True"
| "returned (PushReturned res) = True"
| "returned (PopReturned res dst) = True"
| "returned _ = False"

inductive mpmc_step :: "Mpmc \<Rightarrow> Mpmc \<Rightarrow> bool" where
  call_push: "returned (mp_threads s i) \<Longrightarrow> mpmc_step s (s\<lparr>mp_threads := (mp_threads s)(i := push_start src flags)\<rparr>)"
| call_pop: "returned (mp_threads s i) \<Longrightarrow> mpmc_step s (s\<lparr>mp_threads := (mp_threads s)(i := pop_start dst)\<rparr>)"
| move: "mpmc_step s (mpmc_move weak i s)"

inductive mpmc_reach :: "Mpmc \<Rightarrow> Mpmc \<Rightarrow> bool" for s0 where
  start: "mpmc_reach s0 s0"
| run: "mpmc_reach s0 s \<Longrightarrow> mpmc_step s s' \<Longrightarrow> mpmc_reach s0 s'"

definition mpmc_boot :: "RingSlot \<Rightarrow> Mpmc" where
  "mpmc_boot uninit = \<lparr>mp_ring = MpmcRing_init (MpmcRing_new_uninit uninit), mp_ids = 1, mp_threads = (\<lambda>i. NotStarted),
     mp_sent = [], mp_taken = 0, mp_log = []\<rparr>"

section \<open>Positions\<close>

lemma cell_at_unat: "cell_at pos = unat pos mod 16"
  using cell_at_of_nat [of "unat pos"] by simp

lemma unat_next: "unat (pos :: u64) < 2 ^ 63 \<Longrightarrow> unat (pos + 1) = unat pos + 1 \<and> unat (pos + 16) = unat pos + 16"
  by (simp add: unat_word_ariths)

lemma sint_negative: "sint (w :: u64) < 0 \<longleftrightarrow> 2 ^ 63 \<le> unat w"
proof -
  have "sint w < 0 \<longleftrightarrow> bit w 63" by (simp add: sint_uint signed_take_bit_negative_iff bit_uint_iff)
  then show ?thesis by (simp only: bit_63_iff)
qed

lemma sint_diff:
  assumes "unat a < 2 ^ 63" "unat b < 2 ^ 63"
  shows "sint (a - b :: u64) < 0 \<longleftrightarrow> unat a < unat b" "sint (a - b) = 0 \<longleftrightarrow> unat a = unat b"
proof -
  have "unat (a - b) = (if unat b \<le> unat a then unat a - unat b else unat a + 2 ^ 64 - unat b)"
    using unat_sub_if' [of a b] by simp
  then show "sint (a - b :: u64) < 0 \<longleftrightarrow> unat a < unat b" using assms unfolding sint_negative by (auto split: if_splits)
  show "sint (a - b) = 0 \<longleftrightarrow> unat a = unat b" by (metis eq_iff_diff_eq_0 signed_0 signed_word_eqI word_unat_eq_iff)
qed

section \<open>The invariant\<close>

fun writes :: "mpmc_thread \<Rightarrow> nat option" where
  "writes (PushWrite src flags pos) = Some (unat pos)"
| "writes (PushCommit src flags pos mid) = Some (unat pos)"
| "writes _ = None"

fun reads :: "mpmc_thread \<Rightarrow> nat option" where
  "reads (PopRead dst pos) = Some (unat pos)"
| "reads (PopRelease pos res dst) = Some (unat pos)"
| "reads _ = None"

fun copies :: "mpmc_thread \<Rightarrow> nat option" where
  "copies (PopRead dst pos) = Some (unat pos)"
| "copies _ = None"

definition seq_of :: "Mpmc \<Rightarrow> nat \<Rightarrow> nat" where
  "seq_of s p = unat (cell_sequence (mp_cells (mp_ring s) (p mod 16)))"

definition slot_of :: "Mpmc \<Rightarrow> nat \<Rightarrow> RingSlot" where
  "slot_of s p = cell_slot (mp_cells (mp_ring s) (p mod 16))"

definition bears :: "RingSlot \<Rightarrow> payload \<Rightarrow> bool" where
  "bears slot m = (hdr_flags (slot_header slot) = fst m \<and> unat (hdr_len (slot_header slot)) = length (snd m)
     \<and> take (length (snd m)) (slot_payload slot) = snd m)"

definition delivered :: "payload \<Rightarrow> (IpcError, nat \<times> MsgFlags) result \<Rightarrow> u8 list \<Rightarrow> bool" where
  "delivered m res buf =
    (case res of Ok (n, flags) \<Rightarrow> flags = fst m \<and> n = length (snd m) \<and> take n buf = snd m
     | Err e \<Rightarrow> e = MessageTooLarge \<and> length (snd m) > length buf)"

definition writer :: "Mpmc \<Rightarrow> nat \<Rightarrow> bool" where
  "writer s p = (\<exists>i. writes (mp_threads s i) = Some p)"

definition reader :: "Mpmc \<Rightarrow> nat \<Rightarrow> bool" where
  "reader s p = (\<exists>i. reads (mp_threads s i) = Some p)"

definition copier :: "Mpmc \<Rightarrow> nat \<Rightarrow> bool" where
  "copier s p = (\<exists>i. copies (mp_threads s i) = Some p)"

text \<open>
  A cell is free for position \<open>p\<close>, and then no consumer has reserved \<open>p\<close> and a producer that has reserved
  it is at work; or it holds the message of \<open>p\<close>, and then a consumer that has reserved it is at work.
\<close>

definition cell_ok :: "Mpmc \<Rightarrow> nat \<Rightarrow> bool" where
  "cell_ok s p =
    (length (mp_sent s) \<le> p + 16 \<and> p < mp_taken s + 16
     \<and> (seq_of s p = p \<and> mp_taken s \<le> p \<and> (p < length (mp_sent s) \<longrightarrow> writer s p)
        \<or> seq_of s p = p + 1 \<and> p < length (mp_sent s) \<and> bears (slot_of s p) (mp_sent s ! p)
           \<and> (p < mp_taken s \<longrightarrow> reader s p)))"

fun thread_ok :: "Mpmc \<Rightarrow> mpmc_thread \<Rightarrow> bool" where
  "thread_ok s (PushLoad src flags) = (length src \<le> 240)"
| "thread_ok s (PushSeq src flags pos) = (length src \<le> 240 \<and> unat pos \<le> length (mp_sent s))"
| "thread_ok s (PushCas src flags pos) =
    (length src \<le> 240 \<and> unat pos \<le> length (mp_sent s) \<and> (unat pos = length (mp_sent s) \<longrightarrow> seq_of s (unat pos) = unat pos))"
| "thread_ok s (PushWrite src flags pos) =
    (length src \<le> 240 \<and> unat pos < length (mp_sent s) \<and> seq_of s (unat pos) = unat pos \<and> mp_sent s ! unat pos = (flags, src))"
| "thread_ok s (PushCommit src flags pos mid) =
    (unat pos < length (mp_sent s) \<and> seq_of s (unat pos) = unat pos \<and> bears (slot_of s (unat pos)) (mp_sent s ! unat pos))"
| "thread_ok s (PopSeq dst pos) = (unat pos \<le> mp_taken s)"
| "thread_ok s (PopCas dst pos) = (unat pos \<le> mp_taken s \<and> (unat pos = mp_taken s \<longrightarrow> seq_of s (unat pos) = unat pos + 1))"
| "thread_ok s (PopRead dst pos) =
    (unat pos < mp_taken s \<and> seq_of s (unat pos) = unat pos + 1 \<and> unat pos \<notin> fst ` set (mp_log s))"
| "thread_ok s (PopRelease pos res buf) =
    (unat pos < mp_taken s \<and> seq_of s (unat pos) = unat pos + 1 \<and> (\<exists>m. (unat pos, m) \<in> set (mp_log s) \<and> delivered m res buf))"
| "thread_ok s (PopReturned res buf) = (res \<noteq> Err QueueEmpty \<longrightarrow> (\<exists>p m. (p, m) \<in> set (mp_log s) \<and> delivered m res buf))"
| "thread_ok s _ = True"

definition log_ok :: "Mpmc \<Rightarrow> bool" where
  "log_ok s = (distinct (map fst (mp_log s)) \<and> (\<forall>(p, m) \<in> set (mp_log s). p < mp_taken s \<and> m = mp_sent s ! p)
     \<and> (\<forall>p < mp_taken s. p \<in> fst ` set (mp_log s) \<or> copier s p))"

definition mpmc_inv :: "Mpmc \<Rightarrow> bool" where
  "mpmc_inv s =
    (unat (mp_head (mp_ring s)) = length (mp_sent s) \<and> unat (mp_tail (mp_ring s)) = mp_taken s \<and> mp_taken s \<le> length (mp_sent s)
     \<and> (\<forall>c < 16. \<exists>p. p mod 16 = c \<and> cell_ok s p) \<and> (\<forall>i. thread_ok s (mp_threads s i))
     \<and> (\<forall>i j p. i \<noteq> j \<longrightarrow> writes (mp_threads s i) = Some p \<longrightarrow> writes (mp_threads s j) \<noteq> Some p)
     \<and> (\<forall>i j p. i \<noteq> j \<longrightarrow> reads (mp_threads s i) = Some p \<longrightarrow> reads (mp_threads s j) \<noteq> Some p) \<and> log_ok s)"

lemma mpmc_boot_inv: "mpmc_inv (mpmc_boot uninit)"
proof -
  have "cell_ok (mpmc_boot uninit) c" if "c < 16" for c
    using that by (simp add: cell_ok_def mpmc_boot_def seq_of_def MpmcRing_init_def unat_of_nat take_bit_nat_eq_self)
  then have "\<forall>c < 16. \<exists>p. p mod 16 = c \<and> cell_ok (mpmc_boot uninit) p" by (metis mod_less)
  then show ?thesis unfolding mpmc_inv_def by (simp add: mpmc_boot_def log_ok_def MpmcRing_init_def)
qed

section \<open>Every step keeps the invariant\<close>

lemma mod16_near: "p mod 16 = q mod 16 \<Longrightarrow> p \<le> q \<Longrightarrow> q < p + 16 \<Longrightarrow> p = (q :: nat)"
  using mod_add_inj_nat [of "q - p" 16 0 p] by (simp add: less_diff_conv2)

lemma mod16_suc: "p mod 16 = q mod 16 \<Longrightarrow> p + 1 \<noteq> (q :: nat)"
  using mod16_near [of p q] by auto

lemma seq_of_cong: "p mod 16 = q mod 16 \<Longrightarrow> seq_of s p = seq_of s q" "p mod 16 = q mod 16 \<Longrightarrow> slot_of s p = slot_of s q"
  by (simp_all add: seq_of_def slot_of_def)

lemma cell_of:
  assumes "mpmc_inv s"
  obtains p where "p mod 16 = q mod 16" "cell_ok s p" "seq_of s q = p \<or> seq_of s q = p + 1"
proof -
  have "q mod 16 < 16" by simp
  then obtain p where "p mod 16 = q mod 16" "cell_ok s p" using assms unfolding mpmc_inv_def by metis
  then show ?thesis using that [of p] seq_of_cong(1) [of p q s] by (auto simp: cell_ok_def)
qed

lemma cell_free: "mpmc_inv s \<Longrightarrow> seq_of s q = q \<Longrightarrow> cell_ok s q"
  by (rule cell_of [of s q]) (use mod16_suc in auto)

lemma cell_full: "mpmc_inv s \<Longrightarrow> seq_of s q = q + 1 \<Longrightarrow> cell_ok s q"
  by (rule cell_of [of s q]) (use mod16_suc in force)+

lemma seq_bound: "mpmc_inv s \<Longrightarrow> seq_of s q \<le> length (mp_sent s) + 16"
  by (rule cell_of [of s q]) (auto simp: cell_ok_def mpmc_inv_def)

lemma mpmc_invD:
  assumes "mpmc_inv s"
  shows "unat (mp_head (mp_ring s)) = length (mp_sent s)" "unat (mp_tail (mp_ring s)) = mp_taken s" "mp_taken s \<le> length (mp_sent s)"
    "thread_ok s (mp_threads s i)" "c < 16 \<Longrightarrow> \<exists>p. p mod 16 = c \<and> cell_ok s p" "log_ok s"
    "i \<noteq> j \<Longrightarrow> writes (mp_threads s i) = Some p \<Longrightarrow> writes (mp_threads s j) \<noteq> Some p"
    "i \<noteq> j \<Longrightarrow> reads (mp_threads s i) = Some p \<Longrightarrow> reads (mp_threads s j) \<noteq> Some p"
  using assms unfolding mpmc_inv_def by blast+

text \<open>A step on the thread alone, by a thread that owns no cell before or after it.\<close>

definition idle_at :: "mpmc_thread \<Rightarrow> bool" where
  "idle_at th = (writes th = None \<and> reads th = None \<and> copies th = None)"

text \<open>A step of thread \<open>i\<close> in general: what is left to show.\<close>

lemma mpmc_invI:
  assumes s: "mpmc_inv s" and ts: "mp_threads s' = (mp_threads s)(i := th)"
    and h: "unat (mp_head (mp_ring s')) = length (mp_sent s')" "unat (mp_tail (mp_ring s')) = mp_taken s'" "mp_taken s' \<le> length (mp_sent s')"
    and c: "\<And>p. cell_ok s p \<Longrightarrow> \<exists>q. q mod 16 = p mod 16 \<and> cell_ok s' q"
    and t: "thread_ok s' th" "\<And>j. j \<noteq> i \<Longrightarrow> thread_ok s (mp_threads s j) \<Longrightarrow> thread_ok s' (mp_threads s j)"
    and w: "\<And>j p. j \<noteq> i \<Longrightarrow> writes th = Some p \<Longrightarrow> writes (mp_threads s j) \<noteq> Some p"
      "\<And>j p. j \<noteq> i \<Longrightarrow> reads th = Some p \<Longrightarrow> reads (mp_threads s j) \<noteq> Some p"
    and l: "log_ok s'"
  shows "mpmc_inv s'"
proof -
  have "\<exists>p. p mod 16 = k \<and> cell_ok s' p" if "k < 16" for k using mpmc_invD(5) [OF s that] c by metis
  moreover have "thread_ok s' (mp_threads s' j)" for j using t mpmc_invD(4) [OF s, of j] by (cases "j = i") (simp_all add: ts)
  moreover have "writes (mp_threads s' j') \<noteq> Some p" if "j \<noteq> j'" "writes (mp_threads s' j) = Some p" for j j' p
    using that w(1) mpmc_invD(7) [OF s, of j j' p] unfolding ts by (cases "j = i"; cases "j' = i") auto
  moreover have "reads (mp_threads s' j') \<noteq> Some p" if "j \<noteq> j'" "reads (mp_threads s' j) = Some p" for j j' p
    using that w(2) mpmc_invD(8) [OF s, of j j' p] unfolding ts by (cases "j = i"; cases "j' = i") auto
  ultimately show ?thesis using h l unfolding mpmc_inv_def by blast
qed

lemma thread_owns:
  "thread_ok s th \<Longrightarrow> writes th = Some p \<Longrightarrow> p < length (mp_sent s) \<and> seq_of s p = p"
  "thread_ok s th \<Longrightarrow> reads th = Some p \<Longrightarrow> p < mp_taken s \<and> seq_of s p = p + 1"
  by (cases th; auto)+

lemma owner_kept:
  assumes "mp_threads s' = (mp_threads s)(i := th)"
  shows "writes (mp_threads s i) \<noteq> Some p \<Longrightarrow> writer s p \<Longrightarrow> writer s' p" "reads (mp_threads s i) \<noteq> Some p \<Longrightarrow> reader s p \<Longrightarrow> reader s' p"
    "copies (mp_threads s i) \<noteq> Some p \<Longrightarrow> copier s p \<Longrightarrow> copier s' p"
    "writes th = Some p \<Longrightarrow> writer s' p" "reads th = Some p \<Longrightarrow> reader s' p" "copies th = Some p \<Longrightarrow> copier s' p"
  unfolding writer_def reader_def copier_def assms by (metis fun_upd_apply)+

lemma local_step:
  assumes s: "mpmc_inv s" and i: "idle_at (mp_threads s i)" "idle_at th" "thread_ok s th"
    and s': "mp_ring s' = mp_ring s" "mp_threads s' = (mp_threads s)(i := th)" "mp_sent s' = mp_sent s" "mp_taken s' = mp_taken s" "mp_log s' = mp_log s"
  shows "mpmc_inv s'"
proof -
  have sq: "seq_of s' x = seq_of s x" "slot_of s' x = slot_of s x" for x by (simp_all add: seq_of_def slot_of_def s')
  have ow: "writer s x \<Longrightarrow> writer s' x" "reader s x \<Longrightarrow> reader s' x" "copier s x \<Longrightarrow> copier s' x" for x
    using owner_kept [OF s'(2), of x] i(1) by (simp_all add: idle_at_def)
  have t: "thread_ok s' th' = thread_ok s th'" for th' by (cases th') (simp_all add: sq s')
  show ?thesis
  proof (rule mpmc_invI [OF s s'(2)])
    fix x assume "cell_ok s x"
    then have "cell_ok s' x" using ow unfolding cell_ok_def sq s' by auto
    then show "\<exists>p. p mod 16 = x mod 16 \<and> cell_ok s' p" by blast
  next
    show "log_ok s'" using mpmc_invD(6) [OF s] ow(3) unfolding log_ok_def s' by auto
  qed (use i mpmc_invD(1-3) [OF s] in \<open>simp_all add: t s' idle_at_def\<close>)
qed

lemma push_cas_step:
  assumes s: "mpmc_inv s" "length (mp_sent s) < 2 ^ 62" and th: "mp_threads s i = PushCas src flags pos" "mp_head (mp_ring s) = pos"
    and s': "mp_ring s' = (mp_ring s)\<lparr>mp_head := pos + 1\<rparr>" "mp_threads s' = (mp_threads s)(i := PushWrite src flags pos)"
      "mp_sent s' = mp_sent s @ [(flags, src)]" "mp_taken s' = mp_taken s" "mp_log s' = mp_log s"
  shows "mpmc_inv s'"
proof -
  define H where "H = length (mp_sent s)"
  have p: "unat pos = H" "unat (pos + 1) = H + 1" using mpmc_invD(1) [OF s(1)] th(2) s(2) unat_next [of pos] by (simp_all add: H_def)
  have ok: "length src \<le> 240" "seq_of s H = H" using mpmc_invD(4) [OF s(1), of i] th p(1) by (simp_all add: H_def)
  have cH: "cell_ok s H" by (rule cell_free [OF s(1) ok(2)])
  have sq: "seq_of s' q = seq_of s q" "slot_of s' q = slot_of s q" for q by (simp_all add: seq_of_def slot_of_def s')
  have T: "mp_taken s \<le> H" using mpmc_invD(3) [OF s(1)] by (simp add: H_def)
  have ow: "writer s q \<Longrightarrow> writer s' q" "reader s q \<Longrightarrow> reader s' q" "copier s q \<Longrightarrow> copier s' q" "writer s' H" for q
    using owner_kept [OF s'(2)] th(1) p(1) by auto
  show ?thesis
  proof (rule mpmc_invI [OF s(1) s'(2)])
    fix q assume c: "cell_ok s q"
    have "cell_ok s' (if q mod 16 = H mod 16 then H else q)"
    proof (cases "q mod 16 = H mod 16")
      case True
      have "cell_ok s' H" using cH ok(2) T ow(4) unfolding cell_ok_def sq s' by (simp add: H_def)
      then show ?thesis using True by simp
    next
      case False
      then have "q \<noteq> H" "H \<noteq> q + 16" by auto
      then show ?thesis using c ow False unfolding cell_ok_def sq s' by (auto simp: H_def nth_append)
    qed
    then show "\<exists>p. p mod 16 = q mod 16 \<and> cell_ok s' p" by (metis (full_types))
  next
    fix j assume "thread_ok s (mp_threads s j)"
    then show "thread_ok s' (mp_threads s j)"
      by (cases "mp_threads s j") (auto simp: sq s' nth_append)
  next
    fix j q assume "writes (PushWrite src flags pos) = Some q"
    then show "writes (mp_threads s j) \<noteq> Some q" using thread_owns(1) [OF mpmc_invD(4) [OF s(1), of j], of q] p(1) by (auto simp: H_def)
  next
    show "log_ok s'" using mpmc_invD(6) [OF s(1)] T ow(3) unfolding log_ok_def s' by (auto simp: H_def nth_append)
  qed (use p ok T mpmc_invD(2) [OF s(1)] in \<open>simp_all add: sq s' H_def\<close>)
qed

lemma pop_cas_step:
  assumes s: "mpmc_inv s" "length (mp_sent s) < 2 ^ 62" and th: "mp_threads s i = PopCas dst pos" "mp_tail (mp_ring s) = pos"
    and s': "mp_ring s' = (mp_ring s)\<lparr>mp_tail := pos + 1\<rparr>" "mp_threads s' = (mp_threads s)(i := PopRead dst pos)"
      "mp_sent s' = mp_sent s" "mp_taken s' = mp_taken s + 1" "mp_log s' = mp_log s"
  shows "mpmc_inv s'"
proof -
  define T where "T = mp_taken s"
  have le: "T \<le> length (mp_sent s)" using mpmc_invD(3) [OF s(1)] by (simp add: T_def)
  have p: "unat pos = T" "unat (pos + 1) = T + 1" using mpmc_invD(2) [OF s(1)] th(2) s(2) le unat_next [of pos] by (simp_all add: T_def)
  have ok: "seq_of s T = T + 1" using mpmc_invD(4) [OF s(1), of i] th p(1) by (simp add: T_def)
  have cT: "cell_ok s T" by (rule cell_full [OF s(1) ok])
  then have lt: "T < length (mp_sent s)" using ok by (simp add: cell_ok_def)
  have sq: "seq_of s' q = seq_of s q" "slot_of s' q = slot_of s q" for q by (simp_all add: seq_of_def slot_of_def s')
  have ow: "writer s q \<Longrightarrow> writer s' q" "reader s q \<Longrightarrow> reader s' q" "copier s q \<Longrightarrow> copier s' q" "reader s' T" "copier s' T" for q
    using owner_kept [OF s'(2)] th(1) p(1) by auto
  have l: "log_ok s" by (rule mpmc_invD(6) [OF s(1)])
  show ?thesis
  proof (rule mpmc_invI [OF s(1) s'(2)])
    fix q assume c: "cell_ok s q"
    have "cell_ok s' (if q mod 16 = T mod 16 then T else q)"
    proof (cases "q mod 16 = T mod 16")
      case True
      have "cell_ok s' T" using cT ok ow(4) unfolding cell_ok_def sq s' by (simp add: T_def)
      then show ?thesis using True by simp
    next
      case False
      then have "q \<noteq> T" by auto
      then show ?thesis using c ow False unfolding cell_ok_def sq s' by (auto simp: T_def)
    qed
    then show "\<exists>p. p mod 16 = q mod 16 \<and> cell_ok s' p" by (metis (full_types))
  next
    fix j assume "thread_ok s (mp_threads s j)"
    then show "thread_ok s' (mp_threads s j)" by (cases "mp_threads s j") (auto simp: sq s')
  next
    fix j q assume "reads (PopRead dst pos) = Some q"
    then show "reads (mp_threads s j) \<noteq> Some q" using thread_owns(2) [OF mpmc_invD(4) [OF s(1), of j], of q] p(1) by (auto simp: T_def)
  next
    show "log_ok s'" using l ow(3,5) unfolding log_ok_def s' by (auto simp: T_def less_Suc_eq)
    show "thread_ok s' (PopRead dst pos)" using l p(1) ok by (force simp: log_ok_def sq s' T_def)
  qed (use p lt mpmc_invD(1) [OF s(1)] in \<open>simp_all add: s' T_def\<close>)
qed

text \<open>A thread that owns a cell changes it; the cells of the other threads are different ones.\<close>

lemma owned_apart:
  assumes s: "mpmc_inv s" and i: "mp_threads s i = th" "i \<noteq> j"
  shows "writes th = Some p \<Longrightarrow> writes (mp_threads s j) = Some q \<Longrightarrow> p mod 16 \<noteq> q mod 16"
    "writes th = Some p \<Longrightarrow> reads (mp_threads s j) = Some q \<Longrightarrow> p mod 16 \<noteq> q mod 16"
    "reads th = Some p \<Longrightarrow> writes (mp_threads s j) = Some q \<Longrightarrow> p mod 16 \<noteq> q mod 16"
    "reads th = Some p \<Longrightarrow> reads (mp_threads s j) = Some q \<Longrightarrow> p mod 16 \<noteq> q mod 16"
proof -
  note t = thread_owns [OF mpmc_invD(4) [OF s]] and sc = seq_of_cong(1) [of p q s]
  show "p mod 16 \<noteq> q mod 16" if "writes th = Some p" "writes (mp_threads s j) = Some q"
    using that t(1) sc mpmc_invD(7) [OF s i(2)] i(1) by metis
  show "p mod 16 \<noteq> q mod 16" if "writes th = Some p" "reads (mp_threads s j) = Some q"
    using that t sc mod16_suc [of q p] i(1) by metis
  show "p mod 16 \<noteq> q mod 16" if "reads th = Some p" "writes (mp_threads s j) = Some q"
    using that t sc mod16_suc [of p q] i(1) by metis
  show "p mod 16 \<noteq> q mod 16" if "reads th = Some p" "reads (mp_threads s j) = Some q"
    using that t(2) sc mpmc_invD(8) [OF s i(2)] i(1) by (metis add_right_cancel)
qed

lemma push_write_step:
  assumes s: "mpmc_inv s" and th: "mp_threads s i = PushWrite src flags pos"
    and s': "mp_ring s' = (mp_ring s)\<lparr>mp_cells := (mp_cells (mp_ring s))(cell_at pos := (mp_cells (mp_ring s) (cell_at pos))\<lparr>cell_slot := slot\<rparr>)\<rparr>"
      "mp_threads s' = (mp_threads s)(i := PushCommit src flags pos mid)"
      "mp_sent s' = mp_sent s" "mp_taken s' = mp_taken s" "mp_log s' = mp_log s"
    and sl: "length src \<le> 240 \<Longrightarrow> bears slot (flags, src)"
  shows "mpmc_inv s'"
proof -
  define q where "q = unat pos"
  have ok: "length src \<le> 240" "q < length (mp_sent s)" "seq_of s q = q" "mp_sent s ! q = (flags, src)"
    using mpmc_invD(4) [OF s, of i] th by (simp_all add: q_def)
  have sq: "seq_of s' x = seq_of s x" "slot_of s' x = (if x mod 16 = q mod 16 then slot else slot_of s x)" for x
    by (simp_all add: seq_of_def slot_of_def s' cell_at_unat q_def)
  have ow: "writer s x \<Longrightarrow> writer s' x" "reader s x \<Longrightarrow> reader s' x" "copier s x \<Longrightarrow> copier s' x" for x
    using owner_kept [OF s'(2), of x] th by (cases "x = q"; simp add: q_def)+
  show ?thesis
  proof (rule mpmc_invI [OF s s'(2)])
    fix x assume c: "cell_ok s x"
    have "seq_of s x = x" if "x mod 16 = q mod 16"
      using that seq_of_cong(1) [OF that, of s] ok(3) mod16_suc [OF that] c by (auto simp: cell_ok_def)
    then have "cell_ok s' x" using c ow unfolding cell_ok_def sq s' by auto
    then show "\<exists>p. p mod 16 = x mod 16 \<and> cell_ok s' p" by blast
  next
    fix j assume j: "j \<noteq> i" "thread_ok s (mp_threads s j)"
    then show "thread_ok s' (mp_threads s j)"
      using owned_apart(1) [OF s th, of j q] by (cases "mp_threads s j") (auto simp: sq s' q_def)
  next
    fix j x assume "j \<noteq> i" "writes (PushCommit src flags pos mid) = Some x"
    then show "writes (mp_threads s j) \<noteq> Some x" using mpmc_invD(7) [OF s, of i j] th by auto
  next
    show "log_ok s'" using mpmc_invD(6) [OF s] ow(3) unfolding log_ok_def s' by auto
  qed (use ok sl mpmc_invD(1-3) [OF s] in \<open>simp_all add: sq s' q_def\<close>)
qed

lemma push_commit_step:
  assumes s: "mpmc_inv s" "length (mp_sent s) < 2 ^ 62" and th: "mp_threads s i = PushCommit src flags pos mid"
    and s': "mp_ring s' = seq_put (mp_ring s) pos (pos + 1)" "mp_threads s' = (mp_threads s)(i := PushReturned res)"
      "mp_sent s' = mp_sent s" "mp_taken s' = mp_taken s" "mp_log s' = mp_log s"
  shows "mpmc_inv s'"
proof -
  define q where "q = unat pos"
  have ok: "q < length (mp_sent s)" "seq_of s q = q" "bears (slot_of s q) (mp_sent s ! q)"
    using mpmc_invD(4) [OF s(1), of i] th by (simp_all add: q_def)
  have cq: "cell_ok s q" by (rule cell_free [OF s(1) ok(2)])
  have sq: "seq_of s' x = (if x mod 16 = q mod 16 then q + 1 else seq_of s x)" "slot_of s' x = slot_of s x" for x
    using unat_next [of pos] s(2) ok(1) by (simp_all add: seq_of_def slot_of_def s' cell_at_unat q_def)
  have ow: "x \<noteq> q \<Longrightarrow> writer s x \<Longrightarrow> writer s' x" "reader s x \<Longrightarrow> reader s' x" "copier s x \<Longrightarrow> copier s' x" for x
    using owner_kept [OF s'(2)] th by (auto simp: q_def)
  show ?thesis
  proof (rule mpmc_invI [OF s(1) s'(2)])
    fix x assume c: "cell_ok s x"
    have "cell_ok s' (if x mod 16 = q mod 16 then q else x)"
    proof (cases "x mod 16 = q mod 16")
      case True
      have "cell_ok s' q" using cq ok unfolding cell_ok_def sq s' by simp
      then show ?thesis using True by simp
    next
      case False
      then have "x \<noteq> q" by auto
      then show ?thesis using c ow False unfolding cell_ok_def sq s' by auto
    qed
    then show "\<exists>p. p mod 16 = x mod 16 \<and> cell_ok s' p" by (metis (full_types))
  next
    fix j assume j: "j \<noteq> i" "thread_ok s (mp_threads s j)"
    have "seq_of s x = q \<and> x + 1 \<noteq> q" if "x mod 16 = q mod 16" for x
      using that mod16_suc [of x q] seq_of_cong(1) [of x q s] ok(2) by simp
    note same = this
    show "thread_ok s' (mp_threads s j)"
      using owned_apart(1,2) [OF s(1) th j(1) [symmetric], of q] j(2) ok(1)
      by (cases "mp_threads s j") (auto simp: sq s' q_def dest: same [unfolded q_def])
  next
    show "log_ok s'" using mpmc_invD(6) [OF s(1)] ow(3) unfolding log_ok_def s' by auto
  qed (use ok mpmc_invD(1-3) [OF s(1)] in \<open>simp_all add: s'\<close>)
qed

lemma pop_read_step:
  assumes s: "mpmc_inv s" and th: "mp_threads s i = PopRead dst pos"
    and s': "mp_ring s' = mp_ring s" "mp_threads s' = (mp_threads s)(i := PopRelease pos res buf)"
      "mp_sent s' = mp_sent s" "mp_taken s' = mp_taken s" "mp_log s' = mp_log s @ [(unat pos, m)]"
    and m: "bears (slot_of s (unat pos)) (mp_sent s ! unat pos) \<Longrightarrow> m = mp_sent s ! unat pos \<and> delivered m res buf"
  shows "mpmc_inv s'"
proof -
  define q where "q = unat pos"
  have ok: "q < mp_taken s" "seq_of s q = q + 1" "q \<notin> fst ` set (mp_log s)"
    using mpmc_invD(4) [OF s, of i] th by (simp_all add: q_def)
  have "bears (slot_of s q) (mp_sent s ! q)" using cell_full [OF s ok(2)] ok(2) by (simp add: cell_ok_def)
  then have m: "m = mp_sent s ! q" "delivered m res buf" using m unfolding q_def by blast+
  have sq: "seq_of s' x = seq_of s x" "slot_of s' x = slot_of s x" for x by (simp_all add: seq_of_def slot_of_def s')
  have ow: "writer s x \<Longrightarrow> writer s' x" "reader s x \<Longrightarrow> reader s' x" "x \<noteq> q \<Longrightarrow> copier s x \<Longrightarrow> copier s' x" for x
    using owner_kept [OF s'(2), of x] th by (cases "x = q"; simp add: q_def)+
  show ?thesis
  proof (rule mpmc_invI [OF s s'(2)])
    fix x assume "cell_ok s x"
    then have "cell_ok s' x" using ow unfolding cell_ok_def sq s' by auto
    then show "\<exists>p. p mod 16 = x mod 16 \<and> cell_ok s' p" by blast
  next
    fix j assume j: "j \<noteq> i" "thread_ok s (mp_threads s j)"
    then show "thread_ok s' (mp_threads s j)"
      using mpmc_invD(8) [OF s, of i j q] th by (cases "mp_threads s j") (auto simp: sq s' q_def)
  next
    fix j x assume "j \<noteq> i" "reads (PopRelease pos res buf) = Some x"
    then show "reads (mp_threads s j) \<noteq> Some x" using mpmc_invD(8) [OF s, of i j] th by auto
  next
    show "log_ok s'" using mpmc_invD(6) [OF s] ow(3) ok m(1) unfolding log_ok_def s' by (auto simp: q_def)
    have "(q, m) \<in> set (mp_log s')" by (simp add: s' q_def)
    then show "thread_ok s' (PopRelease pos res buf)" using ok m(2) by (auto simp: sq s' q_def simp del: split_paired_Ex)
  qed (use mpmc_invD(1-3) [OF s] in \<open>simp_all add: s'\<close>)
qed

lemma pop_release_step:
  assumes s: "mpmc_inv s" "length (mp_sent s) < 2 ^ 62" and th: "mp_threads s i = PopRelease pos res buf"
    and s': "mp_ring s' = seq_put (mp_ring s) pos (pos + of_nat RING_SIZE)" "mp_threads s' = (mp_threads s)(i := PopReturned res buf)"
      "mp_sent s' = mp_sent s" "mp_taken s' = mp_taken s" "mp_log s' = mp_log s"
  shows "mpmc_inv s'"
proof -
  define q where "q = unat pos"
  have ok: "q < mp_taken s" "seq_of s q = q + 1" "\<exists>m. (q, m) \<in> set (mp_log s) \<and> delivered m res buf"
    using mpmc_invD(4) [OF s(1), of i] th by (simp_all add: q_def)
  have T: "mp_taken s \<le> length (mp_sent s)" by (rule mpmc_invD(3) [OF s(1)])
  have cq: "cell_ok s q" by (rule cell_full [OF s(1) ok(2)])
  have sq: "seq_of s' x = (if x mod 16 = q mod 16 then q + 16 else seq_of s x)" "slot_of s' x = slot_of s x" for x
    using unat_next [of pos] s(2) ok(1) T by (simp_all add: seq_of_def slot_of_def s' cell_at_unat q_def)
  have ow: "writer s x \<Longrightarrow> writer s' x" "x \<noteq> q \<Longrightarrow> reader s x \<Longrightarrow> reader s' x" "copier s x \<Longrightarrow> copier s' x" for x
    using owner_kept [OF s'(2), of x] th by (cases "x = q"; simp add: q_def)+
  show ?thesis
  proof (rule mpmc_invI [OF s(1) s'(2)])
    fix x assume c: "cell_ok s x"
    have "cell_ok s' (if x mod 16 = q mod 16 then q + 16 else x)"
    proof (cases "x mod 16 = q mod 16")
      case True
      have "cell_ok s' (q + 16)" using cq ok(1) T unfolding cell_ok_def sq s' by simp
      then show ?thesis using True by simp
    next
      case False
      then have "x \<noteq> q" by auto
      then show ?thesis using c ow False unfolding cell_ok_def sq s' by auto
    qed
    then show "\<exists>p. p mod 16 = x mod 16 \<and> cell_ok s' p" by (metis (full_types) mod_add_self2)
  next
    fix j assume j: "j \<noteq> i" "thread_ok s (mp_threads s j)"
    have same: "seq_of s x = q + 1 \<and> x \<noteq> q + 1" if "x mod 16 = q mod 16" for x
      using that mod16_suc [of q x] seq_of_cong(1) [of x q s] ok(2) by auto
    show "thread_ok s' (mp_threads s j)"
      using owned_apart(3,4) [OF s(1) th j(1) [symmetric], of q] j(2) ok(1)
      by (cases "mp_threads s j") (auto simp: sq s' q_def dest: same [unfolded q_def])
  next
    show "log_ok s'" using mpmc_invD(6) [OF s(1)] ow(3) unfolding log_ok_def s' by auto
    show "thread_ok s' (PopReturned res buf)" using ok(3) by (auto simp: s')
  qed (use T mpmc_invD(1,2) [OF s(1)] in \<open>simp_all add: s'\<close>)
qed

lemma push_seq_step:
  assumes s: "mpmc_inv s" "length (mp_sent s) < 2 ^ 62" and th: "mp_threads s i = PushSeq src flags pos"
  shows "mpmc_inv (mpmc_move weak i s)"
proof -
  define sq where "sq = cell_sequence (mp_cells (mp_ring s) (cell_at pos))"
  have u: "unat sq = seq_of s (unat pos)" by (simp add: sq_def seq_of_def cell_at_unat)
  have ok: "length src \<le> 240" "unat pos \<le> length (mp_sent s)" using mpmc_invD(4) [OF s(1), of i] th by simp_all
  have b: "unat sq < 2 ^ 63" "unat pos < 2 ^ 63" using seq_bound [OF s(1), of "unat pos"] u ok(2) s(2) by simp_all
  define th' where "th' = (if sint (sq - pos) < 0 then PushReturned (Err QueueFull) else if sint (sq - pos) \<noteq> 0 then PushLoad src flags else PushCas src flags pos)"
  have "thread_ok s th'" using ok u sint_diff(2) [OF b] by (auto simp: th'_def)
  then show ?thesis
    by (rule local_step [OF s(1), where i = i and th = th', rotated 2])
      (use th in \<open>simp_all add: mpmc_move_def note_history_def idle_at_def th'_def sq_def Let_def\<close>)
qed

lemma pop_seq_step:
  assumes s: "mpmc_inv s" "length (mp_sent s) < 2 ^ 62" and th: "mp_threads s i = PopSeq dst pos"
  shows "mpmc_inv (mpmc_move weak i s)"
proof -
  define sq where "sq = cell_sequence (mp_cells (mp_ring s) (cell_at pos))"
  have u: "unat sq = seq_of s (unat pos)" by (simp add: sq_def seq_of_def cell_at_unat)
  have ok: "unat pos \<le> mp_taken s" "mp_taken s \<le> length (mp_sent s)" using mpmc_invD(4) [OF s(1), of i] mpmc_invD(3) [OF s(1)] th by simp_all
  have p1: "unat (pos + 1) = unat pos + 1" using unat_next [of pos] ok s(2) by simp
  have b: "unat sq < 2 ^ 63" "unat (pos + 1) < 2 ^ 63" using seq_bound [OF s(1), of "unat pos"] u ok s(2) p1 by simp_all
  define th' where "th' = (if sint (sq - (pos + 1)) < 0 then PopReturned (Err QueueEmpty) dst
    else if sint (sq - (pos + 1)) \<noteq> 0 then PopLoad dst else PopCas dst pos)"
  have "thread_ok s th'" using ok u sint_diff(2) [OF b] p1 by (auto simp: th'_def)
  then show ?thesis
    by (rule local_step [OF s(1), where i = i and th = th', rotated 2])
      (use th in \<open>simp_all add: mpmc_move_def note_history_def idle_at_def th'_def sq_def Let_def\<close>)
qed

lemma move_keeps:
  assumes s: "mpmc_inv s" "length (mp_sent s) < 2 ^ 62"
  shows "mpmc_inv (mpmc_move weak i s)"
proof (cases "mp_threads s i")
  case NotStarted
  then show ?thesis by (intro local_step [OF s(1), where i = i and th = NotStarted]) (simp_all add: mpmc_move_def note_history_def idle_at_def)
next
  case (PushLoad src flags)
  then show ?thesis using mpmc_invD(1) [OF s(1)] mpmc_invD(4) [OF s(1), of i]
    by (intro local_step [OF s(1), where i = i and th = "PushSeq src flags (mp_head (mp_ring s))"]) (simp_all add: mpmc_move_def note_history_def idle_at_def)
next
  case (PushSeq src flags pos)
  then show ?thesis by (rule push_seq_step [OF s])
next
  case (PushCas src flags pos)
  show ?thesis
  proof (cases "mp_head (mp_ring s) = pos \<and> \<not> weak")
    case True
    then show ?thesis using PushCas by (intro push_cas_step [OF s PushCas]) (auto simp: mpmc_move_def note_history_def)
  next
    case False
    then show ?thesis using PushCas mpmc_invD(4) [OF s(1), of i]
      by (intro local_step [OF s(1), where i = i and th = "PushLoad src flags"]) (auto simp: mpmc_move_def note_history_def idle_at_def)
  qed
next
  case (PushWrite src flags pos)
  show ?thesis
    by (rule push_write_step [OF s(1) PushWrite])
      (use PushWrite in \<open>auto simp: mpmc_move_def note_history_def alloc_message_id_def Let_def bears_def MessageHeader_new_inline_def
         unat_of_nat take_bit_nat_eq_self\<close>)
next
  case (PushCommit src flags pos mid)
  then show ?thesis by (intro push_commit_step [OF s PushCommit]) (auto simp: mpmc_move_def note_history_def)
next
  case (PushReturned res)
  then show ?thesis by (intro local_step [OF s(1), where i = i and th = "PushReturned res"]) (simp_all add: mpmc_move_def note_history_def idle_at_def)
next
  case (PopLoad dst)
  then show ?thesis using mpmc_invD(2) [OF s(1)]
    by (intro local_step [OF s(1), where i = i and th = "PopSeq dst (mp_tail (mp_ring s))"]) (simp_all add: mpmc_move_def note_history_def idle_at_def)
next
  case (PopSeq dst pos)
  then show ?thesis by (rule pop_seq_step [OF s])
next
  case (PopCas dst pos)
  show ?thesis
  proof (cases "mp_tail (mp_ring s) = pos \<and> \<not> weak")
    case True
    then show ?thesis using PopCas by (intro pop_cas_step [OF s PopCas]) (auto simp: mpmc_move_def note_history_def)
  next
    case False
    then show ?thesis using PopCas
      by (intro local_step [OF s(1), where i = i and th = "PopLoad dst"]) (auto simp: mpmc_move_def note_history_def idle_at_def)
  qed
next
  case (PopRead dst pos)
  define slot where "slot = slot_of s (unat pos)"
  define ln where "ln = unat (hdr_len (slot_header slot))"
  define res :: "(IpcError, nat \<times> MsgFlags) result" where "res = (if ln > length dst then Err MessageTooLarge else Ok (ln, hdr_flags (slot_header slot)))"
  define buf where "buf = (if ln > length dst then dst else copy_to (take ln (slot_payload slot)) dst)"
  have m: "slot_msg slot = m \<and> delivered m res buf" if "bears slot m" for m
    using that by (auto simp: bears_def slot_msg_def delivered_def res_def buf_def ln_def copy_to_def)
  show ?thesis
    by (rule pop_read_step [OF s(1) PopRead, where res = res and buf = buf and m = "slot_msg slot"])
      (use PopRead m in \<open>auto simp: mpmc_move_def note_history_def Let_def slot_def slot_of_def cell_at_unat res_def buf_def ln_def\<close>)
next
  case (PopRelease pos res buf)
  then show ?thesis by (intro pop_release_step [OF s PopRelease]) (auto simp: mpmc_move_def note_history_def)
next
  case (PopReturned res buf)
  then show ?thesis using mpmc_invD(4) [OF s(1), of i]
    by (intro local_step [OF s(1), where i = i and th = "PopReturned res buf"]) (simp_all add: mpmc_move_def note_history_def idle_at_def)
qed

lemma move_sent: "length (mp_sent s) \<le> length (mp_sent (mpmc_move weak i s))"
  by (auto simp: mpmc_move_def note_history_def split: prod.split mpmc_thread.split)

lemma step_keeps:
  assumes "mpmc_step s s'" "length (mp_sent s') < 2 ^ 62" "mpmc_inv s"
  shows "mpmc_inv s'" "length (mp_sent s) \<le> length (mp_sent s')"
proof -
  show l: "length (mp_sent s) \<le> length (mp_sent s')" using assms(1) by cases (simp_all add: move_sent)
  have idle: "returned th \<Longrightarrow> idle_at th" for th by (cases th) (simp_all add: idle_at_def)
  show "mpmc_inv s'" using assms(1)
  proof cases
    case (call_push i src flags)
    show ?thesis by (rule local_step [OF assms(3) idle [OF call_push(2)], where th = "push_start src flags"])
        (simp_all add: call_push(1) push_start_def idle_at_def)
  next
    case (call_pop i dst)
    show ?thesis by (rule local_step [OF assms(3) idle [OF call_pop(2)], where th = "pop_start dst"])
        (simp_all add: call_pop(1) pop_start_def idle_at_def)
  next
    case (move weak i)
    then show ?thesis using move_keeps [OF assms(3), of weak i] l assms(2) by simp
  qed
qed

lemma reach_inv:
  assumes "mpmc_reach (mpmc_boot uninit) s" "length (mp_sent s) < 2 ^ 62"
  shows "mpmc_inv s"
  using assms
proof (induction rule: mpmc_reach.induct)
  case start
  then show ?case by (simp add: mpmc_boot_inv)
next
  case (run s s')
  have "length (mp_sent s) \<le> length (mp_sent s')" using run.hyps(2) by cases (simp_all add: move_sent)
  then show ?case using step_keeps(1) [OF run.hyps(2)] run.IH run.prems by simp
qed

lemma reserved_bound:
  assumes s: "mpmc_inv s"
  shows "length (mp_sent s) \<le> mp_taken s + 16"
proof (cases "length (mp_sent s)")
  case (Suc h)
  obtain p where p: "p mod 16 = h mod 16" "cell_ok s p" using cell_of [OF s, of h] by blast
  then have "Suc h \<le> p + 16" "p < mp_taken s + 16" using Suc by (simp_all add: cell_ok_def)
  moreover have "h \<le> p" using mod16_near [of p h] p(1) \<open>Suc h \<le> p + 16\<close> by linarith
  ultimately show ?thesis using Suc by simp
qed simp

section \<open>Properties\<close>

text \<open>The cell whose slot a thread is about to access or has accessed and not yet handed on.\<close>

definition in_cell :: "mpmc_thread \<Rightarrow> nat \<Rightarrow> bool" where
  "in_cell th c = (\<exists>p. p mod 16 = c \<and> (writes th = Some p \<or> reads th = Some p))"

text \<open>
  C4: The shared ring delivers every message exactly once, in the order in which the producers reserved
  their positions, for any number of threads and any interleaving of their accesses, as long as fewer
  than \<open>2 ^ 62\<close> messages have been sent.  At most 16 reserved messages are not yet reserved by a consumer.
  The message read at a position is the one sent at that position, no position is read twice, and
  every position a consumer has reserved has been read or is being read.  No two threads are ever in
  the same cell, so the unsynchronised accesses to the payload do not race.  A pop that returned a
  message returned the flags and bytes of a message that was sent.
\<close>

theorem mpmc_exactly_once:
  assumes r: "mpmc_reach (mpmc_boot uninit) s" and b: "length (mp_sent s) < 2 ^ 62"
  shows "mp_taken s \<le> length (mp_sent s) \<and> length (mp_sent s) \<le> mp_taken s + 16
    \<and> distinct (map fst (mp_log s)) \<and> (\<forall>(p, m) \<in> set (mp_log s). p < mp_taken s \<and> m = mp_sent s ! p)
    \<and> (\<forall>p < mp_taken s. p \<in> fst ` set (mp_log s) \<or> (\<exists>i dst pos. mp_threads s i = PopRead dst pos \<and> unat pos = p))
    \<and> (\<forall>i j c. i \<noteq> j \<longrightarrow> in_cell (mp_threads s i) c \<longrightarrow> \<not> in_cell (mp_threads s j) c)
    \<and> (\<forall>i n flags buf. mp_threads s i = PopReturned (Ok (n, flags)) buf \<longrightarrow> (\<exists>p < mp_taken s. mp_sent s ! p = (flags, take n buf)))"
proof (intro conjI)
  note inv = reach_inv [OF r b]
  have l: "log_ok s" by (rule mpmc_invD(6) [OF inv])
  show "mp_taken s \<le> length (mp_sent s)" "length (mp_sent s) \<le> mp_taken s + 16"
    by (rule mpmc_invD(3) [OF inv], rule reserved_bound [OF inv])
  show "distinct (map fst (mp_log s))" "\<forall>(p, m) \<in> set (mp_log s). p < mp_taken s \<and> m = mp_sent s ! p" using l by (simp_all add: log_ok_def)
  have "\<exists>dst pos. th = PopRead dst pos \<and> unat pos = p" if "copies th = Some p" for th p using that by (cases th) auto
  then have "\<exists>i dst pos. mp_threads s i = PopRead dst pos \<and> unat pos = p" if "copier s p" for p using that unfolding copier_def by blast
  then show "\<forall>p < mp_taken s. p \<in> fst ` set (mp_log s) \<or> (\<exists>i dst pos. mp_threads s i = PopRead dst pos \<and> unat pos = p)"
    using l unfolding log_ok_def by blast
  show "\<forall>i j c. i \<noteq> j \<longrightarrow> in_cell (mp_threads s i) c \<longrightarrow> \<not> in_cell (mp_threads s j) c"
  proof (intro allI impI notI)
    fix i j c assume ij: "i \<noteq> j" and "in_cell (mp_threads s i) c" "in_cell (mp_threads s j) c"
    then obtain p q where "p mod 16 = q mod 16" "writes (mp_threads s i) = Some p \<or> reads (mp_threads s i) = Some p"
        "writes (mp_threads s j) = Some q \<or> reads (mp_threads s j) = Some q" unfolding in_cell_def by metis
    then show False using owned_apart [OF inv refl ij, of p q] by blast
  qed
  show "\<forall>i n flags buf. mp_threads s i = PopReturned (Ok (n, flags)) buf \<longrightarrow> (\<exists>p < mp_taken s. mp_sent s ! p = (flags, take n buf))"
  proof (intro allI impI)
    fix i n flags buf assume "mp_threads s i = PopReturned (Ok (n, flags)) buf"
    then obtain p m where "(p, m) \<in> set (mp_log s)" "delivered m (Ok (n, flags)) buf" using mpmc_invD(4) [OF inv, of i] by auto
    moreover then have "p < mp_taken s" "m = mp_sent s ! p" using l by (auto simp: log_ok_def)
    ultimately show "\<exists>p < mp_taken s. mp_sent s ! p = (flags, take n buf)" by (auto simp: delivered_def)
  qed
qed

definition sample_sent :: Mpmc where
  "sample_sent = fold (mpmc_move False) [0, 0, 0, 0, 0]
     ((mpmc_boot RingSlot_zeroed)\<lparr>mp_threads := (mp_threads (mpmc_boot RingSlot_zeroed))(0 := push_start [7] 2)\<rparr>)"

definition sample_run :: Mpmc where
  "sample_run = fold (mpmc_move False) [1, 1, 1, 1, 1] (sample_sent\<lparr>mp_threads := (mp_threads sample_sent)(1 := pop_start [0, 0])\<rparr>)"

lemmas run_simps = mpmc_move_def note_history_def mpmc_boot_def MpmcRing_init_def MpmcRing_new_uninit_def SlotCell_new_at_def
  push_start_def pop_start_def cell_at_unat Let_def alloc_message_id_def MessageHeader_new_inline_def copy_to_def RingSlot_zeroed_def

lemma sample_run_eval: "mp_sent sample_run = [(2, [7])]" "mp_threads sample_run 1 = PopReturned (Ok (1, 2)) [7, 0]" "mp_taken sample_run = 1"
  by (simp_all add: sample_run_def sample_sent_def run_simps)

lemma reach_moves: "mpmc_reach s0 s \<Longrightarrow> mpmc_reach s0 (fold (mpmc_move weak) is s)"
  by (induction "is" arbitrary: s) (auto intro: mpmc_reach.run mpmc_step.move)

lemma sample_run_reach: "mpmc_reach (mpmc_boot RingSlot_zeroed) sample_run"
  unfolding sample_run_def
proof (rule reach_moves, rule mpmc_reach.run [OF _ mpmc_step.call_pop])
  show "returned (mp_threads sample_sent 1)" by (simp add: sample_sent_def run_simps)
  show "mpmc_reach (mpmc_boot RingSlot_zeroed) sample_sent" unfolding sample_sent_def
    by (rule reach_moves, rule mpmc_reach.run [OF mpmc_reach.start mpmc_step.call_push]) (simp add: mpmc_boot_def)
qed

theorem mpmc_exactly_once_witness:
  "mp_threads sample_run 1 = PopReturned (Ok (1, 2)) [7, 0] \<and> (\<exists>p < mp_taken sample_run. mp_sent sample_run ! p = (2, [7]))"
proof
  have "length (mp_sent sample_run) < 2 ^ 62" by (simp add: sample_run_eval)
  then have "\<exists>p < mp_taken sample_run. mp_sent sample_run ! p = (2, take 1 [7, 0])"
    using mpmc_exactly_once [OF sample_run_reach] sample_run_eval(2) by blast
  then show "\<exists>p < mp_taken sample_run. mp_sent sample_run ! p = (2, [7])" by simp
qed (rule sample_run_eval)

end
