(* ===== verification/Spec2Isabelle.thy ===== *)
theory Spec2Isabelle
  imports Cap_Service Buddy_Global Sched_Smp Ipc_Batch Ipc_Sequence Ipc_Mpmc
begin

text \<open>
  Verification development of the Exo-OS kernel.
\<close>

section \<open>Properties across components\<close>



end
